(* ===== verification/Flume_Prelude.thy ===== *)
theory Flume_Prelude
  imports Main "HOL-Library.Word" "HOL-Library.Product_Lexorder" "HOL-Library.List_Lexorder"
    "HOL-Library.Char_ord"
begin

text \<open>
  Shared vocabulary of the development.

  \<^item> Machine integers: a \<open>u64\<close> or \<open>u32\<close> of the code is a word of that width. Rust's plain
    \<open>+\<close>, \<open>-\<close> and \<open>/\<close> panic on overflow or on a zero divisor in a debug build; the model takes
    that reading, as the functions \<open>checked_add\<close>, \<open>checked_sub\<close> and \<open>checked_div\<close>. A \<open>usize\<close> that
    only counts elements of a collection is a \<open>nat\<close>.
  \<^item> Results: \<open>'a res\<close> is \<open>FlumeResult<T>\<close> with a third outcome, the panic.
  \<^item> Standard containers: a \<open>HashMap\<close> is a map \<open>'k \<rightharpoonup> 'v\<close>; its iteration order is not fixed
    by the standard library, so code that iterates one takes the order as an argument, constrained
    by \<open>iterates\<close>. A \<open>BTreeMap\<close> or \<open>BTreeSet\<close> is a list sorted by its key.
\<close>

subsection \<open>Fact collections\<close>

named_theorems res_simps \<open>rewriting of results and their sequencing\<close>
named_theorems word_facts \<open>readings of checked and saturating arithmetic on naturals\<close>
named_theorems bt_simps \<open>rewriting of the sorted containers\<close>

subsection \<open>Machine integers\<close>

type_synonym u8 = "8 word"
type_synonym u32 = "32 word"
type_synonym u64 = "64 word"
type_synonym bytes = "u8 list"

subsection \<open>Errors and results\<close>

text \<open>\<open>FlumeError\<close> of flume-core: one constructor per variant, a boxed or textual cause is a string.\<close>

datatype flume_error =
    SourceError string
  | SinkError string
  | OperatorError string
  | SerializationError string
  | StateError string
  | CheckpointError string
  | ChannelClosed
  | ConfigError string
  | ExecutionError string
  | NetworkError string
  | IoError string

datatype 'a res = Ok 'a | Err flume_error | Panic string

primrec bind_res :: "'a res \<Rightarrow> ('a \<Rightarrow> 'b res) \<Rightarrow> 'b res" where
  "bind_res (Ok x) f = f x"
| "bind_res (Err e) f = Err e"
| "bind_res (Panic p) f = Panic p"

primrec is_ok :: "'a res \<Rightarrow> bool" where
  "is_ok (Ok x) = True"
| "is_ok (Err e) = False"
| "is_ok (Panic p) = False"

lemma is_ok_iff [res_simps]: "is_ok r \<longleftrightarrow> (\<exists>x. r = Ok x)"
  by (cases r) auto

lemma is_ok_unit [res_simps]: "is_ok r \<longleftrightarrow> r = Ok ()" for r :: "unit res"
  by (cases r) auto

lemma bind_res_Ok_iff [res_simps]: "bind_res r f = Ok y \<longleftrightarrow> (\<exists>x. r = Ok x \<and> f x = Ok y)"
  by (cases r) auto

lemma bind_res_assoc: "bind_res (bind_res r f) g = bind_res r (\<lambda>x. bind_res (f x) g)"
  by (cases r) auto

lemma bind_res_Ok_right [simp]: "bind_res r Ok = r"
  by (cases r) auto

subsection \<open>Checked and saturating arithmetic\<close>

definition checked_add :: "u64 \<Rightarrow> u64 \<Rightarrow> u64 res" where
  "checked_add a b =
     (if unat a + unat b < 2 ^ 64 then Ok (a + b) else Panic ''attempt to add with overflow'')"

definition checked_sub :: "u64 \<Rightarrow> u64 \<Rightarrow> u64 res" where
  "checked_sub a b = (if b \<le> a then Ok (a - b) else Panic ''attempt to subtract with overflow'')"

definition checked_mul :: "u64 \<Rightarrow> u64 \<Rightarrow> u64 res" where
  "checked_mul a b =
     (if unat a * unat b < 2 ^ 64 then Ok (a * b) else Panic ''attempt to multiply with overflow'')"

definition checked_div :: "u64 \<Rightarrow> u64 \<Rightarrow> u64 res" where
  "checked_div a b = (if b = 0 then Panic ''attempt to divide by zero'' else Ok (a div b))"

definition saturating_add :: "u64 \<Rightarrow> u64 \<Rightarrow> u64" where
  "saturating_add a b = (if unat a + unat b < 2 ^ 64 then a + b else - 1)"

definition saturating_sub :: "u64 \<Rightarrow> u64 \<Rightarrow> u64" where
  "saturating_sub a b = (if b \<le> a then a - b else 0)"

lemma unat_max_u64 [word_facts]: "unat (- 1 :: u64) = 2 ^ 64 - 1"
  by (simp add: unsigned_minus_1_eq_mask mask_eq_exp_minus_1)

lemma unat_lt_u64 [word_facts]: "unat (a :: u64) < 2 ^ 64"
  using unsigned_less [of a] by simp

lemma unat_add_no_overflow [word_facts]:
  "unat a + unat b < 2 ^ 64 \<Longrightarrow> unat (a + b) = unat a + unat b" for a b :: u64
  by (simp add: unat_word_ariths)

lemma checked_add_Ok [word_facts]:
  "checked_add a b = Ok c \<longleftrightarrow> unat a + unat b < 2 ^ 64 \<and> c = a + b"
  by (auto simp: checked_add_def)

lemma checked_sub_Ok [word_facts]: "checked_sub a b = Ok c \<longleftrightarrow> b \<le> a \<and> c = a - b"
  by (auto simp: checked_sub_def)

lemma checked_mul_Ok [word_facts]:
  "checked_mul a b = Ok c \<longleftrightarrow> unat a * unat b < 2 ^ 64 \<and> c = a * b"
  by (auto simp: checked_mul_def)

lemma checked_div_Ok [word_facts]: "checked_div a b = Ok c \<longleftrightarrow> b \<noteq> 0 \<and> c = a div b"
  by (auto simp: checked_div_def)

lemma unat_saturating_add [word_facts]:
  "unat (saturating_add a b) = min (unat a + unat b) (2 ^ 64 - 1)"
proof (cases "unat a + unat b < 2 ^ 64")
  case True
  then show ?thesis by (simp add: saturating_add_def unat_add_no_overflow)
next
  case False
  then show ?thesis by (simp add: saturating_add_def unat_max_u64)
qed

lemma unat_saturating_sub [word_facts]: "unat (saturating_sub a b) = unat a - unat b"
  by (auto simp: saturating_sub_def unat_sub word_le_nat_alt)

lemma unat_u64_mult_div [word_facts]: "unat (a div b * b) = unat a div unat b * unat b" for a b :: u64
proof -
  have "unat a div unat b * unat b \<le> unat a" by simp
  also have "\<dots> < 2 ^ 64" by (rule unat_lt_u64)
  finally have le: "unat a div unat b * unat b < 2 ^ 64" .
  have "unat (a div b * b) = unat (a div b) * unat b mod 2 ^ 64"
    by (simp add: unat_word_ariths)
  also have "unat (a div b) = unat a div unat b" by (rule unat_div)
  finally show ?thesis using le by simp
qed

lemma checked_div_mul: "b \<noteq> 0 \<Longrightarrow> checked_mul (a div b) b = Ok (a div b * b)"
proof -
  have "unat a div unat b * unat b \<le> unat a" by simp
  also have "\<dots> < 2 ^ 64" by (rule unat_lt_u64)
  finally show ?thesis by (simp add: checked_mul_def unat_div)
qed

lemma unat_of_nat_u64 [word_facts]: "n < 2 ^ 64 \<Longrightarrow> unat (word_of_nat n :: u64) = n"
  by (simp add: unat_of_nat)

text \<open>\<open>to_le_bytes\<close> and \<open>from_le_bytes\<close> of a \<open>u64\<close>.\<close>

definition u64_to_le_bytes :: "u64 \<Rightarrow> bytes" where
  "u64_to_le_bytes x = map (\<lambda>i. ucast (drop_bit (8 * i) x)) [0..<8]"

definition u64_from_le_bytes :: "bytes \<Rightarrow> u64" where
  "u64_from_le_bytes bs = horner_sum ucast (2 ^ 8) bs"

lemma length_u64_to_le_bytes [simp]: "length (u64_to_le_bytes x) = 8"
  by (simp add: u64_to_le_bytes_def)

lemma bit_u64_to_le_bytes:
  "n < 64 \<Longrightarrow> bit (u64_to_le_bytes x ! (n div 8)) (n mod 8) = bit x n"
proof -
  assume "n < 64"
  then have "n div 8 < 8" by (simp add: less_mult_imp_div_less)
  moreover have "8 * (n div 8) + n mod 8 = n" by simp
  ultimately show ?thesis
    by (simp add: u64_to_le_bytes_def bit_ucast_iff bit_drop_bit_eq del: upt_Suc upt_rec_numeral)
qed

lemma u64_to_le_bytes_inject [simp]: "u64_to_le_bytes x = u64_to_le_bytes y \<longleftrightarrow> x = y"
proof
  assume eq: "u64_to_le_bytes x = u64_to_le_bytes y"
  show "x = y"
  proof (rule bit_word_eqI)
    fix n assume "n < LENGTH(64)"
    then show "bit x n \<longleftrightarrow> bit y n" using bit_u64_to_le_bytes [of n x] bit_u64_to_le_bytes [of n y] eq by simp
  qed
qed simp

subsection \<open>Hash maps\<close>

text \<open>
  \<open>ks\<close> is an order in which iterating the hash map \<open>m\<close> may visit its keys: every key once.
\<close>

definition iterates :: "('k \<rightharpoonup> 'v) \<Rightarrow> 'k list \<Rightarrow> bool" where
  "iterates m ks \<longleftrightarrow> distinct ks \<and> set ks = dom m"

lemma iterates_empty [simp]: "iterates Map.empty ks \<longleftrightarrow> ks = []"
  by (auto simp: iterates_def)

lemma iterates_lookup: "iterates m ks \<Longrightarrow> k \<in> set ks \<Longrightarrow> \<exists>v. m k = Some v"
  by (auto simp: iterates_def)

lemma iterates_length: "iterates m ks \<Longrightarrow> length ks = card (dom m)"
  by (metis iterates_def distinct_card)

lemma ex_iterates: "finite (dom m) \<Longrightarrow> \<exists>ks. iterates m ks"
  using finite_distinct_list [of "dom m"] by (auto simp: iterates_def)

text \<open>\<open>m.entry(k).or_insert_with(d)\<close> followed by an update of the entry in place.\<close>

definition entry_update :: "('k \<rightharpoonup> 'v) \<Rightarrow> 'k \<Rightarrow> 'v \<Rightarrow> ('v \<Rightarrow> 'v) \<Rightarrow> ('k \<rightharpoonup> 'v)" where
  "entry_update m k d f = m(k \<mapsto> f (case m k of None \<Rightarrow> d | Some v \<Rightarrow> v))"

lemma dom_entry_update [simp]: "dom (entry_update m k d f) = insert k (dom m)"
  by (simp add: entry_update_def)

lemma entry_update_other [simp]: "k' \<noteq> k \<Longrightarrow> entry_update m k d f k' = m k'"
  by (simp add: entry_update_def)

lemma entry_update_same [simp]:
  "entry_update m k d f k = Some (f (case m k of None \<Rightarrow> d | Some v \<Rightarrow> v))"
  by (simp add: entry_update_def)

subsection \<open>Ordered containers\<close>

text \<open>
  A \<open>BTreeMap\<close> is the list of its entries in increasing key order. \<open>bt_entry m k d f\<close> is
  \<open>m.entry(k).or_insert(d)\<close> with an in-place update, \<open>bt_range\<close> the entries of
  \<open>m.range(lo..=hi)\<close>; \<open>BTreeMap::range\<close> panics when the bounds are in the wrong order.
\<close>

fun bt_entry :: "('k::linorder \<times> 'v) list \<Rightarrow> 'k \<Rightarrow> 'v \<Rightarrow> ('v \<Rightarrow> 'v) \<Rightarrow> ('k \<times> 'v) list" where
  "bt_entry [] k d f = [(k, f d)]"
| "bt_entry ((k', v) # m) k d f =
     (if k < k' then (k, f d) # (k', v) # m
      else if k = k' then (k', f v) # m
      else (k', v) # bt_entry m k d f)"

definition bt_range :: "('k::linorder \<times> 'v) list \<Rightarrow> 'k \<Rightarrow> 'k \<Rightarrow> ('k \<times> 'v) list res" where
  "bt_range m lo hi =
     (if hi < lo then Panic ''range start is greater than range end in BTreeMap''
      else Ok (filter (\<lambda>(k, v). lo \<le> k \<and> k \<le> hi) m))"

definition bt_range_below :: "('k::linorder \<times> 'v) list \<Rightarrow> 'k \<Rightarrow> ('k \<times> 'v) list" where
  "bt_range_below m hi = filter (\<lambda>(k, v). k < hi) m"

definition bt_remove :: "('k::linorder \<times> 'v) list \<Rightarrow> 'k \<Rightarrow> ('k \<times> 'v) list" where
  "bt_remove m k = filter (\<lambda>(k', v). k' \<noteq> k) m"

definition bt_sorted :: "('k::linorder \<times> 'v) list \<Rightarrow> bool" where
  "bt_sorted m \<longleftrightarrow> sorted_wrt (<) (map fst m)"

lemma bt_sorted_Nil [simp]: "bt_sorted []"
  by (simp add: bt_sorted_def)

lemma set_fst_bt_entry [bt_simps]: "fst ` set (bt_entry m k d f) = insert k (fst ` set m)"
  by (induction m k d f rule: bt_entry.induct) auto

lemma bt_sorted_entry [intro]: "bt_sorted m \<Longrightarrow> bt_sorted (bt_entry m k d f)"
proof (induction m k d f rule: bt_entry.induct)
  case (2 k' v m k d f)
  have "\<forall>x\<in>fst ` set (bt_entry m k d f). k' < x" if "k' < k"
    using that 2(2) unfolding set_fst_bt_entry by (auto simp: bt_sorted_def)
  with 2 show ?case by (auto simp: bt_sorted_def)
qed (simp add: bt_sorted_def)

lemma bt_sorted_filter [intro]: "bt_sorted m \<Longrightarrow> bt_sorted (filter P m)"
  by (induction m) (auto simp: bt_sorted_def)

lemma map_of_bt_entry [bt_simps]:
  "bt_sorted m \<Longrightarrow>
   map_of (bt_entry m k d f) = (map_of m)(k \<mapsto> f (case map_of m k of None \<Rightarrow> d | Some v \<Rightarrow> v))"
proof (induction m k d f rule: bt_entry.induct)
  case (2 k' v m k d f)
  have "map_of m k = None" if "k < k'"
    using that 2(2) by (force simp: bt_sorted_def map_of_eq_None_iff)
  with 2 show ?case by (auto simp: bt_sorted_def fun_eq_iff)
qed auto

lemma bt_sorted_distinct: "bt_sorted m \<Longrightarrow> distinct (map fst m)"
  by (simp add: bt_sorted_def strict_sorted_iff)

lemma map_of_filter_fst [bt_simps]:
  "map_of (filter (\<lambda>(k, v). P k) m) k = (if P k then map_of m k else None)"
  by (induction m) auto

text \<open>A \<open>BTreeSet\<close> is a strictly increasing list.\<close>

fun bts_insert :: "'a::linorder \<Rightarrow> 'a list \<Rightarrow> 'a list" where
  "bts_insert x [] = [x]"
| "bts_insert x (y # ys) =
     (if x < y then x # y # ys else if x = y then y # ys else y # bts_insert x ys)"

definition bts_remove :: "'a::linorder \<Rightarrow> 'a list \<Rightarrow> 'a list" where
  "bts_remove x ys = filter (\<lambda>y. y \<noteq> x) ys"

text \<open>\<open>split_off(p)\<close> keeps the elements below \<open>p\<close> and returns those from \<open>p\<close> on.\<close>

definition bts_split_off :: "'a::linorder \<Rightarrow> 'a list \<Rightarrow> 'a list \<times> 'a list" where
  "bts_split_off p ys = (filter (\<lambda>y. y < p) ys, filter (\<lambda>y. p \<le> y) ys)"

abbreviation bts_sorted :: "'a::linorder list \<Rightarrow> bool" where
  "bts_sorted \<equiv> sorted_wrt (<)"

lemma set_bts_insert [bt_simps]: "set (bts_insert x ys) = insert x (set ys)"
  by (induction ys) auto

lemma bts_sorted_insert [intro]: "bts_sorted ys \<Longrightarrow> bts_sorted (bts_insert x ys)"
  by (induction ys) (auto simp: set_bts_insert)

lemma set_bts_remove [bt_simps]: "set (bts_remove x ys) = set ys - {x}"
  by (auto simp: bts_remove_def)

lemma bts_sorted_remove [intro]: "bts_sorted ys \<Longrightarrow> bts_sorted (bts_remove x ys)"
  by (simp add: bts_remove_def sorted_wrt_filter)

lemma bts_remove_id: "x \<notin> set ys \<Longrightarrow> bts_remove x ys = ys"
  by (induction ys) (auto simp: bts_remove_def)

subsection \<open>Lists\<close>

lemma sum_list_map_update:
  "i < length xs \<Longrightarrow> sum_list (map f (xs[i := y])) + f (xs ! i) = sum_list (map f xs) + f y" for f :: "'b \<Rightarrow> nat"
  by (induction xs arbitrary: i) (auto split: nat.split simp: add.commute add.left_commute)

lemma filter_partition_append:
  "sorted_wrt (<) xs \<Longrightarrow> filter (\<lambda>y. y < p) xs @ filter (\<lambda>y. p \<le> y) xs = xs"
  for xs :: "'a::linorder list"
proof (induction xs)
  case (Cons x xs)
  show ?case
  proof (cases "x < p")
    case True
    with Cons show ?thesis by auto
  next
    case False
    with Cons.prems have "\<forall>y\<in>set xs. \<not> y < p" by auto
    then have "filter (\<lambda>y. y < p) xs = []" and "filter (\<lambda>y. p \<le> y) xs = xs"
      by (auto simp: filter_empty_conv intro!: filter_True)
    with False show ?thesis by simp
  qed
qed simp

end
