(* ===== verification/Stream_Types.thy ===== *)
theory Stream_Types
  imports Flume_Prelude
begin

text \<open>
  The data that flows through a pipeline: \<open>flume-core/src/time.rs\<close>, \<open>record.rs\<close>, \<open>either.rs\<close>
  and the configuration record of \<open>config.rs\<close>. A timestamp is a newtype around a \<open>u64\<close> of
  milliseconds, ordered as its content; adding and subtracting a duration saturates.
\<close>

subsection \<open>Event time\<close>

datatype event_timestamp = EventTimestamp (as_millis: u64)

instantiation event_timestamp :: linorder
begin

definition less_eq_event_timestamp :: "event_timestamp \<Rightarrow> event_timestamp \<Rightarrow> bool" where
  "less_eq_event_timestamp s t \<longleftrightarrow> as_millis s \<le> as_millis t"

definition less_event_timestamp :: "event_timestamp \<Rightarrow> event_timestamp \<Rightarrow> bool" where
  "less_event_timestamp s t \<longleftrightarrow> as_millis s < as_millis t"

instance
proof
  fix s t u :: event_timestamp
  show "s < t \<longleftrightarrow> s \<le> t \<and> \<not> t \<le> s"
    by (auto simp: less_eq_event_timestamp_def less_event_timestamp_def)
  show "s \<le> s" by (simp add: less_eq_event_timestamp_def)
  show "s \<le> t \<Longrightarrow> t \<le> u \<Longrightarrow> s \<le> u" by (simp add: less_eq_event_timestamp_def)
  show "s \<le> t \<Longrightarrow> t \<le> s \<Longrightarrow> s = t"
    by (simp add: less_eq_event_timestamp_def event_timestamp.expand)
  show "s \<le> t \<or> t \<le> s" by (auto simp: less_eq_event_timestamp_def)
qed

end

named_theorems ts_simps \<open>timestamps read as naturals\<close>

definition ts_MIN :: event_timestamp where "ts_MIN = EventTimestamp 0"

definition ts_MAX :: event_timestamp where "ts_MAX = EventTimestamp (- 1)"

text \<open>The milliseconds of a timestamp as a natural number; the order of timestamps is theirs.\<close>

definition millis :: "event_timestamp \<Rightarrow> nat" where "millis t = unat (as_millis t)"

lemma ts_le_iff [ts_simps]: "s \<le> t \<longleftrightarrow> millis s \<le> millis t"
  by (simp add: less_eq_event_timestamp_def millis_def word_le_nat_alt)

lemma ts_less_iff [ts_simps]: "s < t \<longleftrightarrow> millis s < millis t"
  by (simp add: less_event_timestamp_def millis_def word_less_nat_alt)

lemma ts_eq_iff: "s = t \<longleftrightarrow> millis s = millis t"
  by (metis ts_le_iff order_antisym order_refl)

lemma millis_bound: "millis t < 2 ^ 64"
  unfolding millis_def by (rule unat_lt_u64)

lemma millis_MIN [ts_simps]: "millis ts_MIN = 0"
  by (simp add: ts_MIN_def millis_def)

lemma millis_MAX [ts_simps]: "millis ts_MAX = 2 ^ 64 - 1"
  by (simp add: ts_MAX_def millis_def unat_max_u64)

lemma millis_EventTimestamp [ts_simps]: "millis (EventTimestamp n) = unat n"
  by (simp add: millis_def)

lemma ts_MIN_le [simp]: "ts_MIN \<le> t"
  by (simp add: ts_simps)

lemma ts_le_MAX [simp]: "t \<le> ts_MAX"
  using millis_bound [of t] by (simp add: ts_simps)

text \<open>
  A \<open>Duration\<close> enters the code only through \<open>as_millis() as u64\<close>: the model keeps its \<open>u128\<close>
  number of milliseconds, and the cast truncates.
\<close>

type_synonym duration = nat

definition duration_ms :: "duration \<Rightarrow> u64" where "duration_ms d = word_of_nat d"

definition ts_add :: "event_timestamp \<Rightarrow> duration \<Rightarrow> event_timestamp" where
  "ts_add t d = EventTimestamp (saturating_add (as_millis t) (duration_ms d))"

definition ts_sub :: "event_timestamp \<Rightarrow> duration \<Rightarrow> event_timestamp" where
  "ts_sub t d = EventTimestamp (saturating_sub (as_millis t) (duration_ms d))"

lemma unat_duration_ms [ts_simps]: "unat (duration_ms d) = d mod 2 ^ 64"
  by (simp add: duration_ms_def unat_of_nat)

lemma millis_ts_add [ts_simps]: "millis (ts_add t d) = min (millis t + d mod 2 ^ 64) (2 ^ 64 - 1)"
  by (simp add: ts_add_def millis_def unat_saturating_add unat_duration_ms)

lemma millis_ts_sub [ts_simps]: "millis (ts_sub t d) = millis t - d mod 2 ^ 64"
  by (simp add: ts_sub_def millis_def unat_saturating_sub unat_duration_ms)

subsection \<open>Records and control messages\<close>

record 'a flume_record =
  rec_value :: 'a
  rec_timestamp :: event_timestamp
  rec_key :: "bytes option"

definition record_new :: "'a \<Rightarrow> event_timestamp \<Rightarrow> 'a flume_record" where
  "record_new v t = \<lparr>rec_value = v, rec_timestamp = t, rec_key = None\<rparr>"

definition with_key :: "'a flume_record \<Rightarrow> bytes \<Rightarrow> 'a flume_record" where
  "with_key r k = r\<lparr>rec_key := Some k\<rparr>"

definition record_map :: "('a \<Rightarrow> 'b) \<Rightarrow> 'a flume_record \<Rightarrow> 'b flume_record" where
  "record_map f r =
     \<lparr>rec_value = f (rec_value r), rec_timestamp = rec_timestamp r, rec_key = rec_key r\<rparr>"

lemma record_new_sel [simp]:
  "rec_value (record_new v t) = v" "rec_timestamp (record_new v t) = t"
  "rec_key (record_new v t) = None"
  by (simp_all add: record_new_def)

lemma with_key_sel [simp]:
  "rec_value (with_key r k) = rec_value r" "rec_timestamp (with_key r k) = rec_timestamp r"
  "rec_key (with_key r k) = Some k"
  by (simp_all add: with_key_def)

lemma record_map_sel [simp]:
  "rec_value (record_map f r) = f (rec_value r)" "rec_timestamp (record_map f r) = rec_timestamp r"
  "rec_key (record_map f r) = rec_key r"
  by (simp_all add: record_map_def)

datatype watermark = Watermark (wm_timestamp: event_timestamp)

record checkpoint_barrier =
  checkpoint_id :: nat
  barrier_timestamp :: event_timestamp

definition barrier_new :: "nat \<Rightarrow> event_timestamp \<Rightarrow> checkpoint_barrier" where
  "barrier_new i t = \<lparr>checkpoint_id = i, barrier_timestamp = t\<rparr>"

record checkpoint_ack =
  ack_checkpoint_id :: nat
  ack_operator_name :: string
  ack_state_bytes :: bytes

datatype 'a stream_element =
    ElemRecord "'a flume_record"
  | ElemWatermark watermark
  | ElemBarrier checkpoint_barrier

datatype ('l, 'r) either = Left 'l | Right 'r

text \<open>The data records of a list of stream elements, in order.\<close>

fun records_of :: "'a stream_element list \<Rightarrow> 'a flume_record list" where
  "records_of [] = []"
| "records_of (ElemRecord r # es) = r # records_of es"
| "records_of (e # es) = records_of es"

lemma records_of_append [simp]: "records_of (xs @ ys) = records_of xs @ records_of ys"
  by (induction xs rule: records_of.induct) auto

lemma records_of_map_ElemRecord [simp]: "records_of (map ElemRecord rs) = rs"
  by (induction rs) auto

subsection \<open>What a stream carries\<close>

text \<open>\<open>epoch i es\<close> is the list of the records of \<open>es\<close> after its \<open>i\<close>-th barrier and before the next one.\<close>

fun epoch :: "nat \<Rightarrow> 'a stream_element list \<Rightarrow> 'a flume_record list" where
  "epoch i [] = []"
| "epoch i (ElemWatermark w # es) = epoch i es"
| "epoch 0 (ElemRecord r # es) = r # epoch 0 es"
| "epoch (Suc i) (ElemRecord r # es) = epoch (Suc i) es"
| "epoch 0 (ElemBarrier b # es) = []"
| "epoch (Suc i) (ElemBarrier b # es) = epoch i es"

fun barriers_of :: "'a stream_element list \<Rightarrow> checkpoint_barrier list" where
  "barriers_of [] = []"
| "barriers_of (ElemBarrier b # es) = b # barriers_of es"
| "barriers_of (e # es) = barriers_of es"

fun watermarks_of :: "'a stream_element list \<Rightarrow> event_timestamp list" where
  "watermarks_of [] = []"
| "watermarks_of (ElemWatermark w # es) = wm_timestamp w # watermarks_of es"
| "watermarks_of (e # es) = watermarks_of es"

text \<open>A stream keeps the promise of its watermarks when every record after one is later than it.\<close>

fun promise_kept :: "'a stream_element list \<Rightarrow> bool" where
  "promise_kept [] = True"
| "promise_kept (ElemWatermark w # es) \<longleftrightarrow>
     list_all (\<lambda>r. wm_timestamp w < rec_timestamp r) (records_of es) \<and> promise_kept es"
| "promise_kept (e # es) = promise_kept es"

lemma epoch_record: "epoch i (ElemRecord r # es) = (if i = 0 then r # epoch i es else epoch i es)"
  by (cases i) auto

lemma epoch_barrier: "epoch i (ElemBarrier b # es) = (case i of 0 \<Rightarrow> [] | Suc j \<Rightarrow> epoch j es)"
  by (cases i) auto

subsection \<open>Pipeline configuration\<close>

datatype channel_kind = Mpsc | RingBuffer

record pipeline_config =
  job_name :: string
  parallelism :: nat
  channel_buffer_size :: nat
  checkpoint_interval :: "duration option"
  allowed_lateness :: duration
  checkpoint_timeout :: duration
  max_retained_checkpoints :: nat
  cfg_channel_kind :: channel_kind

definition default_config :: pipeline_config where
  "default_config = \<lparr>job_name = ''flume-job'', parallelism = 1, channel_buffer_size = 1024,
     checkpoint_interval = None, allowed_lateness = 0, checkpoint_timeout = 60000,
     max_retained_checkpoints = 3, cfg_channel_kind = Mpsc\<rparr>"

end
