(* ===== verification/Aligner.thy ===== *)
theory Aligner
  imports Stream_Types
begin

text \<open>
  \<open>flume-runtime/src/checkpoint/aligner.rs\<close>: the barrier aligner of an operator with several inputs.
  An input is the list of the elements still to be received; after the last one the channel is
  disconnected. What \<open>try_recv\<close> reports depends on how far the senders are, so every pass over the
  inputs takes from the poll schedule a predicate that says which inputs are ready: an input that is
  not ready is \<open>Empty\<close>. A schedule that runs out stands for an aligner that is still waiting.
\<close>

subsection \<open>State\<close>

datatype 'a aligner_output = Element "'a stream_element" | BarrierAligned checkpoint_barrier

record 'a aligner =
  al_inputs :: "'a stream_element list list"
  barrier_received :: "bool list"
  blocked_buffers :: "'a stream_element list list"
  pending_barrier :: "checkpoint_barrier option"
  drain_index :: nat

type_synonym polls = "((nat \<Rightarrow> bool) \<times> (nat \<Rightarrow> bool) \<times> (nat \<Rightarrow> bool)) list"

definition aligner_new :: "'a stream_element list list \<Rightarrow> 'a aligner" where
  "aligner_new inputs =
     \<lparr>al_inputs = inputs, barrier_received = replicate (length inputs) False,
      blocked_buffers = replicate (length inputs) [], pending_barrier = None, drain_index = 0\<rparr>"

subsection \<open>Receiving\<close>

datatype 'e try_result = Received 'e | Empty | Disconnected

definition try_recv_from :: "(nat \<Rightarrow> bool) \<Rightarrow> 'e list list \<Rightarrow> nat \<Rightarrow> 'e try_result" where
  "try_recv_from ready inputs i =
     (if ready i then (case inputs ! i of e # _ \<Rightarrow> Received e | [] \<Rightarrow> Disconnected) else Empty)"

text \<open>One pass of \<open>try_recv\<close> over the given inputs: the first that has an element.\<close>

fun poll_pass :: "(nat \<Rightarrow> bool) \<Rightarrow> 'e list list \<Rightarrow> nat list \<Rightarrow> (nat \<times> 'e) option" where
  "poll_pass ready inputs [] = None"
| "poll_pass ready inputs (i # is) =
     (case try_recv_from ready inputs i of
        Received e \<Rightarrow> Some (i, e)
      | _ \<Rightarrow> poll_pass ready inputs is)"

datatype 'e recv_result = Got nat 'e | AllClosed | StillPolling

definition take_from :: "nat \<Rightarrow> 'a aligner \<Rightarrow> 'a aligner" where
  "take_from i s = s\<lparr>al_inputs := (al_inputs s)[i := drop 1 (al_inputs s ! i)]\<rparr>"

fun recv_any :: "polls \<Rightarrow> 'a aligner \<Rightarrow> 'a stream_element recv_result \<times> polls \<times> 'a aligner" where
  "recv_any [] s = (StillPolling, [], s)"
| "recv_any ((r1, r2, r3) # ps) s =
     (let is = [0..<length (al_inputs s)] in
      case poll_pass r1 (al_inputs s) (filter (\<lambda>i. \<not> barrier_received s ! i) is) of
        Some (i, e) \<Rightarrow> (Got i e, ps, take_from i s)
      | None \<Rightarrow>
          (case poll_pass r2 (al_inputs s) (filter (\<lambda>i. barrier_received s ! i) is) of
             Some (i, e) \<Rightarrow> (Got i e, ps, take_from i s)
           | None \<Rightarrow>
               (case poll_pass r3 (al_inputs s) is of
                  Some (i, e) \<Rightarrow> (Got i e, ps, take_from i s)
                | None \<Rightarrow>
                    if list_ex (\<lambda>i. try_recv_from r3 (al_inputs s) i = Empty) is then recv_any ps s
                    else (AllClosed, ps, s))))"

subsection \<open>The next output\<close>

datatype 'a next_result = Output "'a aligner_output" | Closed | Waiting

definition next_single :: "polls \<Rightarrow> 'a aligner \<Rightarrow> 'a next_result \<times> polls \<times> 'a aligner" where
  "next_single ps s =
     (case al_inputs s ! 0 of
        [] \<Rightarrow> (Closed, ps, s)
      | ElemBarrier b # _ \<Rightarrow> (Output (BarrierAligned b), ps, take_from 0 s)
      | e # _ \<Rightarrow> (Output (Element e), ps, take_from 0 s))"

definition inputs_left :: "'a aligner \<Rightarrow> nat" where
  "inputs_left s = sum_list (map length (al_inputs s))"

text \<open>What a poll returns: the head of an input, for an index in range.\<close>

lemma poll_pass_Some:
  "poll_pass ready inputs is = Some (i, e) \<Longrightarrow> i \<in> set is \<and> (\<exists>es. inputs ! i = e # es)"
  by (induction "is") (auto simp: try_recv_from_def split: try_result.splits if_splits list.splits)

lemma recv_any_Got:
  "recv_any ps s = (Got i e, ps', s') \<Longrightarrow>
     i < length (al_inputs s) \<and> al_inputs s ! i \<noteq> [] \<and> e = hd (al_inputs s ! i) \<and> s' = take_from i s"
  by (induction ps s rule: recv_any.induct)
    (auto simp: Let_def split: option.splits if_splits dest!: poll_pass_Some)

lemma recv_any_frame: "recv_any ps s = (r, ps', s') \<Longrightarrow> (\<forall>i e. r \<noteq> Got i e) \<Longrightarrow> s' = s"
  by (induction ps s rule: recv_any.induct) (auto simp: Let_def split: option.splits if_splits)

lemma recv_any_left: "recv_any ps s = (Got i e, ps', s') \<Longrightarrow> inputs_left s' < inputs_left s"
  using sum_list_map_update [of i "al_inputs s" length "drop 1 (al_inputs s ! i)"]
  by (cases "al_inputs s ! i") (auto simp: inputs_left_def take_from_def dest!: recv_any_Got)

lemma inputs_left_updates [simp]:
  "inputs_left (s\<lparr>blocked_buffers := b\<rparr>) = inputs_left s"
  "inputs_left (s\<lparr>barrier_received := r\<rparr>) = inputs_left s"
  "inputs_left (s\<lparr>pending_barrier := p\<rparr>) = inputs_left s"
  by (simp_all add: inputs_left_def)

function next_multi :: "polls \<Rightarrow> 'a aligner \<Rightarrow> 'a next_result \<times> polls \<times> 'a aligner" where
  "next_multi ps s =
     (case recv_any ps s of
        (AllClosed, ps', s') \<Rightarrow> (Closed, ps', s')
      | (StillPolling, ps', s') \<Rightarrow> (Waiting, ps', s')
      | (Got idx elem, ps', s') \<Rightarrow>
          (case elem of
             ElemBarrier barrier \<Rightarrow>
               (let s1 = s'\<lparr>barrier_received := (barrier_received s')[idx := True],
                           pending_barrier := (case pending_barrier s' of None \<Rightarrow> Some barrier | Some b \<Rightarrow> Some b)\<rparr>
                in if list_all (\<lambda>b. b) (barrier_received s1)
                   then (Output (BarrierAligned (the (pending_barrier s1))), ps',
                         s1\<lparr>pending_barrier := None,
                            barrier_received := replicate (length (barrier_received s1)) False,
                            drain_index := 0\<rparr>)
                   else next_multi ps' s1)
           | other \<Rightarrow>
               if barrier_received s' ! idx
               then next_multi ps' (s'\<lparr>blocked_buffers := (blocked_buffers s')[idx := blocked_buffers s' ! idx @ [other]]\<rparr>)
               else (Output (Element other), ps', s')))"
  by pat_completeness auto
termination
  by (relation "measure (\<lambda>(ps, s). inputs_left s)")
    (auto dest!: recv_any_left [OF sym])

declare next_multi.simps [simp del]

text \<open>Phase 1 of \<open>next\<close>: pop the first buffered element from \<open>drain_index\<close> on.\<close>

function drain :: "'a aligner \<Rightarrow> 'a stream_element option \<times> 'a aligner" where
  "drain s =
     (if drain_index s < length (blocked_buffers s) then
        (case blocked_buffers s ! drain_index s of
           e # es \<Rightarrow> (Some e, s\<lparr>blocked_buffers := (blocked_buffers s)[drain_index s := es]\<rparr>)
         | [] \<Rightarrow> drain (s\<lparr>drain_index := drain_index s + 1\<rparr>))
      else (None, s))"
  by pat_completeness auto
termination
  by (relation "measure (\<lambda>s. length (blocked_buffers s) - drain_index s)") auto

declare drain.simps [simp del]

definition aligner_next :: "polls \<Rightarrow> 'a aligner \<Rightarrow> 'a next_result \<times> polls \<times> 'a aligner" where
  "aligner_next ps s =
     (case drain s of
        (Some e, s') \<Rightarrow> (Output (Element e), ps, s')
      | (None, s') \<Rightarrow> if length (al_inputs s') = 1 then next_single ps s' else next_multi ps s')"

text \<open>Up to \<open>n\<close> calls of \<open>next\<close>: the outputs, and whether the last call reported the end.\<close>

fun aligner_run :: "nat \<Rightarrow> polls \<Rightarrow> 'a aligner \<Rightarrow> 'a aligner_output list \<times> bool" where
  "aligner_run 0 ps s = ([], False)"
| "aligner_run (Suc n) ps s =
     (case aligner_next ps s of
        (Output out, ps', s') \<Rightarrow> (let (outs, closed) = aligner_run n ps' s' in (out # outs, closed))
      | (Closed, ps', s') \<Rightarrow> ([], True)
      | (Waiting, ps', s') \<Rightarrow> ([], False))"

subsection \<open>One alignment\<close>

text \<open>
  The inputs of one checkpoint: input \<open>i\<close> carries \<open>pre i\<close>, the barrier, then \<open>post i\<close>. \<open>origin\<close> tells
  which input an element came from, so that \<open>from_input origin i\<close> reads one input off the merged output.
\<close>

definition from_input :: "('e \<Rightarrow> nat) \<Rightarrow> nat \<Rightarrow> 'e list \<Rightarrow> 'e list" where
  "from_input origin i es = filter (\<lambda>e. origin e = i) es"

definition is_barrier :: "'a stream_element \<Rightarrow> bool" where
  "is_barrier e = (case e of ElemBarrier _ \<Rightarrow> True | _ \<Rightarrow> False)"

definition marked :: "('a stream_element \<Rightarrow> nat) \<Rightarrow> nat \<Rightarrow> (nat \<Rightarrow> 'a stream_element list) \<Rightarrow> bool" where
  "marked origin n f \<longleftrightarrow> (\<forall>i<n. list_all (\<lambda>e. origin e = i \<and> \<not> is_barrier e) (f i))"

definition one_barrier :: "nat \<Rightarrow> (nat \<Rightarrow> 'a stream_element list) \<Rightarrow> checkpoint_barrier \<Rightarrow>
    (nat \<Rightarrow> 'a stream_element list) \<Rightarrow> 'a stream_element list list" where
  "one_barrier n pre b post = map (\<lambda>i. pre i @ ElemBarrier b # post i) [0..<n]"

lemma from_input_simps [simp]:
  "from_input origin i [] = []" "from_input origin i (xs @ ys) = from_input origin i xs @ from_input origin i ys"
  "from_input origin i (x # xs) = (if origin x = i then x # from_input origin i xs else from_input origin i xs)"
  by (simp_all add: from_input_def)

text \<open>The state of input \<open>i\<close> before and after the alignment.\<close>

definition waiting_input :: "('a stream_element \<Rightarrow> nat) \<Rightarrow> (nat \<Rightarrow> 'a stream_element list) \<Rightarrow> checkpoint_barrier \<Rightarrow>
    (nat \<Rightarrow> 'a stream_element list) \<Rightarrow> 'a stream_element list \<Rightarrow> 'a aligner \<Rightarrow> nat \<Rightarrow> bool" where
  "waiting_input origin pre b post em s i \<longleftrightarrow>
     (if barrier_received s ! i then from_input origin i em = pre i \<and> blocked_buffers s ! i @ al_inputs s ! i = post i
      else blocked_buffers s ! i = [] \<and>
        (\<exists>rest. from_input origin i em @ rest = pre i \<and> al_inputs s ! i = rest @ ElemBarrier b # post i))"

definition sized :: "nat \<Rightarrow> 'a aligner \<Rightarrow> bool" where
  "sized n s \<longleftrightarrow> length (al_inputs s) = n \<and> length (barrier_received s) = n \<and> length (blocked_buffers s) = n"

definition aligning :: "nat \<Rightarrow> ('a stream_element \<Rightarrow> nat) \<Rightarrow> (nat \<Rightarrow> 'a stream_element list) \<Rightarrow> checkpoint_barrier \<Rightarrow>
    (nat \<Rightarrow> 'a stream_element list) \<Rightarrow> 'a stream_element list \<Rightarrow> 'a aligner \<Rightarrow> bool" where
  "aligning n origin pre b post em s \<longleftrightarrow>
     sized n s \<and> (\<forall>i<n. waiting_input origin pre b post em s i) \<and>
     pending_barrier s = (if list_ex (\<lambda>r. r) (barrier_received s) then Some b else None) \<and>
     \<not> list_all (\<lambda>r. r) (barrier_received s) \<and>
     (drain_index s < n \<longrightarrow> (\<forall>i<n. blocked_buffers s ! i = []))"

definition draining :: "nat \<Rightarrow> ('a stream_element \<Rightarrow> nat) \<Rightarrow> (nat \<Rightarrow> 'a stream_element list) \<Rightarrow>
    'a stream_element list \<Rightarrow> 'a aligner \<Rightarrow> bool" where
  "draining n origin post em s \<longleftrightarrow>
     sized n s \<and> barrier_received s = replicate n False \<and> pending_barrier s = None \<and>
     (\<forall>i<n. from_input origin i em @ blocked_buffers s ! i @ al_inputs s ! i = post i) \<and>
     (\<forall>i<n. i < drain_index s \<longrightarrow> blocked_buffers s ! i = [])"

definition cut_ok :: "nat \<Rightarrow> ('a stream_element \<Rightarrow> nat) \<Rightarrow> (nat \<Rightarrow> 'a stream_element list) \<Rightarrow> checkpoint_barrier \<Rightarrow>
    (nat \<Rightarrow> 'a stream_element list) \<Rightarrow> 'a aligner_output list \<Rightarrow> 'a aligner \<Rightarrow> bool" where
  "cut_ok n origin pre b post outs s \<longleftrightarrow>
     (\<exists>em. outs = map Element em \<and> aligning n origin pre b post em s) \<or>
     (\<exists>front em. outs = map Element front @ BarrierAligned b # map Element em \<and>
        (\<forall>i<n. from_input origin i front = pre i) \<and> draining n origin post em s)"

text \<open>Taking the next element of an input, in each of the situations.\<close>

lemma marked_element:
  assumes "marked origin n f" and "i < n" and "xs @ e # ys = f i"
  shows "origin e = i" and "\<not> is_barrier e"
  using assms by (auto simp: marked_def list_all_iff) (metis in_set_conv_decomp)+

lemma aligning_input:
  "aligning n origin pre b post em s \<Longrightarrow> i < n \<Longrightarrow> waiting_input origin pre b post em s i"
  by (simp add: aligning_def)

lemma aligning_pass:
  assumes "marked origin n pre" and "aligning n origin pre b post em s" and "i < n"
    and "\<not> barrier_received s ! i" and "al_inputs s ! i = e # es" and "\<not> is_barrier e"
  shows "aligning n origin pre b post (em @ [e]) (take_from i s)"
proof -
  from assms obtain rest where rest: "from_input origin i em @ rest = pre i" "e # es = rest @ ElemBarrier b # post i"
    and buf: "blocked_buffers s ! i = []"
    using aligning_input [OF assms(2,3)] by (auto simp: waiting_input_def)
  with assms(6) obtain rest' where r: "rest = e # rest'" by (cases rest) (auto simp: is_barrier_def)
  have "origin e = i" using marked_element [OF assms(1,3)] rest(1) r by blast
  then show ?thesis
    using assms rest r buf
    by (auto simp: aligning_def waiting_input_def take_from_def sized_def nth_list_update)
qed

lemma aligning_block:
  assumes "aligning n origin pre b post em s" and "i < n" and "barrier_received s ! i"
    and "al_inputs s ! i = e # es" and "n \<le> drain_index s"
  shows "aligning n origin pre b post em
    (take_from i s\<lparr>blocked_buffers := (blocked_buffers (take_from i s))[i := blocked_buffers (take_from i s) ! i @ [e]]\<rparr>)"
  using assms by (auto simp: aligning_def waiting_input_def take_from_def sized_def nth_list_update)

lemma aligning_barrier_is:
  assumes "aligning n origin pre b post em s" and "i < n" and "marked origin n pre" and "marked origin n post"
    and "al_inputs s ! i = ElemBarrier b' # es"
  shows "b' = b \<and> \<not> barrier_received s ! i \<and> es = post i \<and> from_input origin i em = pre i \<and> blocked_buffers s ! i = []"
proof (cases "barrier_received s ! i")
  case True
  with aligning_input [OF assms(1,2)] assms(5) have "blocked_buffers s ! i @ ElemBarrier b' # es = post i"
    by (simp add: waiting_input_def)
  from marked_element(2) [OF assms(4,2) this] show ?thesis by (simp add: is_barrier_def)
next
  case False
  with assms obtain rest where r: "from_input origin i em @ rest = pre i" "ElemBarrier b' # es = rest @ ElemBarrier b # post i"
    and buf: "blocked_buffers s ! i = []"
    using aligning_input [OF assms(1,2)] by (auto simp: waiting_input_def)
  show ?thesis
  proof (cases rest)
    case (Cons x xs)
    with r have "from_input origin i em @ ElemBarrier b' # xs = pre i" by auto
    from marked_element(2) [OF assms(3,2) this] show ?thesis by (simp add: is_barrier_def)
  qed (use r buf False in auto)
qed

definition mark_received :: "nat \<Rightarrow> checkpoint_barrier \<Rightarrow> 'a aligner \<Rightarrow> 'a aligner" where
  "mark_received i b s = s\<lparr>barrier_received := (barrier_received s)[i := True],
     pending_barrier := (case pending_barrier s of None \<Rightarrow> Some b | Some b' \<Rightarrow> Some b')\<rparr>"

lemma aligning_mark:
  assumes "aligning n origin pre b post em s" and "i < n" and "marked origin n pre" and "marked origin n post"
    and "al_inputs s ! i = ElemBarrier b' # es"
  defines "s1 \<equiv> mark_received i b' (take_from i s)"
  shows "\<not> list_all (\<lambda>r. r) (barrier_received s1) \<Longrightarrow> aligning n origin pre b post em s1"
    and "list_all (\<lambda>r. r) (barrier_received s1) \<Longrightarrow>
      pending_barrier s1 = Some b \<and> (\<forall>j<n. from_input origin j em = pre j) \<and>
      draining n origin post [] (s1\<lparr>pending_barrier := None,
        barrier_received := replicate (length (barrier_received s1)) False, drain_index := 0\<rparr>)"
proof -
  note head = aligning_barrier_is [OF assms(1-5)]
  have pend: "pending_barrier s1 = Some b"
    using assms(1) head by (auto simp: s1_def mark_received_def take_from_def aligning_def split: option.split)
  have ex: "list_ex (\<lambda>r. r) (barrier_received s1)"
    using assms(1,2) by (auto simp: s1_def mark_received_def take_from_def aligning_def sized_def list_ex_iff set_update_memI)
  have w: "waiting_input origin pre b post em s1 j" if "j < n" for j
    using assms(1,2,5) head that
    by (auto simp: s1_def mark_received_def take_from_def aligning_def waiting_input_def sized_def nth_list_update)
  have sz: "sized n s1" using assms(1) by (simp add: s1_def mark_received_def take_from_def aligning_def sized_def)
  have dr: "drain_index s1 < n \<longrightarrow> (\<forall>j<n. blocked_buffers s1 ! j = [])"
    using assms(1) by (simp add: s1_def mark_received_def take_from_def aligning_def)
  show "aligning n origin pre b post em s1" if "\<not> list_all (\<lambda>r. r) (barrier_received s1)"
    using that pend ex w sz dr by (simp add: aligning_def)
  assume all: "list_all (\<lambda>r. r) (barrier_received s1)"
  then have "\<forall>j<n. barrier_received s1 ! j" using sz by (auto simp: sized_def list_all_length)
  with w have "\<forall>j<n. from_input origin j em = pre j \<and> blocked_buffers s1 ! j @ al_inputs s1 ! j = post j"
    by (auto simp: waiting_input_def)
  with pend sz show "pending_barrier s1 = Some b \<and> (\<forall>j<n. from_input origin j em = pre j) \<and>
      draining n origin post [] (s1\<lparr>pending_barrier := None,
        barrier_received := replicate (length (barrier_received s1)) False, drain_index := 0\<rparr>)"
    by (auto simp: draining_def sized_def)
qed

lemma draining_pass:
  assumes "marked origin n post" and "draining n origin post em s" and "i < n" and "n \<le> drain_index s"
    and "al_inputs s ! i = e # es"
  shows "draining n origin post (em @ [e]) (take_from i s)" and "\<not> is_barrier e"
proof -
  from assms have buf: "blocked_buffers s ! i = []" and p: "from_input origin i em @ e # es = post i"
    by (auto simp: draining_def)
  from marked_element [OF assms(1,3) p] have e: "origin e = i" "\<not> is_barrier e" by auto
  show "\<not> is_barrier e" by (rule e(2))
  show "draining n origin post (em @ [e]) (take_from i s)"
    using assms e p buf by (auto simp: draining_def sized_def take_from_def nth_list_update)
qed

text \<open>The branches of \<open>next_multi\<close> after a reception.\<close>

lemma next_multi_element:
  assumes "recv_any ps s = (Got i e, ps', s')" and "\<not> is_barrier e"
  shows "next_multi ps s =
    (if barrier_received s' ! i
     then next_multi ps' (s'\<lparr>blocked_buffers := (blocked_buffers s')[i := blocked_buffers s' ! i @ [e]]\<rparr>)
     else (Output (Element e), ps', s'))"
  using assms by (cases e) (simp_all add: next_multi.simps [of ps s] is_barrier_def)

lemma next_multi_barrier:
  assumes "recv_any ps s = (Got i (ElemBarrier b), ps', s')"
  shows "next_multi ps s =
    (let s1 = mark_received i b s' in
     if list_all (\<lambda>r. r) (barrier_received s1)
     then (Output (BarrierAligned (the (pending_barrier s1))), ps', s1\<lparr>pending_barrier := None,
       barrier_received := replicate (length (barrier_received s1)) False, drain_index := 0\<rparr>)
     else next_multi ps' s1)"
  using assms by (simp add: next_multi.simps [of ps s] mark_received_def)

lemma recv_any_AllClosed:
  "recv_any ps s = (AllClosed, ps', s') \<Longrightarrow> \<forall>i<length (al_inputs s). al_inputs s ! i = []"
proof (induction ps s rule: recv_any.induct)
  case (2 r1 r2 r3 ps s)
  have none: "poll_pass r inputs is = None \<Longrightarrow> i \<in> set is \<Longrightarrow> try_recv_from r inputs i \<noteq> Empty \<Longrightarrow> inputs ! i = []"
    for r i "is" and inputs :: "'b list list"
    by (induction "is") (auto simp: try_recv_from_def split: try_result.splits if_splits list.splits)
  show ?case
  proof (cases "list_ex (\<lambda>i. try_recv_from r3 (al_inputs s) i = Empty) [0..<length (al_inputs s)]")
    case True
    with 2 show ?thesis by (auto simp: Let_def split: option.splits)
  next
    case False
    with 2(2) have "poll_pass r3 (al_inputs s) [0..<length (al_inputs s)] = None"
      by (auto simp: Let_def split: option.splits)
    with False show ?thesis by (auto simp: list_ex_iff intro: none)
  qed
qed simp

definition finished :: "'a aligner \<Rightarrow> bool" where
  "finished s \<longleftrightarrow> (\<forall>i<length (al_inputs s). al_inputs s ! i = [])"

lemma aligning_not_finished:
  assumes "aligning n origin pre b post em s"
  shows "\<not> finished s"
proof -
  from assms obtain i where i: "i < n" "\<not> barrier_received s ! i"
    by (auto simp: aligning_def sized_def list_all_length)
  with aligning_input [OF assms i(1)] have "al_inputs s ! i \<noteq> []" by (auto simp: waiting_input_def)
  with i assms show ?thesis by (auto simp: finished_def aligning_def sized_def)
qed

text \<open>One call of \<open>next_multi\<close> on a drained state keeps the cut.\<close>

lemma next_multi_draining:
  assumes "marked origin n post" and "draining n origin post em s" and "n \<le> drain_index s"
    and "next_multi ps s = (r, ps', s')"
  shows "(\<exists>e. r = Output (Element e) \<and> draining n origin post (em @ [e]) s') \<or> (r = Closed \<and> s' = s \<and> finished s) \<or> r = Waiting"
proof -
  obtain q ps1 s1 where q: "recv_any ps s = (q, ps1, s1)" by (metis prod_cases3)
  show ?thesis
  proof (cases q)
    case (Got i e)
    from recv_any_Got [OF q [unfolded Got]] assms(2) obtain es where i: "i < n" "al_inputs s ! i = e # es" "s1 = take_from i s"
      by (cases "al_inputs s ! i") (auto simp: draining_def sized_def)
    from draining_pass [OF assms(1,2) i(1) assms(3) i(2)] i(3) have d: "draining n origin post (em @ [e]) s1" "\<not> is_barrier e"
      by auto
    have "\<not> barrier_received s1 ! i" using d(1) i(1) by (simp add: draining_def)
    with assms(4) q Got d show ?thesis by (auto simp: next_multi_element)
  next
    case AllClosed
    with q assms(4) recv_any_AllClosed [OF q [unfolded AllClosed]] recv_any_frame [OF q] show ?thesis
      by (simp add: next_multi.simps [of ps s] finished_def)
  next
    case StillPolling
    with q assms(4) show ?thesis by (simp add: next_multi.simps [of ps s])
  qed
qed

definition aligner_step_ok where
  "aligner_step_ok n origin pre b post em r s' \<longleftrightarrow>
     (\<exists>e. r = Output (Element e) \<and> aligning n origin pre b post (em @ [e]) s') \<or>
     (r = Output (BarrierAligned b) \<and> (\<forall>j<n. from_input origin j em = pre j) \<and> draining n origin post [] s') \<or>
     r = Waiting"

lemma next_multi_aligning:
  assumes "marked origin n pre" and "marked origin n post"
  shows "aligning n origin pre b post em s \<Longrightarrow> n \<le> drain_index s \<Longrightarrow> next_multi ps s = (r, ps', s') \<Longrightarrow>
    aligner_step_ok n origin pre b post em r s'"
proof (induction ps s arbitrary: r ps' s' rule: next_multi.induct)
  case (1 ps s)
  note al = 1(4) and drained = 1(5) and nm = 1(6)
  have size: "length (al_inputs s) = n" using al by (simp add: aligning_def sized_def)
  obtain q ps1 s1 where q: "recv_any ps s = (q, ps1, s1)" by (metis prod_cases3)
  show ?case
  proof (cases q)
    case (Got i e)
    from recv_any_Got [OF q [unfolded Got]] size obtain es where i: "i < n" "al_inputs s ! i = e # es" "s1 = take_from i s"
      by (cases "al_inputs s ! i") auto
    have di: "drain_index s1 = drain_index s" by (simp add: i(3) take_from_def)
    show ?thesis
    proof (cases "is_barrier e")
      case False
      have rec: "barrier_received s1 ! i = barrier_received s ! i" by (simp add: i(3) take_from_def)
      show ?thesis
      proof (cases "barrier_received s ! i")
        case True
        let ?s2 = "s1\<lparr>blocked_buffers := (blocked_buffers s1)[i := blocked_buffers s1 ! i @ [e]]\<rparr>"
        have al2: "aligning n origin pre b post em ?s2"
          using aligning_block [OF al i(1) True i(2) drained] i(3) by simp
        have nm2: "next_multi ps1 ?s2 = (r, ps', s')"
          using nm q Got False True rec by (simp add: next_multi_element)
        have d2: "n \<le> drain_index ?s2" using drained di by simp
        show ?thesis
        proof (cases e)
          case (ElemRecord x)
          with True rec show ?thesis using 1(1) [OF q [symmetric] Got refl ElemRecord] al2 nm2 d2 by simp
        next
          case (ElemWatermark x)
          with True rec show ?thesis using 1(2) [OF q [symmetric] Got refl ElemWatermark] al2 nm2 d2 by simp
        qed (use False in \<open>simp add: is_barrier_def\<close>)
      next
        case nr: False
        with nm q Got False rec have "r = Output (Element e)" "s' = s1" by (simp_all add: next_multi_element)
        with aligning_pass [OF assms(1) al i(1) nr i(2) False] i(3) show ?thesis by (simp add: aligner_step_ok_def)
      qed
    next
      case True
      then obtain b' where e: "e = ElemBarrier b'" by (cases e) (auto simp: is_barrier_def)
      let ?s1 = "mark_received i b' s1"
      note mark = aligning_mark [OF al i(1) assms i(2) [unfolded e], folded i(3)]
      have "b' = b" using aligning_barrier_is [OF al i(1) assms i(2) [unfolded e]] by simp
      show ?thesis
      proof (cases "list_all (\<lambda>r. r) (barrier_received ?s1)")
        case True
        with nm q Got e mark(2) show ?thesis by (auto simp: next_multi_barrier Let_def aligner_step_ok_def)
      next
        case False
        then have "next_multi ps1 ?s1 = (r, ps', s')" using nm q Got e by (simp add: next_multi_barrier Let_def)
        with False mark(1) drained di show ?thesis
          using 1(3) [OF q [symmetric] Got refl e refl, folded mark_received_def] by (simp add: mark_received_def)
      qed
    qed
  next
    case AllClosed
    have "finished s" using recv_any_AllClosed [OF q [unfolded AllClosed]] by (simp add: finished_def)
    with aligning_not_finished [OF al] show ?thesis by simp
  next
    case StillPolling
    with q nm show ?thesis by (simp add: next_multi.simps [of ps s] aligner_step_ok_def)
  qed
qed

text \<open>Draining the buffers: nothing to do before the alignment, one buffered element after it.\<close>

lemma drain_aligning:
  assumes "aligning n origin pre b post em s"
  shows "drain s = (None, if drain_index s < n then s\<lparr>drain_index := n\<rparr> else s)"
  using assms
proof (induction s rule: drain.induct)
  case (1 s)
  show ?case
  proof (cases "drain_index s < n")
    case True
    with 1(2) have len: "drain_index s < length (blocked_buffers s)" and nil: "blocked_buffers s ! drain_index s = []"
      by (auto simp: aligning_def sized_def)
    have "aligning n origin pre b post em (s\<lparr>drain_index := drain_index s + 1\<rparr>)"
      using 1(2) True by (auto simp: aligning_def sized_def waiting_input_def)
    from 1(1) [OF len nil this] len nil True show ?thesis by (auto simp: drain.simps [of s])
  next
    case False
    with 1(2) show ?thesis by (simp add: drain.simps [of s] aligning_def sized_def)
  qed
qed

lemma drain_draining:
  assumes "marked origin n post" and "draining n origin post em s"
  shows "(\<exists>e s'. drain s = (Some e, s') \<and> draining n origin post (em @ [e]) s') \<or>
    (\<exists>s'. drain s = (None, s') \<and> draining n origin post em s' \<and> n \<le> drain_index s')"
  using assms(2)
proof (induction s rule: drain.induct)
  case (1 s)
  have size: "length (blocked_buffers s) = n" using 1(2) by (simp add: draining_def sized_def)
  show ?case
  proof (cases "drain_index s < n")
    case True
    show ?thesis
    proof (cases "blocked_buffers s ! drain_index s")
      case Nil
      have "draining n origin post em (s\<lparr>drain_index := drain_index s + 1\<rparr>)"
        using 1(2) Nil by (auto simp: draining_def sized_def less_Suc_eq)
      from 1(1) [OF _ Nil this] True size Nil show ?thesis by (simp add: drain.simps [of s])
    next
      case (Cons e es)
      from 1(2) True Cons have p: "from_input origin (drain_index s) em @ e # (es @ al_inputs s ! drain_index s) = post (drain_index s)"
        by (auto simp: draining_def)
      have "origin e = drain_index s" by (rule marked_element(1) [OF assms(1) True p])
      with 1(2) True Cons p have "draining n origin post (em @ [e]) (s\<lparr>blocked_buffers := (blocked_buffers s)[drain_index s := es]\<rparr>)"
        by (auto simp: draining_def sized_def nth_list_update)
      with True size Cons show ?thesis by (simp add: drain.simps [of s])
    qed
  next
    case False
    with 1(2) size show ?thesis by (simp add: drain.simps [of s])
  qed
qed

lemma next_single_aligning:
  assumes "marked origin 1 pre" and "aligning 1 origin pre b post em s" and "next_single ps s = (r, ps', s')"
  shows "aligner_step_ok 1 origin pre b post em r s'"
proof -
  have nr: "\<not> barrier_received s ! 0" using assms(2) by (auto simp: aligning_def sized_def list_all_length)
  from aligning_input [OF assms(2), of 0] nr obtain rest where
    rest: "from_input origin 0 em @ rest = pre 0" "al_inputs s ! 0 = rest @ ElemBarrier b # post 0" "blocked_buffers s ! 0 = []"
    by (auto simp: waiting_input_def)
  show ?thesis
  proof (cases rest)
    case Nil
    with rest assms(3) have "r = Output (BarrierAligned b)" "s' = take_from 0 s" by (simp_all add: next_single_def)
    moreover have "barrier_received s = [False]" using assms(2) nr
      by (cases "barrier_received s") (auto simp: aligning_def sized_def)
    ultimately show ?thesis using rest Nil assms(2)
      by (auto simp: aligner_step_ok_def draining_def aligning_def sized_def take_from_def)
  next
    case (Cons e es)
    with rest(1) have nb: "\<not> is_barrier e" by (intro marked_element(2) [OF assms(1), of 0]) auto
    with assms(3) rest(2) Cons have "r = Output (Element e)" "s' = take_from 0 s"
      by (auto simp: next_single_def is_barrier_def split: stream_element.splits)
    with aligning_pass [OF assms(1,2) _ nr rest(2) [unfolded Cons, simplified] nb] show ?thesis
      by (simp add: aligner_step_ok_def)
  qed
qed

lemma next_single_draining:
  assumes "marked origin 1 post" and "draining 1 origin post em s" and "1 \<le> drain_index s"
    and "next_single ps s = (r, ps', s')"
  shows "(\<exists>e. r = Output (Element e) \<and> draining 1 origin post (em @ [e]) s') \<or> (r = Closed \<and> s' = s \<and> finished s)"
proof (cases "al_inputs s ! 0")
  case Nil
  with assms show ?thesis by (auto simp: next_single_def finished_def draining_def sized_def)
next
  case (Cons e es)
  from draining_pass [OF assms(1,2) _ assms(3) Cons] have d: "draining 1 origin post (em @ [e]) (take_from 0 s)" "\<not> is_barrier e"
    by auto
  with assms(4) Cons have "r = Output (Element e)" "s' = take_from 0 s"
    by (auto simp: next_single_def is_barrier_def split: stream_element.splits)
  with d show ?thesis by simp
qed

text \<open>One call of \<open>next\<close>.\<close>

definition cut_done where
  "cut_done n origin pre b post outs \<longleftrightarrow>
     (\<exists>front back. outs = map Element front @ BarrierAligned b # map Element back \<and>
        (\<forall>i<n. from_input origin i front = pre i \<and> from_input origin i back = post i))"

lemma cut_ok_draining:
  assumes "\<forall>i<n. from_input origin i front = pre i" and "draining n origin post em s"
  shows "cut_ok n origin pre b post (map Element front @ BarrierAligned b # map Element em) s"
  using assms unfolding cut_ok_def by blast

lemma cut_ok_drained:
  assumes "\<forall>i<n. from_input origin i front = pre i" and "draining n origin post (em @ [e]) s"
  shows "cut_ok n origin pre b post ((map Element front @ BarrierAligned b # map Element em) @ [Element e]) s"
  using cut_ok_draining [OF assms, of b] by simp

lemma cut_ok_step:
  assumes "aligner_step_ok n origin pre b post em r s"
  shows "(\<exists>out. r = Output out \<and> cut_ok n origin pre b post (map Element em @ [out]) s) \<or> r = Waiting"
  using assms cut_ok_draining [of n origin em pre post "[]" s b] unfolding aligner_step_ok_def
proof (elim disjE exE conjE)
  fix e assume "r = Output (Element e)" "aligning n origin pre b post (em @ [e]) s"
  then show ?thesis unfolding cut_ok_def by (metis list.simps(8,9) map_append)
qed auto

lemma aligner_next_cut:
  assumes pre: "marked origin n pre" and post: "marked origin n post" and "cut_ok n origin pre b post outs s"
    and "aligner_next ps s = (r, ps', s')"
  shows "(\<exists>out. r = Output out \<and> cut_ok n origin pre b post (outs @ [out]) s') \<or>
    (r = Closed \<and> cut_done n origin pre b post outs) \<or> r = Waiting"
proof -
  from assms(3) consider (align) em where "outs = map Element em" "aligning n origin pre b post em s"
    | (drain) front em where "outs = map Element front @ BarrierAligned b # map Element em"
        "\<forall>i<n. from_input origin i front = pre i" "draining n origin post em s"
    by (auto simp: cut_ok_def)
  then show ?thesis
  proof cases
    case align
    let ?s = "if drain_index s < n then s\<lparr>drain_index := n\<rparr> else s"
    have al: "aligning n origin pre b post em ?s" and d: "n \<le> drain_index ?s"
      using align(2) by (auto simp: aligning_def sized_def waiting_input_def)
    have next': "(if n = 1 then next_single ps ?s else next_multi ps ?s) = (r, ps', s')"
      using assms(4) drain_aligning [OF align(2)] al by (simp add: aligner_next_def aligning_def sized_def)
    have "aligner_step_ok n origin pre b post em r s'"
    proof (cases "n = 1")
      case True
      with next' al pre show ?thesis using next_single_aligning [of origin pre b post em ?s ps r ps' s'] by simp
    next
      case False
      with next' show ?thesis using next_multi_aligning [OF pre post al d] by simp
    qed
    with align(1) cut_ok_step show ?thesis by blast
  next
    case drain
    from drain_draining [OF post drain(3)] show ?thesis
    proof (elim disjE exE conjE)
      fix e s1 assume "drain s = (Some e, s1)" and d: "draining n origin post (em @ [e]) s1"
      with assms(4) drain(1) cut_ok_drained [OF drain(2) d, of b] show ?thesis
        by (auto simp: aligner_next_def)
    next
      fix s1 assume s1: "drain s = (None, s1)" "draining n origin post em s1" "n \<le> drain_index s1"
      have next': "(if n = 1 then next_single ps s1 else next_multi ps s1) = (r, ps', s')"
        using assms(4) s1 by (simp add: aligner_next_def draining_def sized_def)
      have "(\<exists>e. r = Output (Element e) \<and> draining n origin post (em @ [e]) s') \<or>
          (r = Closed \<and> s' = s1 \<and> finished s1) \<or> r = Waiting"
      proof (cases "n = 1")
        case True
        with next' s1 post show ?thesis using next_single_draining [of origin post em s1 ps r ps' s'] by auto
      next
        case False
        with next' show ?thesis using next_multi_draining [OF post s1(2,3)] by simp
      qed
      moreover have "cut_done n origin pre b post outs" if "finished s1"
      proof -
        have "\<forall>i<n. from_input origin i em = post i"
          using that s1 by (auto simp: draining_def finished_def sized_def)
        with drain(1,2) show ?thesis unfolding cut_done_def by blast
      qed
      moreover have "cut_ok n origin pre b post (outs @ [Element e]) s'" if "draining n origin post (em @ [e]) s'" for e
        using cut_ok_drained [OF drain(2) that, of b] drain(1) by simp
      ultimately show ?thesis by blast
    qed
  qed
qed

text \<open>A run.\<close>

lemma aligner_run_cut:
  assumes "marked origin n pre" and "marked origin n post"
  shows "cut_ok n origin pre b post outs s \<Longrightarrow> aligner_run k ps s = (outs', closed) \<Longrightarrow>
    (if closed then cut_done n origin pre b post (outs @ outs') else \<exists>s'. cut_ok n origin pre b post (outs @ outs') s')"
proof (induction k arbitrary: ps s outs outs' closed)
  case (Suc k)
  obtain r ps1 s1 where nx: "aligner_next ps s = (r, ps1, s1)" by (metis prod_cases3)
  from aligner_next_cut [OF assms Suc.prems(1) nx]
  show ?case
  proof (elim disjE exE conjE)
    fix out assume "r = Output out" "cut_ok n origin pre b post (outs @ [out]) s1"
    with Suc.prems(2) nx show ?thesis
      by (auto simp: Let_def split: prod.splits dest: Suc.IH)
  next
    assume "r = Closed" "cut_done n origin pre b post outs"
    with Suc.prems(2) nx show ?thesis by auto
  next
    assume "r = Waiting"
    with Suc.prems nx show ?thesis by auto
  qed
qed auto

text \<open>The work left: an element still in its channel can be returned twice as late as a buffered one.\<close>

definition aligner_work :: "'a aligner \<Rightarrow> nat" where
  "aligner_work s = 2 * inputs_left s + sum_list (map length (blocked_buffers s))"

definition all_ready :: polls where "all_ready = [(\<lambda>_. True, \<lambda>_. True, \<lambda>_. True)]"

definition ready_polls :: "nat \<Rightarrow> polls" where "ready_polls m = concat (replicate m all_ready)"

lemma ready_polls_Suc: "ready_polls (Suc m) = (\<lambda>_. True, \<lambda>_. True, \<lambda>_. True) # ready_polls m"
  by (simp add: ready_polls_def all_ready_def)

lemma try_recv_ready: "try_recv_from (\<lambda>_. True) inputs i \<noteq> Empty"
  by (simp add: try_recv_from_def split: list.splits)

text \<open>A schedule that ends with enough passes in which every input is ready.\<close>

lemma recv_ready:
  "recv_any (arrivals @ ready_polls (Suc m)) s = (q, ps', s') \<Longrightarrow> (\<exists>arrivals'. ps' = arrivals' @ ready_polls m) \<and> q \<noteq> StillPolling"
proof (induction arrivals)
  case Nil
  then show ?case
    by (auto simp: ready_polls_Suc Let_def list_ex_iff try_recv_ready split: option.splits if_splits)
next
  case (Cons a arrivals)
  obtain r1 r2 r3 where a: "a = (r1, r2, r3)" by (cases a)
  have "ready_polls (Suc m) = all_ready @ ready_polls m" by (simp add: ready_polls_def)
  then have more: "\<exists>arrivals'. arrivals @ ready_polls (Suc m) = arrivals' @ ready_polls m" by (metis append.assoc)
  have "recv_any (arrivals @ ready_polls (Suc m)) s = (q, ps', s') \<or> (ps' = arrivals @ ready_polls (Suc m) \<and> q \<noteq> StillPolling)"
    using Cons.prems by (auto simp: a Let_def split: option.splits if_splits)
  with Cons.IH more show ?case by metis
qed

definition enough :: "nat \<Rightarrow> polls \<Rightarrow> bool" where
  "enough n ps \<longleftrightarrow> (\<exists>arrivals m. ps = arrivals @ ready_polls m \<and> n < m)"

lemma enoughI [simp]: "n < m \<Longrightarrow> enough n (arrivals @ ready_polls m)"
  by (auto simp: enough_def)

lemma buffered_grow:
  "sum_list (map length (bs[i := bs ! i @ [e]])) \<le> sum_list (map length bs) + 1"
proof (cases "i < length bs")
  case True
  from sum_list_map_update [OF True, of length "bs ! i @ [e]"] show ?thesis by simp
next
  case False
  then show ?thesis by (simp add: list_update_beyond)
qed

definition progress :: "'a aligner \<Rightarrow> 'a next_result \<Rightarrow> polls \<Rightarrow> 'a aligner \<Rightarrow> bool" where
  "progress s r ps' s' \<longleftrightarrow> r = Closed \<or>
     ((\<exists>out. r = Output out) \<and> aligner_work s' < aligner_work s \<and> enough (inputs_left s') ps')"

lemma next_multi_ready:
  "inputs_left s < m \<Longrightarrow> next_multi (arrivals @ ready_polls m) s = (r, ps', s') \<Longrightarrow> progress s r ps' s'"
proof (induction m arbitrary: s r ps' s' arrivals)
  case (Suc m)
  obtain q ps1 s1 where q: "recv_any (arrivals @ ready_polls (Suc m)) s = (q, ps1, s1)" by (metis prod_cases3)
  from recv_ready [OF q] obtain arrivals1 where ready: "ps1 = arrivals1 @ ready_polls m" "q \<noteq> StillPolling" by blast
  show ?case
  proof (cases q)
    case (Got i e)
    from recv_any_left [OF q [unfolded Got]] have less: "inputs_left s1 < inputs_left s" .
    have bufs: "blocked_buffers s1 = blocked_buffers s"
      using recv_any_Got [OF q [unfolded Got]] by (simp add: take_from_def)
    have m: "inputs_left s1 < m" using less Suc.prems(1) by simp
    have IH: "progress s r ps' s'"
      if "next_multi (arrivals1 @ ready_polls m) s2 = (r, ps', s')" "inputs_left s2 = inputs_left s1"
        "sum_list (map length (blocked_buffers s2)) \<le> sum_list (map length (blocked_buffers s1)) + 1" for s2
      using Suc.IH [OF _ that(1)] that(2,3) m less bufs by (auto simp: progress_def aligner_work_def)
    have eq: "next_multi (arrivals @ ready_polls (Suc m)) s = (r, ps', s')" by (rule Suc.prems(2))
    show ?thesis
    proof (cases "is_barrier e")
      case False
      show ?thesis
      proof (cases "barrier_received s1 ! i")
        case True
        with eq next_multi_element [OF q [unfolded Got] False] ready buffered_grow show ?thesis
          by (intro IH [of "s1\<lparr>blocked_buffers := (blocked_buffers s1)[i := blocked_buffers s1 ! i @ [e]]\<rparr>"]) auto
      next
        case nr: False
        with eq next_multi_element [OF q [unfolded Got] False] ready less m bufs show ?thesis
          by (auto simp: progress_def aligner_work_def)
      qed
    next
      case True
      then obtain b where b: "e = ElemBarrier b" by (cases e) (auto simp: is_barrier_def)
      show ?thesis
      proof (cases "list_all (\<lambda>r. r) (barrier_received (mark_received i b s1))")
        case True
        with eq next_multi_barrier [OF q [unfolded Got b]] ready less m bufs show ?thesis
          by (auto simp: Let_def progress_def aligner_work_def mark_received_def inputs_left_def)
      next
        case False
        with eq next_multi_barrier [OF q [unfolded Got b]] ready show ?thesis
          by (intro IH [of "mark_received i b s1"]) (auto simp: Let_def mark_received_def)
      qed
    qed
  qed (use Suc.prems(2) q ready in \<open>auto simp: next_multi.simps [of "arrivals @ ready_polls (Suc m)"] progress_def\<close>)
qed simp

lemma drain_work:
  "drain s = (r, s') \<Longrightarrow> inputs_left s' = inputs_left s \<and> al_inputs s' = al_inputs s \<and>
    (case r of None \<Rightarrow> aligner_work s' = aligner_work s | Some e \<Rightarrow> aligner_work s' < aligner_work s)"
proof (induction s rule: drain.induct)
  case (1 s)
  show ?case
  proof (cases "drain_index s < length (blocked_buffers s)")
    case True
    show ?thesis
    proof (cases "blocked_buffers s ! drain_index s")
      case Nil
      with True 1(2) have "drain (s\<lparr>drain_index := drain_index s + 1\<rparr>) = (r, s')" by (simp add: drain.simps [of s])
      from 1(1) [OF True Nil this] show ?thesis by (cases r) (simp_all add: aligner_work_def inputs_left_def)
    next
      case (Cons e es)
      with True 1(2) sum_list_map_update [OF True, of length es] show ?thesis
        by (auto simp: drain.simps [of s] aligner_work_def inputs_left_def)
    qed
  next
    case False
    with 1(2) show ?thesis by (auto simp: drain.simps [of s])
  qed
qed

lemma aligner_run_ready:
  "aligner_work s < k \<Longrightarrow> inputs_left s < m \<Longrightarrow> \<exists>outs. aligner_run k (arrivals @ ready_polls m) s = (outs, True)"
proof (induction k arbitrary: s m arrivals)
  case (Suc k)
  obtain r ps1 s1 where nx: "aligner_next (arrivals @ ready_polls m) s = (r, ps1, s1)" by (metis prod_cases3)
  obtain d s2 where d: "drain s = (d, s2)" by fastforce
  note dw = drain_work [OF d]
  have "progress s r ps1 s1"
  proof (cases d)
    case (Some e)
    with nx d dw Suc.prems show ?thesis by (auto simp: aligner_next_def progress_def)
  next
    case None
    have "progress s2 r ps1 s1"
    proof (cases "length (al_inputs s2) = 1")
      case True
      then obtain es where es: "al_inputs s2 = [es]" by (cases "al_inputs s2") auto
      from nx d None True have ns: "next_single (arrivals @ ready_polls m) s2 = (r, ps1, s1)" by (simp add: aligner_next_def)
      show ?thesis
      proof (cases es)
        case Nil
        with ns es show ?thesis by (auto simp: next_single_def progress_def)
      next
        case (Cons x xs)
        with ns es dw Suc.prems(2) show ?thesis
          by (cases x) (auto simp: next_single_def progress_def take_from_def aligner_work_def inputs_left_def)
      qed
    next
      case False
      with nx d None dw Suc.prems(2) show ?thesis
          using next_multi_ready [of s2 m arrivals r ps1 s1] by (simp add: aligner_next_def)
    qed
    with None dw show ?thesis by (auto simp: progress_def)
  qed
  then consider "r = Closed" | out arrivals' m' where "r = Output out" "aligner_work s1 < k" "ps1 = arrivals' @ ready_polls m'" "inputs_left s1 < m'"
    using Suc.prems(1) by (auto simp: progress_def enough_def)
  then show ?case
  proof cases
    case 2
    from Suc.IH [OF 2(2,4), of arrivals'] obtain outs where "aligner_run k (arrivals' @ ready_polls m') s1 = (outs, True)" by blast
    with nx 2 show ?thesis by simp
  qed (use nx in auto)
qed simp

subsection \<open>Accounting for every element\<close>

text \<open>
  For any inputs: what was returned (\<open>ret\<close>, each element with the input it came from), what is buffered and what is left in the
  input make up the elements of the input, barriers apart. \<open>c\<close> is the number of barriers returned.
\<close>

definition others :: "'a stream_element list \<Rightarrow> 'a stream_element list" where
  "others es = filter (\<lambda>e. \<not> is_barrier e) es"

definition barriers :: "'a stream_element list \<Rightarrow> nat" where
  "barriers es = length (filter is_barrier es)"

definition returned_from :: "('a stream_element \<times> nat) list \<Rightarrow> nat \<Rightarrow> 'a stream_element list" where
  "returned_from ret i = map fst (filter (\<lambda>(e, j). j = i) ret)"

definition account_at where
  "account_at inputs ret c s i \<longleftrightarrow>
     returned_from ret i @ blocked_buffers s ! i @ others (al_inputs s ! i) = others (inputs ! i) \<and>
     (\<not> barrier_received s ! i \<and> i < drain_index s \<longrightarrow> blocked_buffers s ! i = []) \<and>
     c + (if barrier_received s ! i then 1 else 0) + barriers (al_inputs s ! i) \<le> barriers (inputs ! i) \<and>
     (barriers (al_inputs s ! i) < barriers (inputs ! i) \<longrightarrow> 0 < c \<or> barrier_received s ! i)"

definition account :: "'a stream_element list list \<Rightarrow> ('a stream_element \<times> nat) list \<Rightarrow> nat \<Rightarrow> 'a aligner \<Rightarrow> bool" where
  "account inputs ret c s \<longleftrightarrow> sized (length inputs) s \<and> (\<forall>(e, j)\<in>set ret. j < length inputs) \<and>
     (\<forall>i<length inputs. account_at inputs ret c s i) \<and> (inputs \<noteq> [] \<longrightarrow> (\<exists>i<length inputs. \<not> barrier_received s ! i))"

lemma others_simps [simp]:
  "others [] = []" "others (e # es) = (if is_barrier e then others es else e # others es)"
  "barriers [] = 0" "barriers (e # es) = (if is_barrier e then Suc (barriers es) else barriers es)"
  "returned_from [] i = []" "returned_from (ret @ [(e, j)]) i = returned_from ret i @ (if j = i then [e] else [])"
  by (simp_all add: others_def barriers_def returned_from_def)

lemma account_new: "account inputs [] 0 (aligner_new inputs)"
  by (auto simp: account_def account_at_def sized_def aligner_new_def)

lemma accountD:
  assumes "account inputs ret c s"
  shows "length (al_inputs s) = length inputs" and "length (barrier_received s) = length inputs"
    and "length (blocked_buffers s) = length inputs" and "i < length inputs \<Longrightarrow> account_at inputs ret c s i"
  using assms by (simp_all add: account_def sized_def)

lemma account_pass:
  assumes acc: "account inputs ret c s" and i: "i < length inputs" and e: "al_inputs s ! i = e # es" "\<not> is_barrier e"
    and free: "\<not> barrier_received s ! i" "length inputs \<le> drain_index s"
  shows "account inputs (ret @ [(e, i)]) c (take_from i s)"
proof -
  have "account_at inputs (ret @ [(e, i)]) c (take_from i s) j" if "j < length inputs" for j
    using accountD(1) [OF acc] accountD(4) [OF acc that] that i e free by (auto simp: account_at_def take_from_def nth_list_update)
  then show ?thesis using acc i by (auto simp: account_def sized_def take_from_def)
qed

lemma account_block:
  assumes acc: "account inputs ret c s" and i: "i < length inputs" and e: "al_inputs s ! i = e # es" "\<not> is_barrier e"
    and blocked: "barrier_received s ! i"
  shows "account inputs ret c
    (take_from i s\<lparr>blocked_buffers := (blocked_buffers (take_from i s))[i := blocked_buffers (take_from i s) ! i @ [e]]\<rparr>)"
proof -
  have "account_at inputs ret c
      (take_from i s\<lparr>blocked_buffers := (blocked_buffers (take_from i s))[i := blocked_buffers (take_from i s) ! i @ [e]]\<rparr>) j"
    if "j < length inputs" for j
    using accountD(1,3) [OF acc] accountD(4) [OF acc that] that i e blocked by (auto simp: account_at_def take_from_def nth_list_update)
  then show ?thesis using acc by (auto simp: account_def sized_def take_from_def)
qed

lemma mark_received_sel [simp]:
  "barrier_received (mark_received i b s) = (barrier_received s)[i := True]" "al_inputs (mark_received i b s) = al_inputs s"
  "blocked_buffers (mark_received i b s) = blocked_buffers s" "drain_index (mark_received i b s) = drain_index s"
  by (simp_all add: mark_received_def)

lemma account_mark:
  fixes b :: checkpoint_barrier
  assumes acc: "account inputs ret c s" and i: "i < length inputs" and e: "al_inputs s ! i = e # es" "is_barrier e"
  defines "s1 \<equiv> mark_received i b (take_from i s)"
  shows "\<not> list_all (\<lambda>r. r) (barrier_received s1) \<Longrightarrow> account inputs ret c s1"
    and "list_all (\<lambda>r. r) (barrier_received s1) \<Longrightarrow> account inputs ret (Suc c) (s1\<lparr>pending_barrier := None,
       barrier_received := replicate (length (barrier_received s1)) False, drain_index := 0\<rparr>)"
proof -
  note len = accountD(1-3) [OF acc]
  have at: "account_at inputs ret c s1 j" if "j < length inputs" for j
    using len accountD(4) [OF acc that] that i e by (auto simp: s1_def account_at_def take_from_def nth_list_update)
  have sz: "sized (length inputs) s1" using acc by (simp add: s1_def account_def sized_def take_from_def)
  show "account inputs ret c s1" if "\<not> list_all (\<lambda>r. r) (barrier_received s1)"
    using that at sz acc by (auto simp: account_def sized_def list_all_length)
  assume "list_all (\<lambda>r. r) (barrier_received s1)"
  then have "barrier_received s1 ! j" if "j < length inputs" for j using sz that by (auto simp: sized_def list_all_length)
  with at sz acc i show "account inputs ret (Suc c) (s1\<lparr>pending_barrier := None,
       barrier_received := replicate (length (barrier_received s1)) False, drain_index := 0\<rparr>)"
    by (auto simp: account_def account_at_def sized_def)
qed

lemma account_drain:
  assumes "account inputs ret c s" and "drain s = (d, s')"
  shows "case d of Some e \<Rightarrow> \<exists>i. account inputs (ret @ [(e, i)]) c s' | None \<Rightarrow> account inputs ret c s' \<and> length inputs \<le> drain_index s'"
  using assms
proof (induction s rule: drain.induct)
  case (1 s)
  note len = accountD(1-3) [OF 1(2)]
  let ?i = "drain_index s"
  show ?case
  proof (cases "?i < length inputs")
    case True
    show ?thesis
    proof (cases "blocked_buffers s ! ?i")
      case Nil
      have "account_at inputs ret c (s\<lparr>drain_index := drain_index s + 1\<rparr>) j" if "j < length inputs" for j
        using accountD(4) [OF 1(2) that] Nil by (auto simp: account_at_def less_Suc_eq)
      then have acc: "account inputs ret c (s\<lparr>drain_index := drain_index s + 1\<rparr>)" using 1(2) by (auto simp: account_def sized_def)
      have rest: "drain (s\<lparr>drain_index := drain_index s + 1\<rparr>) = (d, s')" using 1(3) True Nil len by (simp add: drain.simps [of s])
      show ?thesis using True len by (intro 1(1) [OF _ Nil acc rest]) simp
    next
      case (Cons e es)
      then have d: "d = Some e" "s' = s\<lparr>blocked_buffers := (blocked_buffers s)[?i := es]\<rparr>" using 1(3) True len by (auto simp: drain.simps [of s])
      have "account_at inputs (ret @ [(e, ?i)]) c s' j" if "j < length inputs" for j
        using accountD(4) [OF 1(2) that] Cons len that by (auto simp: account_at_def d nth_list_update)
      then have "account inputs (ret @ [(e, ?i)]) c s'" using 1(2) True by (auto simp: account_def sized_def d)
      then show ?thesis using d by auto
    qed
  next
    case False
    then show ?thesis using 1(2,3) len by (auto simp: drain.simps [of s])
  qed
qed

definition account_next where
  "account_next inputs ret c r s' \<longleftrightarrow>
     (\<exists>e i. r = Output (Element e) \<and> account inputs (ret @ [(e, i)]) c s') \<or>
     (\<exists>b. r = Output (BarrierAligned b) \<and> account inputs ret (Suc c) s') \<or>
     (r = Closed \<and> account inputs ret c s' \<and> finished s' \<and> length inputs \<le> drain_index s') \<or> r = Waiting"

lemma account_next_multi:
  assumes "account inputs ret c s" and "length inputs \<le> drain_index s" and "next_multi ps s = (r, ps', s')"
  shows "account_next inputs ret c r s'"
  using assms
proof (induction "inputs_left s" arbitrary: s ps rule: less_induct)
  case less
  note acc = less.prems(1) and drained = less.prems(2) and nm = less.prems(3) and len = accountD(1-3) [OF less.prems(1)]
  obtain q ps1 s1 where q: "recv_any ps s = (q, ps1, s1)" by (metis prod_cases3)
  show ?case
  proof (cases q)
    case (Got i e)
    from recv_any_Got [OF q [unfolded Got]] len obtain es where i: "i < length inputs" "al_inputs s ! i = e # es" and s1: "s1 = take_from i s"
      by (cases "al_inputs s ! i") auto
    have left: "inputs_left s1 < inputs_left s" by (rule recv_any_left [OF q [unfolded Got]])
    have same: "barrier_received s1 = barrier_received s" "drain_index s1 = drain_index s" by (simp_all add: s1 take_from_def)
    show ?thesis
    proof (cases "is_barrier e")
      case False
      note elem = next_multi_element [OF q [unfolded Got] False]
      show ?thesis
      proof (cases "barrier_received s ! i")
        case True
        let ?s2 = "s1\<lparr>blocked_buffers := (blocked_buffers s1)[i := blocked_buffers s1 ! i @ [e]]\<rparr>"
        have "next_multi ps1 ?s2 = (r, ps', s')" using nm elem True same by simp
        moreover have "account inputs ret c ?s2" unfolding s1 by (rule account_block [OF acc i False True])
        ultimately show ?thesis using left drained same by (intro less.hyps [of ?s2 ps1]) simp_all
      next
        case nr: False
        from account_pass [OF acc i False nr drained] nm elem nr same show ?thesis by (auto simp: account_next_def s1)
      qed
    next
      case True
      then obtain b where b: "e = ElemBarrier b" by (cases e) (auto simp: is_barrier_def)
      let ?s1 = "mark_received i b s1"
      note mark = account_mark [OF acc i True, of b, folded s1]
      note step = next_multi_barrier [OF q [unfolded Got b]]
      show ?thesis
      proof (cases "list_all (\<lambda>r. r) (barrier_received ?s1)")
        case all: True
        with mark(2) nm step show ?thesis by (auto simp: account_next_def Let_def)
      next
        case all: False
        have "inputs_left ?s1 = inputs_left s1" by (simp add: inputs_left_def)
        moreover have "next_multi ps1 ?s1 = (r, ps', s')" using nm step all by (simp add: Let_def)
        ultimately show ?thesis using mark(1) [OF all] left drained same by (intro less.hyps [of ?s1 ps1]) simp_all
      qed
    qed
  next
    case AllClosed
    with q nm recv_any_AllClosed [OF q [unfolded AllClosed]] recv_any_frame [OF q] acc drained show ?thesis
      by (simp add: next_multi.simps [of ps s] account_next_def finished_def)
  next
    case StillPolling
    with q nm show ?thesis by (simp add: next_multi.simps [of ps s] account_next_def)
  qed
qed

lemma account_next_single:
  assumes acc: "account inputs ret c s" and drained: "length inputs \<le> drain_index s" and one: "length (al_inputs s) = 1"
    and ns: "next_single ps s = (r, ps', s')"
  shows "account_next inputs ret c r s'"
proof -
  have len: "length inputs = 1" using one accountD(1) [OF acc] by simp
  then have free: "\<not> barrier_received s ! 0" using acc by (auto simp: account_def)
  show ?thesis
  proof (cases "al_inputs s ! 0")
    case Nil
    with one have "finished s" by (simp add: finished_def)
    with ns Nil acc drained show ?thesis by (simp add: next_single_def account_next_def)
  next
    case (Cons e es)
    show ?thesis
    proof (cases "is_barrier e")
      case False
      have "account inputs (ret @ [(e, 0)]) c (take_from 0 s)" using account_pass [OF acc _ Cons False free drained] len by simp
      with ns Cons False show ?thesis by (cases e) (auto simp: next_single_def account_next_def is_barrier_def)
    next
      case True
      then obtain b where b: "e = ElemBarrier b" by (cases e) (auto simp: is_barrier_def)
      have "account_at inputs ret (Suc c) (take_from 0 s) 0"
        using accountD(4) [OF acc, of 0] len one Cons True free drained by (auto simp: account_at_def take_from_def)
      then have "account inputs ret (Suc c) (take_from 0 s)" using acc len by (auto simp: account_def sized_def take_from_def)
      with ns Cons b show ?thesis by (auto simp: next_single_def account_next_def)
    qed
  qed
qed

lemma account_aligner_next:
  assumes "account inputs ret c s" and "aligner_next ps s = (r, ps', s')"
  shows "account_next inputs ret c r s'"
proof -
  obtain d s1 where d: "drain s = (d, s1)" by fastforce
  from account_drain [OF assms(1) d] assms(2) d account_next_multi [of inputs ret c s1 ps r ps' s']
    account_next_single [of inputs ret c s1 ps r ps' s'] show ?thesis
    by (auto simp: aligner_next_def account_next_def split: option.splits if_splits)
qed

text \<open>The elements and the number of barriers among the outputs.\<close>

definition elements_of :: "'a aligner_output list \<Rightarrow> 'a stream_element list" where
  "elements_of outs = concat (map (\<lambda>out. case out of Element e \<Rightarrow> [e] | BarrierAligned b \<Rightarrow> []) outs)"

definition alignments :: "'a aligner_output list \<Rightarrow> nat" where
  "alignments outs = length (filter (\<lambda>out. case out of Element e \<Rightarrow> False | BarrierAligned b \<Rightarrow> True) outs)"

lemma outputs_simps [simp]:
  "elements_of [] = []" "elements_of (Element e # outs) = e # elements_of outs" "elements_of (BarrierAligned b # outs) = elements_of outs"
  "alignments [] = 0" "alignments (Element e # outs) = alignments outs" "alignments (BarrierAligned b # outs) = Suc (alignments outs)"
  by (simp_all add: elements_of_def alignments_def)

lemma account_run:
  assumes "account inputs ret c s" and "aligner_run k ps s = (outs, True)"
  shows "\<exists>ret' s'. map fst ret' = elements_of outs \<and> account inputs (ret @ ret') (c + alignments outs) s' \<and> finished s' \<and>
    length inputs \<le> drain_index s'"
  using assms
proof (induction k arbitrary: ps s outs ret c)
  case (Suc k)
  obtain r ps1 s1 where nx: "aligner_next ps s = (r, ps1, s1)" by (metis prod_cases3)
  from account_aligner_next [OF Suc.prems(1) nx] show ?case
    unfolding account_next_def
  proof (elim disjE exE conjE)
    fix e i assume r: "r = Output (Element e)" and acc: "account inputs (ret @ [(e, i)]) c s1"
    from Suc.prems(2) nx r obtain outs' where run: "aligner_run k ps1 s1 = (outs', True)" and outs: "outs = Element e # outs'"
      by (auto simp: Let_def split: prod.splits)
    from Suc.IH [OF acc run] obtain ret' s' where "map fst ret' = elements_of outs'"
      "account inputs ((ret @ [(e, i)]) @ ret') (c + alignments outs') s'" "finished s'" "length inputs \<le> drain_index s'" by blast
    then show ?thesis by (intro exI [of _ "(e, i) # ret'"] exI [of _ s']) (simp add: outs)
  next
    fix b assume r: "r = Output (BarrierAligned b)" and acc: "account inputs ret (Suc c) s1"
    from Suc.prems(2) nx r obtain outs' where run: "aligner_run k ps1 s1 = (outs', True)" and outs: "outs = BarrierAligned b # outs'"
      by (auto simp: Let_def split: prod.splits)
    from Suc.IH [OF acc run] show ?thesis by (simp add: outs)
  next
    assume "r = Closed" "account inputs ret c s1" "finished s1" "length inputs \<le> drain_index s1"
    then show ?thesis using Suc.prems(2) nx by (intro exI [of _ "[]"] exI [of _ s1]) auto
  next
    assume "r = Waiting"
    then show ?thesis using Suc.prems(2) nx by simp
  qed
qed simp

text \<open>What is held back at the end.\<close>

lemma account_end:
  assumes acc: "account inputs ret c s" and fin: "finished s" and drained: "length inputs \<le> drain_index s" and i: "i < length inputs"
  shows "returned_from ret i @ blocked_buffers s ! i = others (inputs ! i)" and "c \<le> barriers (inputs ! i)"
    and "blocked_buffers s ! i \<noteq> [] \<Longrightarrow> c < barriers (inputs ! i)"
    and "\<forall>j<length inputs. barriers (inputs ! j) = b \<Longrightarrow> b \<le> 1 \<Longrightarrow> c = b \<and> blocked_buffers s ! i = []"
proof -
  have at: "returned_from ret j @ blocked_buffers s ! j = others (inputs ! j)" "c \<le> barriers (inputs ! j)"
    "\<not> barrier_received s ! j \<Longrightarrow> blocked_buffers s ! j = []" "barrier_received s ! j \<Longrightarrow> c < barriers (inputs ! j)"
    "0 < barriers (inputs ! j) \<Longrightarrow> 0 < c \<or> barrier_received s ! j" if "j < length inputs" for j
    using accountD(4) [OF acc that] fin drained that accountD(1) [OF acc] by (auto simp: account_at_def finished_def)
  show "returned_from ret i @ blocked_buffers s ! i = others (inputs ! i)" "c \<le> barriers (inputs ! i)" using at(1,2) [OF i] by simp_all
  show "blocked_buffers s ! i \<noteq> [] \<Longrightarrow> c < barriers (inputs ! i)" using at(3,4) [OF i] by blast
  obtain j where j: "j < length inputs" "\<not> barrier_received s ! j" using acc i by (auto simp: account_def)
  show "c = b \<and> blocked_buffers s ! i = []" if "\<forall>j<length inputs. barriers (inputs ! j) = b" "b \<le> 1"
  proof -
    have "c = b" using at(2) [OF j(1)] at(5) [OF j(1)] j that by (cases b) auto
    then show ?thesis using at(3,4) [OF i] that(1) i by auto
  qed
qed

subsection \<open>Properties\<close>

text \<open>C6. The aligner delivers a consistent cut. When each of the n inputs carries one barrier, then in every
  arrival order and after any number of calls, the elements returned so far consist of a front and,
  once the barrier has been returned, a rear: of each input the front holds elements before its barrier only, in
  order, and all of them by the time the barrier is returned; the rear holds what follows. When the
  aligner reports the end, nothing is missing.\<close>

theorem aligner_consistent_cut:
  assumes "0 < n" and "marked origin n pre" and "marked origin n post"
    and "aligner_run k polls (aligner_new (one_barrier n pre b post)) = (outs, closed)"
  shows "\<exists>front rear aligned. outs = map Element front @ (if aligned then BarrierAligned b # map Element rear else []) \<and>
    (\<forall>i<n. \<exists>rest. from_input origin i front @ rest = pre i \<and> (aligned \<longrightarrow> rest = [])) \<and>
    (\<forall>i<n. \<exists>rest. from_input origin i rear @ rest = post i \<and> (closed \<longrightarrow> rest = [])) \<and>
    (closed \<longrightarrow> aligned)"
proof -
  let ?s = "aligner_new (one_barrier n pre b post)"
  have "aligning n origin pre b post [] ?s"
    using assms(1) by (auto simp: aligning_def waiting_input_def sized_def aligner_new_def one_barrier_def list_ex_iff list_all_length)
  then have "cut_ok n origin pre b post [] ?s" unfolding cut_ok_def by auto
  from aligner_run_cut [OF assms(2,3) this assms(4)]
  show ?thesis
  proof (cases closed)
    case True
    assume "if closed then cut_done n origin pre b post ([] @ outs) else \<exists>s'. cut_ok n origin pre b post ([] @ outs) s'"
    with True obtain front rear where "outs = map Element front @ BarrierAligned b # map Element rear"
      "\<forall>i<n. from_input origin i front = pre i \<and> from_input origin i rear = post i"
      by (auto simp: cut_done_def)
    then show ?thesis by (intro exI [of _ front] exI [of _ rear] exI [of _ True]) auto
  next
    case False
    assume "if closed then cut_done n origin pre b post ([] @ outs) else \<exists>s'. cut_ok n origin pre b post ([] @ outs) s'"
    with False obtain s' where "cut_ok n origin pre b post outs s'" by auto
    then consider (align) em where "outs = map Element em" "aligning n origin pre b post em s'"
      | (drain) front em where "outs = map Element front @ BarrierAligned b # map Element em"
        "\<forall>i<n. from_input origin i front = pre i" "draining n origin post em s'"
      by (auto simp: cut_ok_def)
    then show ?thesis
    proof cases
      case align
      have "\<exists>rest. from_input origin i em @ rest = pre i" if "i < n" for i
        using aligning_input [OF align(2) that] by (auto simp: waiting_input_def split: if_splits)
      with align False show ?thesis by (intro exI [of _ em] exI [of _ "[]"] exI [of _ False]) auto
    next
      case drain
      with False show ?thesis
        by (intro exI [of _ front] exI [of _ em] exI [of _ True]) (auto simp: draining_def)
    qed
  qed
qed

theorem aligner_consistent_cut_witness:
  "\<exists>outs front rear. aligner_run 20 (ready_polls 20) (aligner_new (one_barrier 2
      (\<lambda>i. [ElemRecord (record_new i ts_MIN)]) (barrier_new 1 ts_MIN) (\<lambda>i. []))) = (outs, True) \<and>
    outs = map Element front @ BarrierAligned (barrier_new 1 ts_MIN) # map Element rear"
proof -
  let ?pre = "\<lambda>i. [ElemRecord (record_new i ts_MIN)]" and ?b = "barrier_new 1 ts_MIN"
  let ?origin = "\<lambda>e :: nat stream_element. case e of ElemRecord r \<Rightarrow> rec_value r | _ \<Rightarrow> 0"
  let ?s = "aligner_new (one_barrier 2 ?pre ?b (\<lambda>i. []))"
  have "aligner_work ?s < 20" "inputs_left ?s < 20"
    by (simp_all add: aligner_work_def inputs_left_def aligner_new_def one_barrier_def upt_rec)
  from aligner_run_ready [OF this, of "[]"] obtain outs where run: "aligner_run 20 ([] @ ready_polls 20) ?s = (outs, True)" by blast
  have m: "marked ?origin 2 ?pre" "marked ?origin 2 (\<lambda>i. [])" by (simp_all add: marked_def is_barrier_def)
  obtain front rear aligned where
    "outs = map Element front @ (if aligned then BarrierAligned ?b # map Element rear else [])" "aligned"
    using aligner_consistent_cut [OF _ m run] by auto
  with run show ?thesis by auto
qed

text \<open>C34. The aligner ends and accounts for every element. Whatever the inputs are and in whatever order they arrive, once every
  input is ready at every poll it reports the end within twice as many calls as there are elements, plus one. What it has returned
  by then are elements of the inputs, each once, and of every input all but a last part, in order, barriers apart. The part held
  back is not empty only if the input had more barriers than the aligner returned. No input had fewer. When all inputs have one barrier, or
  all have none, it returned that many barriers and held nothing back.\<close>

theorem aligner_ends:
  assumes "2 * sum_list (map length inputs) < k" and "sum_list (map length inputs) < m"
  shows "\<exists>outs ret held. aligner_run k (arrivals @ ready_polls m) (aligner_new inputs) = (outs, True) \<and>
    map fst ret = elements_of outs \<and> (\<forall>(e, i)\<in>set ret. i < length inputs) \<and>
    (\<forall>i<length inputs. [e. (e, j) \<leftarrow> ret, j = i] @ held i = filter (\<lambda>e. \<not> is_barrier e) (inputs ! i) \<and>
       alignments outs \<le> barriers (inputs ! i) \<and> (held i \<noteq> [] \<longrightarrow> alignments outs < barriers (inputs ! i)) \<and>
       (\<forall>b\<le>1. (\<forall>j<length inputs. barriers (inputs ! j) = b) \<longrightarrow> alignments outs = b \<and> held i = []))"
proof -
  obtain outs where run: "aligner_run k (arrivals @ ready_polls m) (aligner_new inputs) = (outs, True)"
    using aligner_run_ready [of "aligner_new inputs" k m arrivals] assms
    by (auto simp: aligner_work_def inputs_left_def aligner_new_def sum_list_replicate)
  from account_run [OF account_new run] obtain ret s where ret: "map fst ret = elements_of outs"
    and acc: "account inputs ret (alignments outs) s" "finished s" "length inputs \<le> drain_index s" by auto
  have "[e. (e, j) \<leftarrow> ret, j = i] = returned_from ret i" for i
    by (induction ret) (auto simp: returned_from_def)
  moreover have "\<forall>(e, i)\<in>set ret. i < length inputs" using acc(1) by (simp add: account_def)
  moreover have "returned_from ret i @ blocked_buffers s ! i = filter (\<lambda>e. \<not> is_barrier e) (inputs ! i) \<and>
       alignments outs \<le> barriers (inputs ! i) \<and> (blocked_buffers s ! i \<noteq> [] \<longrightarrow> alignments outs < barriers (inputs ! i)) \<and>
       (\<forall>b\<le>1. (\<forall>j<length inputs. barriers (inputs ! j) = b) \<longrightarrow> alignments outs = b \<and> blocked_buffers s ! i = [])"
    if "i < length inputs" for i
    using account_end(1) [OF acc that, unfolded others_def] account_end(2,3) [OF acc that] account_end(4) [OF acc that] by blast
  ultimately show ?thesis using run ret
    by (intro exI [of _ outs] exI [of _ ret] exI [of _ "\<lambda>i. blocked_buffers s ! i"]) simp
qed

theorem aligner_ends_witness:
  "\<exists>outs. aligner_run 7 (ready_polls 4) (aligner_new [[ElemBarrier (barrier_new 1 ts_MIN)],
     [ElemRecord (record_new (0 :: nat) ts_MIN), ElemBarrier (barrier_new 1 ts_MIN)]]) = (outs, True) \<and> alignments outs = 1"
proof -
  let ?inputs = "[[ElemBarrier (barrier_new 1 ts_MIN)], [ElemRecord (record_new (0 :: nat) ts_MIN), ElemBarrier (barrier_new 1 ts_MIN)]]"
  have one: "\<forall>j<length ?inputs. barriers (?inputs ! j) = 1" by (simp add: less_Suc_eq is_barrier_def)
  from aligner_ends [of ?inputs 7 4 "[]"] obtain outs where "aligner_run 7 (ready_polls 4) (aligner_new ?inputs) = (outs, True)"
    "\<forall>i<length ?inputs. \<forall>b\<le>1. (\<forall>j<length ?inputs. barriers (?inputs ! j) = b) \<longrightarrow> alignments outs = b" by auto
  with one show ?thesis by (metis le_refl length_Cons zero_less_Suc)
qed

text \<open>A second barrier that a fast input sends before the first is aligned is swallowed: input 0 sends barriers 1
  and 2 before input 1 sends either, and barrier 2 is never returned although both inputs sent it.\<close>

lemma aligner_swallows_barrier:
  "aligner_run 9 ([(\<lambda>i. i = 0, \<lambda>i. i = 0, \<lambda>i. i = 0), (\<lambda>i. i = 0, \<lambda>i. i = 0, \<lambda>i. i = 0)] @ ready_polls 9)
     (aligner_new [[ElemBarrier (barrier_new 1 ts_MIN), ElemBarrier (barrier_new 2 ts_MIN)] :: nat stream_element list,
        [ElemBarrier (barrier_new 1 ts_MIN), ElemBarrier (barrier_new 2 ts_MIN)]]) =
   ([BarrierAligned (barrier_new 1 ts_MIN)], True)"
  by code_simp

text \<open>What follows the barrier of one input is lost when the other input ends without one: the end is reported as soon as
  all inputs are closed, whatever is still held back.\<close>

lemma aligner_loses_held_back:
  "aligner_run 9 (ready_polls 9)
     (aligner_new [[ElemBarrier (barrier_new 1 ts_MIN), ElemRecord (record_new 7 ts_MIN)] :: nat stream_element list, []]) = ([], True)"
  by code_simp

end
