(* ===== verification/Collectors.thy ===== *)
theory Collectors
  imports Stream_Types
begin

text \<open>
  The output side of an operator. \<open>Collector\<close> (\<open>flume-core/src/traits/operator.rs\<close>) is a record
  of its three methods over a state \<open>'c\<close>, as the \<open>&mut dyn Collector<Out>\<close> an operator is given.
  The locale \<open>collector_laws\<close> states what an operator relies on: a successful call appends exactly
  the element it was given to what has been emitted, a failing call appends nothing. The
  collectors of the code are the test harness' vector (\<open>flume-runtime/src/test_harness.rs\<close>) and
  the channel-backed ones (\<open>flume-runtime/src/channel.rs\<close>); the latter turn every failure of the
  channel's non-blocking send, full or closed, into \<open>ChannelClosed\<close>.
\<close>

subsection \<open>The interface\<close>

record ('c, 'a) collector =
  collect :: "'c \<Rightarrow> 'a flume_record \<Rightarrow> 'c \<times> unit res"
  collect_watermark :: "'c \<Rightarrow> watermark \<Rightarrow> 'c \<times> unit res"
  collect_barrier :: "'c \<Rightarrow> checkpoint_barrier \<Rightarrow> 'c \<times> unit res"

text \<open>
  What one call may do to the emitted elements: append \<open>e\<close> and return \<open>Ok\<close>, or fail without
  emitting.
\<close>

definition emits :: "('c \<Rightarrow> 'a stream_element list) \<Rightarrow> 'c \<Rightarrow> 'a stream_element \<Rightarrow> 'c \<times> unit res \<Rightarrow> bool"
  where
  "emits out c e cr \<longleftrightarrow>
     (snd cr = Ok () \<and> out (fst cr) = out c @ [e]) \<or>
     ((\<exists>err. snd cr = Err err) \<and> out (fst cr) = out c)"

locale collector_laws =
  fixes col :: "('c, 'a) collector"
    and out :: "'c \<Rightarrow> 'a stream_element list"
    and inv :: "'c \<Rightarrow> bool"
  assumes collect_emits: "inv c \<Longrightarrow> emits out c (ElemRecord r) (collect col c r)"
    and watermark_emits: "inv c \<Longrightarrow> emits out c (ElemWatermark w) (collect_watermark col c w)"
    and barrier_emits: "inv c \<Longrightarrow> emits out c (ElemBarrier b) (collect_barrier col c b)"
    and collect_inv: "inv c \<Longrightarrow> inv (fst (collect col c r))"
    and watermark_inv: "inv c \<Longrightarrow> inv (fst (collect_watermark col c w))"
    and barrier_inv: "inv c \<Longrightarrow> inv (fst (collect_barrier col c b))"

text \<open>
  The loop \<open>for record in records { collector.collect(record)?; }\<close> that operators end with.
\<close>

fun collect_all :: "('c, 'a) collector \<Rightarrow> 'c \<Rightarrow> 'a flume_record list \<Rightarrow> 'c \<times> unit res" where
  "collect_all col c [] = (c, Ok ())"
| "collect_all col c (r # rs) =
     (case collect col c r of
        (c', Ok _) \<Rightarrow> collect_all col c' rs
      | (c', Err e) \<Rightarrow> (c', Err e)
      | (c', Panic p) \<Rightarrow> (c', Panic p))"

text \<open>Run a second call only when the first returned \<open>Ok\<close>: the \<open>?\<close> operator between two calls.\<close>

definition and_then :: "'c \<times> unit res \<Rightarrow> ('c \<Rightarrow> 'c \<times> unit res) \<Rightarrow> 'c \<times> unit res" where
  "and_then cr f = (case cr of (c, Ok _) \<Rightarrow> f c | (c, Err e) \<Rightarrow> (c, Err e) | (c, Panic p) \<Rightarrow> (c, Panic p))"

lemma and_then_simps [simp]:
  "and_then (c, Ok u) f = f c" "and_then (c, Err e) f = (c, Err e)"
  "and_then (c, Panic p) f = (c, Panic p)"
  by (simp_all add: and_then_def)

lemma collect_all_append:
  "collect_all col c (rs @ ss) = and_then (collect_all col c rs) (\<lambda>c'. collect_all col c' ss)"
  by (induction col c rs rule: collect_all.induct) (auto split: prod.splits res.splits)

lemma collect_all_Cons: "collect_all col c (r # rs) = and_then (collect col c r) (\<lambda>c'. collect_all col c' rs)"
  by (auto simp: and_then_def split: prod.splits res.splits)

context collector_laws
begin

text \<open>
  A loop of emissions appends all its records and succeeds, or stops at the first failure having
  appended a proper prefix.
\<close>

lemma collect_all_emits:
  "inv c \<Longrightarrow> collect_all col c rs = (c', r) \<Longrightarrow>
   inv c' \<and>
   (if r = Ok () then out c' = out c @ map ElemRecord rs
    else \<exists>n < length rs. (\<exists>e. r = Err e) \<and> out c' = out c @ map ElemRecord (take n rs))"
proof (induction rs arbitrary: c)
  case (Cons x rs)
  obtain c1 r1 where call: "collect col c x = (c1, r1)" by (cases "collect col c x")
  have inv1: "inv c1" using collect_inv [OF Cons.prems(1), of x] call by simp
  from collect_emits [OF Cons.prems(1), of x] call
  consider (ok) "r1 = Ok ()" "out c1 = out c @ [ElemRecord x]"
    | (err) e where "r1 = Err e" "out c1 = out c"
    by (auto simp: emits_def)
  then show ?case
  proof cases
    case ok
    with Cons.prems(2) call have rest: "collect_all col c1 rs = (c', r)" by simp
    show ?thesis
    proof (cases "r = Ok ()")
      case True
      with Cons.IH [OF inv1 rest] ok show ?thesis by simp
    next
      case False
      with Cons.IH [OF inv1 rest] obtain n where "n < length rs" "\<exists>e. r = Err e"
        "out c' = out c1 @ map ElemRecord (take n rs)" "inv c'" by auto
      with ok False show ?thesis by (auto intro!: exI [of _ "Suc n"])
    qed
  next
    case err
    with Cons.prems(2) call inv1 show ?thesis by (auto intro!: exI [of _ 0])
  qed
qed simp

lemma collect_all_Ok:
  "inv c \<Longrightarrow> collect_all col c rs = (c', Ok ()) \<Longrightarrow> inv c' \<and> out c' = out c @ map ElemRecord rs"
  using collect_all_emits [of c rs c' "Ok ()"] by simp

lemma watermark_Ok:
  "inv c \<Longrightarrow> collect_watermark col c w = (c', Ok ()) \<Longrightarrow> inv c' \<and> out c' = out c @ [ElemWatermark w]"
  using watermark_emits [of c w] watermark_inv [of c w] by (auto simp: emits_def)

text \<open>Emit records, then forward the watermark: the shape of a windowed operator's watermark step.\<close>

lemma records_then_watermark:
  assumes "inv c" and "and_then (collect_all col c rs) (\<lambda>c'. collect_watermark col c' w) = (c2, r)"
  shows "inv c2 \<and>
    (if r = Ok () then out c2 = out c @ map ElemRecord rs @ [ElemWatermark w]
     else \<exists>n \<le> length rs. (\<exists>e. r = Err e) \<and> out c2 = out c @ map ElemRecord (take n rs))"
proof -
  obtain c1 r1 where loop: "collect_all col c rs = (c1, r1)" by (cases "collect_all col c rs")
  note e1 = collect_all_emits [OF assms(1) loop]
  show ?thesis
  proof (cases "r1 = Ok ()")
    case True
    with assms(2) loop have call: "collect_watermark col c1 w = (c2, r)" by simp
    from e1 True have inv1: "inv c1" and out1: "out c1 = out c @ map ElemRecord rs" by auto
    from watermark_emits [OF inv1, of w] watermark_inv [OF inv1, of w] call out1
    show ?thesis by (auto simp: emits_def)
  next
    case False
    with assms(2) loop e1 show ?thesis by (cases r1) (auto intro: less_imp_le)
  qed
qed

end

subsection \<open>The test harness' collector\<close>

text \<open>\<open>TestCollector\<close>: a vector of elements; every call succeeds.\<close>

type_synonym 'a test_collector = "'a stream_element list"

definition test_collector :: "('a test_collector, 'a) collector" where
  "test_collector = \<lparr>
     collect = (\<lambda>es r. (es @ [ElemRecord r], Ok ())),
     collect_watermark = (\<lambda>es w. (es @ [ElemWatermark w], Ok ())),
     collect_barrier = (\<lambda>es b. (es @ [ElemBarrier b], Ok ()))\<rparr>"

interpretation test_col: collector_laws test_collector "\<lambda>es. es" "\<lambda>_. True"
  by unfold_locales (auto simp: test_collector_def emits_def)

lemma test_collect [simp]:
  "collect test_collector es r = (es @ [ElemRecord r], Ok ())"
  "collect_watermark test_collector es w = (es @ [ElemWatermark w], Ok ())"
  "collect_barrier test_collector es b = (es @ [ElemBarrier b], Ok ())"
  by (simp_all add: test_collector_def)

lemma test_collect_all [simp]: "collect_all test_collector es rs = (es @ map ElemRecord rs, Ok ())"
  by (induction rs arbitrary: es) auto

subsection \<open>Collectors over a non-blocking send\<close>

text \<open>
  What the channel-backed collectors rely on: \<open>try_send\<close> either accepts the value at the end of the
  queue or rejects it and leaves the queue as it was. The ring buffer provides it
  (theory \<open>Ring_Buffer\<close>); for \<open>tokio::sync::mpsc\<close> it is the documented behaviour.
\<close>

locale sender_laws =
  fixes try_send :: "'ch \<Rightarrow> 'a \<Rightarrow> 'ch \<times> bool"
    and queued :: "'ch \<Rightarrow> 'a list"
    and valid :: "'ch \<Rightarrow> bool"
  assumes send_accept: "valid ch \<Longrightarrow> try_send ch x = (ch', True) \<Longrightarrow> queued ch' = queued ch @ [x]"
    and send_reject: "valid ch \<Longrightarrow> try_send ch x = (ch', False) \<Longrightarrow> queued ch' = queued ch"
    and send_valid: "valid ch \<Longrightarrow> valid (fst (try_send ch x))"

text \<open>\<open>self.tx.try_send(element).map_err(|_| FlumeError::ChannelClosed)\<close>.\<close>

definition send_or_closed :: "('ch \<Rightarrow> 'a stream_element \<Rightarrow> 'ch \<times> bool) \<Rightarrow>
    'ch \<Rightarrow> 'a stream_element \<Rightarrow> 'ch \<times> unit res" where
  "send_or_closed snd_op ch e =
     (case snd_op ch e of (ch', ok) \<Rightarrow> (ch', if ok then Ok () else Err ChannelClosed))"

definition channel_collector :: "('ch \<Rightarrow> 'a stream_element \<Rightarrow> 'ch \<times> bool) \<Rightarrow> ('ch, 'a) collector" where
  "channel_collector snd_op = \<lparr>
     collect = (\<lambda>ch r. send_or_closed snd_op ch (ElemRecord r)),
     collect_watermark = (\<lambda>ch w. send_or_closed snd_op ch (ElemWatermark w)),
     collect_barrier = (\<lambda>ch b. send_or_closed snd_op ch (ElemBarrier b))\<rparr>"

lemma send_or_closed_emits:
  assumes "sender_laws snd_op q v" and "v ch"
  shows "emits q ch e (send_or_closed snd_op ch e)" and "v (fst (send_or_closed snd_op ch e))"
proof -
  obtain ch' ok where call: "snd_op ch e = (ch', ok)" by (cases "snd_op ch e")
  show "emits q ch e (send_or_closed snd_op ch e)"
    using call sender_laws.send_accept [OF assms, of e ch'] sender_laws.send_reject [OF assms, of e ch']
    by (cases ok) (auto simp: send_or_closed_def emits_def)
  show "v (fst (send_or_closed snd_op ch e))"
    using call sender_laws.send_valid [OF assms, of e] by (simp add: send_or_closed_def)
qed

lemma channel_collector_laws:
  "sender_laws snd_op q v \<Longrightarrow> collector_laws (channel_collector snd_op) q v"
  by unfold_locales (auto simp: channel_collector_def intro: send_or_closed_emits)

text \<open>
  A sender that satisfies the contract: a queue that refuses a send when \<open>n\<close> elements are waiting, as
  \<open>tokio::sync::mpsc\<close> documents for a bounded channel.
\<close>

definition bounded_try_send :: "nat \<Rightarrow> 'a list \<Rightarrow> 'a \<Rightarrow> 'a list \<times> bool" where
  "bounded_try_send n q x = (if length q < n then (q @ [x], True) else (q, False))"

interpretation bounded: sender_laws "bounded_try_send n" "\<lambda>q. q" "\<lambda>_. True"
  by unfold_locales (auto simp: bounded_try_send_def split: if_splits)

end
