(* ===== verification/Basic_Operators.thy ===== *)
theory Basic_Operators
  imports Collectors "HOL-Library.Sublist"
begin

text \<open>
  The \<open>Operator\<close> interface (\<open>flume-core/src/traits/operator.rs\<close>), the record-at-a-time operators
  of \<open>flume-core/src/operator/\<close> (map, filter, flat map) and the key-by operator of
  \<open>flume-api/src/datastream.rs\<close>, and the synchronous test harness
  (\<open>flume-runtime/src/test_harness.rs\<close>).

  A closure of type \<open>FnMut\<close> is a function that takes and returns the state it captured. The locale
  \<open>elementwise_operator\<close> is the contract the four operators share: a record is replaced by a list of
  records, everything else is forwarded.
\<close>

subsection \<open>The operator interface\<close>

text \<open>
  \<open>&mut self\<close> and \<open>&mut dyn Collector\<close> are passed and returned; an error does not roll either back.
\<close>

record ('op, 'c, 'i, 'o) operator =
  process_record :: "'op \<Rightarrow> 'i flume_record \<Rightarrow> ('c, 'o) collector \<Rightarrow> 'c \<Rightarrow> 'op \<times> 'c \<times> unit res"
  process_watermark :: "'op \<Rightarrow> watermark \<Rightarrow> ('c, 'o) collector \<Rightarrow> 'c \<Rightarrow> 'op \<times> 'c \<times> unit res"
  process_barrier :: "'op \<Rightarrow> checkpoint_barrier \<Rightarrow> ('c, 'o) collector \<Rightarrow> 'c \<Rightarrow> 'op \<times> 'c \<times> unit res"

definition default_process_watermark ::
  "'op \<Rightarrow> watermark \<Rightarrow> ('c, 'o) collector \<Rightarrow> 'c \<Rightarrow> 'op \<times> 'c \<times> unit res" where
  "default_process_watermark op w col c = (op, collect_watermark col c w)"

definition default_process_barrier ::
  "'op \<Rightarrow> checkpoint_barrier \<Rightarrow> ('c, 'o) collector \<Rightarrow> 'c \<Rightarrow> 'op \<times> 'c \<times> unit res" where
  "default_process_barrier op b col c = (op, collect_barrier col c b)"

text \<open>Hand one element to the method for its kind, and a sequence of elements up to the first failure.\<close>

primrec operator_step :: "('op, 'c, 'i, 'o) operator \<Rightarrow> ('c, 'o) collector \<Rightarrow>
    'i stream_element \<Rightarrow> 'op \<Rightarrow> 'c \<Rightarrow> 'op \<times> 'c \<times> unit res" where
  "operator_step opr col (ElemRecord r) s c = process_record opr s r col c"
| "operator_step opr col (ElemWatermark w) s c = process_watermark opr s w col c"
| "operator_step opr col (ElemBarrier b) s c = process_barrier opr s b col c"

fun operator_run :: "('op, 'c, 'i, 'o) operator \<Rightarrow> ('c, 'o) collector \<Rightarrow>
    'i stream_element list \<Rightarrow> 'op \<Rightarrow> 'c \<Rightarrow> 'op \<times> 'c \<times> unit res" where
  "operator_run opr col [] s c = (s, c, Ok ())"
| "operator_run opr col (e # es) s c =
     (case operator_step opr col e s c of
        (s', c', Ok _) \<Rightarrow> operator_run opr col es s' c'
      | (s', c', Err err) \<Rightarrow> (s', c', Err err)
      | (s', c', Panic p) \<Rightarrow> (s', c', Panic p))"

lemma operator_run_append:
  "operator_run opr col (es @ es') s c =
     (case operator_run opr col es s c of
        (s', c', Ok _) \<Rightarrow> operator_run opr col es' s' c'
      | (s', c', Err err) \<Rightarrow> (s', c', Err err)
      | (s', c', Panic p) \<Rightarrow> (s', c', Panic p))"
  by (induction es arbitrary: s c) (auto split: prod.splits res.splits)

subsection \<open>Map, filter, flat map, key by\<close>

definition map_operator :: "('s \<Rightarrow> 'i \<Rightarrow> 'o \<times> 's) \<Rightarrow> ('s, 'c, 'i, 'o) operator" where
  "map_operator f = \<lparr>
     process_record = (\<lambda>s rec col c.
       let (v, s') = f s (rec_value rec); mapped = record_map (\<lambda>_. v) rec
       in (s', collect col c mapped)),
     process_watermark = default_process_watermark,
     process_barrier = default_process_barrier\<rparr>"

definition filter_operator :: "('s \<Rightarrow> 'i \<Rightarrow> bool \<times> 's) \<Rightarrow> ('s, 'c, 'i, 'i) operator" where
  "filter_operator predicate = \<lparr>
     process_record = (\<lambda>s rec col c.
       let (keep, s') = predicate s (rec_value rec)
       in (s', if keep then and_then (collect col c rec) (\<lambda>c'. (c', Ok ())) else (c, Ok ()))),
     process_watermark = default_process_watermark,
     process_barrier = default_process_barrier\<rparr>"

definition flat_map_operator :: "('s \<Rightarrow> 'i \<Rightarrow> 'o list \<times> 's) \<Rightarrow> ('s, 'c, 'i, 'o) operator" where
  "flat_map_operator f = \<lparr>
     process_record = (\<lambda>s rec col c.
       let (outputs, s') = f s (rec_value rec)
       in (s', collect_all col c (map (\<lambda>value. record_new value (rec_timestamp rec)) outputs))),
     process_watermark = default_process_watermark,
     process_barrier = default_process_barrier\<rparr>"

text \<open>
  \<open>hash\<close> is what \<open>DefaultHasher\<close> computes for a key, a \<open>u64\<close>; the key of the record is its
  little-endian bytes. \<open>hash_key\<close> is the same computation of \<open>connected.rs\<close>.
\<close>

definition hash_key :: "('k \<Rightarrow> u64) \<Rightarrow> 'k \<Rightarrow> bytes" where
  "hash_key hash key = u64_to_le_bytes (hash key)"

definition key_by_operator :: "('k \<Rightarrow> u64) \<Rightarrow> ('s \<Rightarrow> 'i \<Rightarrow> 'k \<times> 's) \<Rightarrow> ('s, 'c, 'i, 'i) operator" where
  "key_by_operator hash key_extractor = \<lparr>
     process_record = (\<lambda>s rec col c.
       let (key, s') = key_extractor s (rec_value rec);
           bytes_of_hash = u64_to_le_bytes (hash key)
       in (s', collect col c (rec\<lparr>rec_key := Some bytes_of_hash\<rparr>))),
     process_watermark = (\<lambda>s w col c. (s, collect_watermark col c w)),
     process_barrier = (\<lambda>s b col c. (s, collect_barrier col c b))\<rparr>"

subsection \<open>The shared contract\<close>

text \<open>
  \<open>expand s r\<close> are the records that replace \<open>r\<close> and the next state; \<open>elementwise\<close> is the output
  stream this prescribes.
\<close>

fun elementwise :: "('s \<Rightarrow> 'i flume_record \<Rightarrow> 'o flume_record list \<times> 's) \<Rightarrow> 's \<Rightarrow>
    'i stream_element list \<Rightarrow> 'o stream_element list \<times> 's" where
  "elementwise expand s [] = ([], s)"
| "elementwise expand s (ElemRecord r # es) =
     (let (rs, s') = expand s r; (out, s'') = elementwise expand s' es in (map ElemRecord rs @ out, s''))"
| "elementwise expand s (ElemWatermark w # es) =
     (let (out, s') = elementwise expand s es in (ElemWatermark w # out, s'))"
| "elementwise expand s (ElemBarrier b # es) =
     (let (out, s') = elementwise expand s es in (ElemBarrier b # out, s'))"

locale elementwise_operator =
  fixes opr :: "('s, 'c, 'i, 'o) operator"
    and expand :: "'s \<Rightarrow> 'i flume_record \<Rightarrow> 'o flume_record list \<times> 's"
  assumes record_step: "process_record opr s r col c = (snd (expand s r), collect_all col c (fst (expand s r)))"
    and watermark_step: "process_watermark opr s w col c = (s, collect_watermark col c w)"
    and barrier_step: "process_barrier opr s b col c = (s, collect_barrier col c b)"
begin

lemmas steps = record_step watermark_step barrier_step

end

locale elementwise_into = elementwise_operator opr expand + collector_laws col out inv
  for opr :: "('s, 'c, 'i, 'o) operator" and expand :: "'s \<Rightarrow> 'i flume_record \<Rightarrow> 'o flume_record list \<times> 's"
    and col :: "('c, 'o) collector" and out :: "'c \<Rightarrow> 'o stream_element list" and inv :: "'c \<Rightarrow> bool"
begin

text \<open>One element: its whole expansion on success, a prefix of it on an error, never a panic.\<close>

lemma step_emits:
  assumes "inv c" and "operator_step opr col e s c = (s', c', r)"
  shows "inv c' \<and> s' = snd (elementwise expand s [e]) \<and>
    (if r = Ok () then out c' = out c @ fst (elementwise expand s [e])
     else (\<exists>err. r = Err err) \<and> (\<exists>xs. prefix xs (fst (elementwise expand s [e])) \<and> out c' = out c @ xs))"
proof (cases e)
  case (ElemRecord rec)
  with assms have call: "collect_all col c (fst (expand s rec)) = (c', r)" and s': "s' = snd (expand s rec)"
    by (auto simp: steps)
  from collect_all_emits [OF assms(1) call] s' show ?thesis
    by (auto simp: ElemRecord take_is_prefix simp flip: take_map split: prod.split if_splits)
next
  case (ElemWatermark w)
  with assms watermark_emits [OF assms(1), of w] watermark_inv [OF assms(1), of w] show ?thesis
    by (auto simp: steps emits_def)
next
  case (ElemBarrier b)
  with assms barrier_emits [OF assms(1), of b] barrier_inv [OF assms(1), of b] show ?thesis
    by (auto simp: steps emits_def)
qed

lemma elementwise_Cons:
  "elementwise expand s (e # es) =
     (fst (elementwise expand s [e]) @ fst (elementwise expand (snd (elementwise expand s [e])) es),
      snd (elementwise expand (snd (elementwise expand s [e])) es))"
  by (cases e) (auto split: prod.splits)

lemma run_emits:
  assumes "inv c" and "operator_run opr col es s c = (s', c', r)"
  shows "inv c' \<and>
    (if r = Ok () then out c' = out c @ fst (elementwise expand s es) \<and> s' = snd (elementwise expand s es)
     else (\<exists>err. r = Err err) \<and> (\<exists>xs. prefix xs (fst (elementwise expand s es)) \<and> out c' = out c @ xs))"
  using assms
proof (induction es arbitrary: s c)
  case (Cons e es)
  obtain s1 c1 r1 where step: "operator_step opr col e s c = (s1, c1, r1)" by (cases "operator_step opr col e s c")
  note s = step_emits [OF Cons.prems(1) step]
  let ?o1 = "fst (elementwise expand s [e])" and ?o2 = "fst (elementwise expand s1 es)"
  show ?case
  proof (cases "r1 = Ok ()")
    case True
    with Cons.prems(2) step have run: "operator_run opr col es s1 c1 = (s', c', r)" by simp
    from s True have inv1: "inv c1" and s1: "s1 = snd (elementwise expand s [e])"
      and out1: "out c1 = out c @ ?o1" by auto
    with Cons.IH [OF inv1 run] show ?thesis
      unfolding elementwise_Cons [of s e es] s1 [symmetric] by (auto split: if_splits)
  next
    case False
    with s obtain err xs where r1: "r1 = Err err" and xs: "prefix xs ?o1" "out c1 = out c @ xs" and "inv c1"
      by auto
    with Cons.prems(2) step have "r = Err err" "c' = c1" by simp_all
    moreover have "prefix xs (?o1 @ ?o2)" using xs(1) by (rule prefix_prefix)
    ultimately show ?thesis
      using xs \<open>inv c1\<close> s unfolding elementwise_Cons [of s e es] by auto
  qed
qed simp

end

text \<open>Into the test harness' vector the run never fails.\<close>

locale elementwise_test = elementwise_operator opr expand
  for opr :: "('s, 'o test_collector, 'i, 'o) operator"
    and expand :: "'s \<Rightarrow> 'i flume_record \<Rightarrow> 'o flume_record list \<times> 's"
begin

lemma run_test:
  "operator_run opr test_collector es s out =
     (snd (elementwise expand s es), out @ fst (elementwise expand s es), Ok ())"
proof (induction es arbitrary: s out)
  case (Cons e es)
  then show ?case by (cases e) (simp_all add: steps split: prod.split)
qed simp

end

text \<open>What each operator makes of a record.\<close>

definition map_expand :: "('s \<Rightarrow> 'i \<Rightarrow> 'o \<times> 's) \<Rightarrow> 's \<Rightarrow> 'i flume_record \<Rightarrow> 'o flume_record list \<times> 's" where
  "map_expand f s r =
     ([\<lparr>rec_value = fst (f s (rec_value r)), rec_timestamp = rec_timestamp r, rec_key = rec_key r\<rparr>],
      snd (f s (rec_value r)))"

definition filter_expand :: "('s \<Rightarrow> 'i \<Rightarrow> bool \<times> 's) \<Rightarrow> 's \<Rightarrow> 'i flume_record \<Rightarrow> 'i flume_record list \<times> 's" where
  "filter_expand p s r = (if fst (p s (rec_value r)) then [r] else [], snd (p s (rec_value r)))"

definition flat_map_expand ::
  "('s \<Rightarrow> 'i \<Rightarrow> 'o list \<times> 's) \<Rightarrow> 's \<Rightarrow> 'i flume_record \<Rightarrow> 'o flume_record list \<times> 's" where
  "flat_map_expand f s r =
     (map (\<lambda>v. \<lparr>rec_value = v, rec_timestamp = rec_timestamp r, rec_key = None\<rparr>) (fst (f s (rec_value r))),
      snd (f s (rec_value r)))"

definition key_by_expand :: "('k \<Rightarrow> u64) \<Rightarrow> ('s \<Rightarrow> 'i \<Rightarrow> 'k \<times> 's) \<Rightarrow> 's \<Rightarrow> 'i flume_record \<Rightarrow>
    'i flume_record list \<times> 's" where
  "key_by_expand hash ke s r =
     ([r\<lparr>rec_key := Some (u64_to_le_bytes (hash (fst (ke s (rec_value r)))))\<rparr>], snd (ke s (rec_value r)))"

lemma collect_all_single: "collect_all col c [r] = collect col c r"
  by (auto split: prod.splits res.splits)

interpretation map_op: elementwise_operator "map_operator f" "map_expand f"
  by unfold_locales (simp_all add: map_operator_def map_expand_def default_process_watermark_def
      default_process_barrier_def record_map_def collect_all_single del: collect_all.simps split: prod.split)

interpretation filter_op: elementwise_operator "filter_operator p" "filter_expand p"
  by unfold_locales (auto simp: filter_operator_def filter_expand_def default_process_watermark_def
      default_process_barrier_def and_then_def split: prod.split res.split)

interpretation flat_map_op: elementwise_operator "flat_map_operator f" "flat_map_expand f"
  by unfold_locales (simp_all add: flat_map_operator_def flat_map_expand_def default_process_watermark_def
      default_process_barrier_def record_new_def split: prod.split)

interpretation key_by_op: elementwise_operator "key_by_operator hash ke" "key_by_expand hash ke"
  by unfold_locales (simp_all add: key_by_operator_def key_by_expand_def collect_all_single
      del: collect_all.simps split: prod.split)

interpretation map_test: elementwise_test "map_operator f" "map_expand f" by unfold_locales
interpretation filter_test: elementwise_test "filter_operator p" "filter_expand p" by unfold_locales
interpretation flat_map_test: elementwise_test "flat_map_operator f" "flat_map_expand f" by unfold_locales
interpretation key_by_test: elementwise_test "key_by_operator hash ke" "key_by_expand hash ke" by unfold_locales

interpretation map_into_test: elementwise_into "map_operator f" "map_expand f" test_collector "\<lambda>es. es" "\<lambda>_. True"
  by unfold_locales

subsection \<open>The test harness\<close>

record ('op, 'o) test_harness =
  harness_operator :: 'op
  harness_collector :: "'o test_collector"

type_synonym ('op, 'i, 'o) vec_operator = "('op, 'o test_collector, 'i, 'o) operator"

definition harness_new :: "'op \<Rightarrow> ('op, 'o) test_harness" where
  "harness_new op = \<lparr>harness_operator = op, harness_collector = []\<rparr>"

definition harness_process_record ::
  "('op, 'i, 'o) vec_operator \<Rightarrow> ('op, 'o) test_harness \<Rightarrow> 'i flume_record \<Rightarrow> ('op, 'o) test_harness \<times> unit res"
  where
  "harness_process_record opr h r =
     (case process_record opr (harness_operator h) r test_collector (harness_collector h) of
        (op', c', res) \<Rightarrow> (\<lparr>harness_operator = op', harness_collector = c'\<rparr>, res))"

definition harness_process_record_value ::
  "('op, 'i, 'o) vec_operator \<Rightarrow> ('op, 'o) test_harness \<Rightarrow> 'i \<Rightarrow> event_timestamp \<Rightarrow> ('op, 'o) test_harness \<times> unit res"
  where
  "harness_process_record_value opr h v t = harness_process_record opr h (record_new v t)"

definition harness_process_keyed_record ::
  "('op, 'i, 'o) vec_operator \<Rightarrow> ('op, 'o) test_harness \<Rightarrow> 'i \<Rightarrow> event_timestamp \<Rightarrow> bytes \<Rightarrow>
   ('op, 'o) test_harness \<times> unit res" where
  "harness_process_keyed_record opr h v t k = harness_process_record opr h (with_key (record_new v t) k)"

definition harness_process_watermark ::
  "('op, 'i, 'o) vec_operator \<Rightarrow> ('op, 'o) test_harness \<Rightarrow> event_timestamp \<Rightarrow> ('op, 'o) test_harness \<times> unit res"
  where
  "harness_process_watermark opr h t =
     (case process_watermark opr (harness_operator h) (Watermark t) test_collector (harness_collector h) of
        (op', c', res) \<Rightarrow> (\<lparr>harness_operator = op', harness_collector = c'\<rparr>, res))"

definition harness_process_barrier ::
  "('op, 'i, 'o) vec_operator \<Rightarrow> ('op, 'o) test_harness \<Rightarrow> nat \<Rightarrow> ('op, 'o) test_harness \<times> unit res" where
  "harness_process_barrier opr h i =
     (case process_barrier opr (harness_operator h) (barrier_new i (EventTimestamp 0)) test_collector
         (harness_collector h) of
        (op', c', res) \<Rightarrow> (\<lparr>harness_operator = op', harness_collector = c'\<rparr>, res))"

definition harness_take_output :: "('op, 'o) test_harness \<Rightarrow> 'o stream_element list \<times> ('op, 'o) test_harness" where
  "harness_take_output h = (harness_collector h, h\<lparr>harness_collector := []\<rparr>)"

definition harness_take_records :: "('op, 'o) test_harness \<Rightarrow> 'o flume_record list \<times> ('op, 'o) test_harness" where
  "harness_take_records h = (case harness_take_output h of (es, h') \<Rightarrow> (records_of es, h'))"

definition harness_take_values :: "('op, 'o) test_harness \<Rightarrow> 'o list \<times> ('op, 'o) test_harness" where
  "harness_take_values h = (case harness_take_records h of (rs, h') \<Rightarrow> (map rec_value rs, h'))"

definition harness_output_len :: "('op, 'o) test_harness \<Rightarrow> nat" where
  "harness_output_len h = length (harness_collector h)"

subsection \<open>Properties\<close>

text \<open>Over any stream, the map, filter, flat-map and key-by operators emit exactly the stream
  in which each record is replaced by its image (the key kept by map and filter, dropped by flat map,
  set to the hash bytes by key by) and each watermark and barrier stays at its place; the state of the
  closure is threaded through the records in order.\<close>

lemma basic_operators_run:
  "operator_run (map_operator f) test_collector es s out =
     (snd (elementwise (map_expand f) s es), out @ fst (elementwise (map_expand f) s es), Ok ()) \<and>
   operator_run (filter_operator p) test_collector es' t out' =
     (snd (elementwise (filter_expand p) t es'), out' @ fst (elementwise (filter_expand p) t es'), Ok ()) \<and>
   operator_run (flat_map_operator g) test_collector es'' u out'' =
     (snd (elementwise (flat_map_expand g) u es''), out'' @ fst (elementwise (flat_map_expand g) u es''), Ok ()) \<and>
   operator_run (key_by_operator hash ke) test_collector es3 v out3 =
     (snd (elementwise (key_by_expand hash ke) v es3), out3 @ fst (elementwise (key_by_expand hash ke) v es3), Ok ())"
  by (intro conjI map_test.run_test filter_test.run_test flat_map_test.run_test key_by_test.run_test)

text \<open>Over a channel that may refuse a send, a flat-map run that fails reports \<open>ChannelClosed\<close>'s
  kind of error, never a panic, and what reached the channel is a prefix of the stream it should have
  emitted: no element is skipped, repeated or reordered.\<close>

lemma flat_map_run_prefix:
  assumes "sender_laws snd_op queued valid" and "valid ch"
    and "operator_run (flat_map_operator g) (channel_collector snd_op) es s ch = (s', ch', r)"
  shows "\<exists>xs. prefix xs (fst (elementwise (flat_map_expand g) s es)) \<and> queued ch' = queued ch @ xs \<and>
    (r = Ok () \<longrightarrow> xs = fst (elementwise (flat_map_expand g) s es)) \<and> (\<forall>p. r \<noteq> Panic p)"
proof -
  have "elementwise_into (flat_map_operator g) (flat_map_expand g) (channel_collector snd_op) queued valid"
    by (intro elementwise_into.intro flat_map_op.elementwise_operator_axioms channel_collector_laws assms)
  from elementwise_into.run_emits [OF this assms(2,3)] show ?thesis
    by (auto split: if_splits)
qed

lemma flat_map_run_prefix_example:
  "\<exists>s' ch' r xs. operator_run (flat_map_operator (\<lambda>s v. ([v, v + 1], s))) (channel_collector (bounded_try_send 1))
     [ElemRecord (record_new (5::int) ts_MIN)] () [] = (s', ch', r) \<and>
     r = Err ChannelClosed \<and> ch' = xs \<and> length xs = 1 \<and>
     prefix xs (fst (elementwise (flat_map_expand (\<lambda>s v. ([v, v + 1], s))) () [ElemRecord (record_new (5::int) ts_MIN)]))"
proof -
  let ?g = "\<lambda>(s::unit) (v::int). ([v, v + 1], s)"
  have run: "operator_run (flat_map_operator ?g) (channel_collector (bounded_try_send 1))
      [ElemRecord (record_new 5 ts_MIN)] () [] = ((), [ElemRecord (record_new 5 ts_MIN)], Err ChannelClosed)"
    by (simp add: flat_map_operator_def channel_collector_def send_or_closed_def bounded_try_send_def)
  from flat_map_run_prefix [OF bounded.sender_laws_axioms TrueI run] show ?thesis
    unfolding run by auto
qed

end
