(* ===== verification/Decimals.thy ===== *)
theory Decimals
  imports Flume_Prelude
begin

text \<open>
  Printing a number with \<open>format!\<close> and reading one with \<open>str::parse\<close>, as the snapshot store does with checkpoint ids
  and the job manager with subtask indices.
\<close>

text \<open>\<open>format!("{id}")\<close> and \<open>str::parse::<u64>\<close>: an optional plus sign, at least one digit, no overflow.\<close>

definition digit_char :: "nat \<Rightarrow> char" where "digit_char d = char_of (48 + d)"

fun nat_to_string :: "nat \<Rightarrow> string" where
  "nat_to_string n = (if n < 10 then [digit_char n] else nat_to_string (n div 10) @ [digit_char (n mod 10)])"

declare nat_to_string.simps [simp del]

definition digit_value :: "char \<Rightarrow> nat option" where
  "digit_value c = (let n = of_char c :: nat in if 48 \<le> n \<and> n \<le> 57 then Some (n - 48) else None)"

fun parse_digits :: "nat \<Rightarrow> string \<Rightarrow> nat option" where
  "parse_digits acc [] = Some acc"
| "parse_digits acc (c # cs) =
     (case digit_value c of
        None \<Rightarrow> None
      | Some d \<Rightarrow> if acc * 10 + d < 2 ^ 64 then parse_digits (acc * 10 + d) cs else None)"

definition parse_u64 :: "string \<Rightarrow> nat option" where
  "parse_u64 s =
     (case s of
        [] \<Rightarrow> None
      | c # cs \<Rightarrow> if c = CHR ''+'' then (if cs = [] then None else parse_digits 0 cs) else parse_digits 0 s)"

lemma digit_value_char [simp]: "d < 10 \<Longrightarrow> digit_value (digit_char d) = Some d"
  by (simp add: digit_value_def digit_char_def)

lemma parse_digits_append:
  "parse_digits acc (xs @ ys) = (case parse_digits acc xs of None \<Rightarrow> None | Some v \<Rightarrow> parse_digits v ys)"
  by (induction xs arbitrary: acc) (auto split: option.split)

lemma parse_digits_print: "n < 2 ^ 64 \<Longrightarrow> parse_digits 0 (nat_to_string n) = Some n"
proof (induction n rule: nat_to_string.induct)
  case (1 n)
  show ?case
  proof (cases "n < 10")
    case True
    with 1(2) show ?thesis by (simp add: nat_to_string.simps [of n])
  next
    case False
    with 1 have "parse_digits 0 (nat_to_string (n div 10)) = Some (n div 10)" by simp
    with False 1(2) show ?thesis by (simp add: nat_to_string.simps [of n] parse_digits_append)
  qed
qed

lemma nat_to_string_head: "\<exists>d cs. d < 10 \<and> nat_to_string n = digit_char d # cs"
proof (induction n rule: nat_to_string.induct)
  case (1 n)
  then show ?case by (cases "n < 10") (auto simp: nat_to_string.simps [of n])
qed

lemma digit_char_not_plus: "d < 10 \<Longrightarrow> digit_char d \<noteq> CHR ''+''"
proof
  assume "d < 10" "digit_char d = CHR ''+''"
  then have "digit_value (CHR ''+'') = Some d" by (metis digit_value_char)
  then show False by (simp add: digit_value_def)
qed

lemma parse_print [simp]: "n < 2 ^ 64 \<Longrightarrow> parse_u64 (nat_to_string n) = Some n"
  using nat_to_string_head [of n] digit_char_not_plus parse_digits_print [of n]
  by (auto simp: parse_u64_def)

lemma nat_to_string_not_Nil [simp]: "nat_to_string n \<noteq> []"
  using nat_to_string_head [of n] by auto

lemma digit_char_inject: "d < 10 \<Longrightarrow> e < 10 \<Longrightarrow> digit_char d = digit_char e \<Longrightarrow> d = e"
  by (metis digit_value_char option.inject)

lemma nat_to_string_inject: "nat_to_string a = nat_to_string b \<longleftrightarrow> a = b"
proof
  show "nat_to_string a = nat_to_string b \<Longrightarrow> a = b"
  proof (induction a arbitrary: b rule: nat_to_string.induct)
    case (1 a)
    consider "a < 10" "b < 10" | "10 \<le> a" "10 \<le> b" | "a < 10 \<longleftrightarrow> 10 \<le> b" by linarith
    then show ?case
    proof cases
      case 1
      with "1.prems" show ?thesis by (simp add: nat_to_string.simps [of a] nat_to_string.simps [of b] digit_char_inject)
    next
      case 2
      with "1.prems" have "nat_to_string (a div 10) = nat_to_string (b div 10)" "digit_char (a mod 10) = digit_char (b mod 10)"
        by (simp_all add: nat_to_string.simps [of a] nat_to_string.simps [of b])
      with "1.IH" [of "b div 10"] 2 have "a div 10 = b div 10" "a mod 10 = b mod 10" by (auto intro: digit_char_inject)
      then show ?thesis by (metis div_mult_mod_eq)
    next
      case 3
      with "1.prems" show ?thesis by (auto simp: nat_to_string.simps [of a] nat_to_string.simps [of b] not_less append_eq_Cons_conv Cons_eq_append_conv)
    qed
  qed
qed simp

end
