(* ===== verification/Configuration.thy ===== *)
theory Configuration
  imports Stream_Types Decimals
begin

text \<open>
  Loading a configuration: \<open>flume-api/src/config.rs\<close> (pipeline) and \<open>flume-server/src/config.rs\<close> (server), and the
  texts of \<open>FlumeError\<close> (\<open>flume-core/src/error.rs\<close>). The TOML parser, the file system, the environment and the messages of
  failed number and address parses are arguments.
\<close>

subsection \<open>Texts of errors\<close>

fun display_error :: "flume_error \<Rightarrow> string" where
  "display_error (SourceError m) = ''source error: '' @ m"
| "display_error (SinkError m) = ''sink error: '' @ m"
| "display_error (OperatorError m) = ''operator error: '' @ m"
| "display_error (SerializationError m) = ''serialization error: '' @ m"
| "display_error (StateError m) = ''state error: '' @ m"
| "display_error (CheckpointError m) = ''checkpoint error: '' @ m"
| "display_error ChannelClosed = ''channel closed''"
| "display_error (ConfigError m) = ''config error: '' @ m"
| "display_error (ExecutionError m) = ''execution error: '' @ m"
| "display_error (NetworkError m) = ''network error: '' @ m"
| "display_error (IoError m) = ''I/O error: '' @ m"

subsection \<open>The environment overlay\<close>

type_synonym env = "string \<Rightarrow> string option"

definition parse_env :: "(string \<Rightarrow> string) \<Rightarrow> string \<Rightarrow> string \<Rightarrow> nat res" where
  "parse_env show_parse name val =
     (case parse_u64 val of
        Some n \<Rightarrow> Ok n
      | None \<Rightarrow> Err (ConfigError (''invalid '' @ name @ '': '' @ show_parse val)))"

text \<open>One variable: when it is set, parse it and update the configuration, or fail.\<close>

definition overlay_number ::
  "(string \<Rightarrow> string) \<Rightarrow> env \<Rightarrow> string \<Rightarrow> (nat \<Rightarrow> pipeline_config \<Rightarrow> pipeline_config) \<Rightarrow> pipeline_config \<Rightarrow> pipeline_config res" where
  "overlay_number show_parse env name upd c =
     (case env name of None \<Rightarrow> Ok c | Some val \<Rightarrow> bind_res (parse_env show_parse name val) (\<lambda>n. Ok (upd n c)))"

definition overlay_kind :: "env \<Rightarrow> pipeline_config \<Rightarrow> pipeline_config res" where
  "overlay_kind env c =
     (case env ''FLUME_CHANNEL_KIND'' of
        None \<Rightarrow> Ok c
      | Some val \<Rightarrow>
          if val = ''mpsc'' then Ok (c\<lparr>cfg_channel_kind := Mpsc\<rparr>)
          else if val = ''ring_buffer'' then Ok (c\<lparr>cfg_channel_kind := RingBuffer\<rparr>)
          else Err (ConfigError (''invalid FLUME_CHANNEL_KIND: '' @ [CHR 0x27] @ val @ [CHR 0x27] @ '' (expected '' @ [CHR 0x27] @ ''mpsc'' @
            [CHR 0x27] @ '' or '' @ [CHR 0x27] @ ''ring_buffer'' @ [CHR 0x27] @ '')'')))"

definition apply_env_overlay :: "(string \<Rightarrow> string) \<Rightarrow> env \<Rightarrow> pipeline_config \<Rightarrow> pipeline_config res" where
  "apply_env_overlay show_parse env c0 =
     (let c1 = (case env ''FLUME_JOB_NAME'' of None \<Rightarrow> c0 | Some val \<Rightarrow> c0\<lparr>job_name := val\<rparr>);
          number = overlay_number show_parse env
      in bind_res (number ''FLUME_PARALLELISM'' (\<lambda>n c. c\<lparr>parallelism := n\<rparr>) c1) (\<lambda>c2.
         bind_res (number ''FLUME_CHANNEL_BUFFER_SIZE'' (\<lambda>n c. c\<lparr>channel_buffer_size := n\<rparr>) c2) (\<lambda>c3.
         bind_res (number ''FLUME_CHECKPOINT_INTERVAL_MS'' (\<lambda>n c. c\<lparr>checkpoint_interval := Some n\<rparr>) c3) (\<lambda>c4.
         bind_res (number ''FLUME_ALLOWED_LATENESS_MS'' (\<lambda>n c. c\<lparr>allowed_lateness := n\<rparr>) c4) (\<lambda>c5.
         bind_res (number ''FLUME_CHECKPOINT_TIMEOUT_MS'' (\<lambda>n c. c\<lparr>checkpoint_timeout := n\<rparr>) c5) (\<lambda>c6.
         bind_res (number ''FLUME_MAX_RETAINED_CHECKPOINTS'' (\<lambda>n c. c\<lparr>max_retained_checkpoints := n\<rparr>) c6) (\<lambda>c7.
         overlay_kind env c7)))))))"

text \<open>Reading a file is \<open>read\<close>, with the error's text in the other case; \<open>parse_toml\<close> is the TOML library.\<close>

definition load_toml :: "(string \<Rightarrow> string + string) \<Rightarrow> (string \<Rightarrow> pipeline_config + string) \<Rightarrow> string option \<Rightarrow> pipeline_config res" where
  "load_toml read parse_toml path =
     (case path of
        None \<Rightarrow> Ok default_config
      | Some p \<Rightarrow>
          (case read p of
             Inr e \<Rightarrow> Err (ConfigError (''failed to read '' @ p @ '': '' @ e))
           | Inl contents \<Rightarrow>
               (case parse_toml contents of
                  Inr e \<Rightarrow> Err (ConfigError (''failed to parse TOML: '' @ e))
                | Inl c \<Rightarrow> Ok c)))"

definition load_config where
  "load_config read parse_toml show_parse env path = bind_res (load_toml read parse_toml path) (apply_env_overlay show_parse env)"

text \<open>The server's configuration; an address is a text the library can parse.\<close>

record server_config =
  bind_addr :: string
  srv_pipeline :: pipeline_config
  checkpoint_path :: string

definition default_server_config :: server_config where
  "default_server_config = \<lparr>bind_addr = ''0.0.0.0:8080'', srv_pipeline = default_config, checkpoint_path = ''/tmp/flume/checkpoints''\<rparr>"

definition load_server_config ::
  "(string \<Rightarrow> string + string) \<Rightarrow> (string \<Rightarrow> server_config + string) \<Rightarrow> (string \<Rightarrow> string + string) \<Rightarrow> env \<Rightarrow> string option \<Rightarrow> server_config res" where
  "load_server_config read parse_toml parse_addr env path =
     bind_res
       (case path of
          None \<Rightarrow> Ok default_server_config
        | Some p \<Rightarrow>
            (case read p of
               Inr e \<Rightarrow> Err (ConfigError (''failed to read '' @ p @ '': '' @ e))
             | Inl contents \<Rightarrow> (case parse_toml contents of Inr e \<Rightarrow> Err (ConfigError (''failed to parse TOML: '' @ e)) | Inl c \<Rightarrow> Ok c)))
       (\<lambda>c. bind_res
          (case env ''FLUME_BIND_ADDR'' of
             None \<Rightarrow> Ok c
           | Some val \<Rightarrow> (case parse_addr val of Inr e \<Rightarrow> Err (ConfigError (''invalid FLUME_BIND_ADDR: '' @ e)) | Inl a \<Rightarrow> Ok (c\<lparr>bind_addr := a\<rparr>)))
          (\<lambda>c1. Ok (case env ''FLUME_CHECKPOINT_DIR'' of None \<Rightarrow> c1 | Some val \<Rightarrow> c1\<lparr>checkpoint_path := val\<rparr>)))"

subsection \<open>What the overlay does\<close>

text \<open>A set variable that parses wins, an unset one leaves the field alone.\<close>

definition env_or :: "env \<Rightarrow> string \<Rightarrow> nat \<Rightarrow> nat" where
  "env_or env name dflt = (case env name of None \<Rightarrow> dflt | Some val \<Rightarrow> the (parse_u64 val))"

lemma overlay_number_upd:
  assumes "overlay_number show_parse env name upd c = Ok c'" and "upd (field c) c = c"
  shows "c' = upd (env_or env name (field c)) c"
  using assms by (cases "env name"; cases "parse_u64 (the (env name))") (auto simp: overlay_number_def parse_env_def env_or_def)

lemma overlay_number_frame:
  assumes "overlay_number show_parse env name (\<lambda>n. checkpoint_interval_update (\<lambda>_. Some n)) c = Ok c'"
  shows "\<exists>i. c' = c\<lparr>checkpoint_interval := i\<rparr>"
proof (cases "env name")
  case None
  with assms show ?thesis by (intro exI [of _ "checkpoint_interval c"]) (simp add: overlay_number_def)
next
  case (Some val)
  with assms show ?thesis by (cases "parse_u64 val") (auto simp: overlay_number_def parse_env_def)
qed

lemma overlay_kind_frame: "overlay_kind env c = Ok c' \<Longrightarrow> \<exists>k. c' = c\<lparr>cfg_channel_kind := k\<rparr>"
proof (cases "env ''FLUME_CHANNEL_KIND''")
  case None
  moreover assume "overlay_kind env c = Ok c'"
  ultimately show ?thesis by (intro exI [of _ "cfg_channel_kind c"]) (simp add: overlay_kind_def)
qed (auto simp: overlay_kind_def split: if_splits)

lemma overlay_exact:
  assumes "apply_env_overlay show_parse env c = Ok c'"
  shows "parallelism c' = env_or env ''FLUME_PARALLELISM'' (parallelism c)"
    and "channel_buffer_size c' = env_or env ''FLUME_CHANNEL_BUFFER_SIZE'' (channel_buffer_size c)"
    and "allowed_lateness c' = env_or env ''FLUME_ALLOWED_LATENESS_MS'' (allowed_lateness c)"
    and "checkpoint_timeout c' = env_or env ''FLUME_CHECKPOINT_TIMEOUT_MS'' (checkpoint_timeout c)"
    and "max_retained_checkpoints c' = env_or env ''FLUME_MAX_RETAINED_CHECKPOINTS'' (max_retained_checkpoints c)"
    and "job_name c' = (case env ''FLUME_JOB_NAME'' of None \<Rightarrow> job_name c | Some val \<Rightarrow> val)"
proof -
  define c1 where "c1 = c\<lparr>job_name := (case env ''FLUME_JOB_NAME'' of None \<Rightarrow> job_name c | Some val \<Rightarrow> val)\<rparr>"
  have "(case env ''FLUME_JOB_NAME'' of None \<Rightarrow> c | Some val \<Rightarrow> c\<lparr>job_name := val\<rparr>) = c1"
    by (simp add: c1_def split: option.split)
  with assms obtain c2 c3 c4 c5 c6 c7 where
    n: "overlay_number show_parse env ''FLUME_PARALLELISM'' (\<lambda>n c. c\<lparr>parallelism := n\<rparr>) c1 = Ok c2"
       "overlay_number show_parse env ''FLUME_CHANNEL_BUFFER_SIZE'' (\<lambda>n c. c\<lparr>channel_buffer_size := n\<rparr>) c2 = Ok c3"
       "overlay_number show_parse env ''FLUME_CHECKPOINT_INTERVAL_MS'' (\<lambda>n c. c\<lparr>checkpoint_interval := Some n\<rparr>) c3 = Ok c4"
       "overlay_number show_parse env ''FLUME_ALLOWED_LATENESS_MS'' (\<lambda>n c. c\<lparr>allowed_lateness := n\<rparr>) c4 = Ok c5"
       "overlay_number show_parse env ''FLUME_CHECKPOINT_TIMEOUT_MS'' (\<lambda>n c. c\<lparr>checkpoint_timeout := n\<rparr>) c5 = Ok c6"
       "overlay_number show_parse env ''FLUME_MAX_RETAINED_CHECKPOINTS'' (\<lambda>n c. c\<lparr>max_retained_checkpoints := n\<rparr>) c6 = Ok c7"
       "overlay_kind env c7 = Ok c'"
    by (auto simp: apply_env_overlay_def Let_def bind_res_Ok_iff)
  obtain i k where c4: "c4 = c3\<lparr>checkpoint_interval := i\<rparr>" and c': "c' = c7\<lparr>cfg_channel_kind := k\<rparr>"
    using overlay_number_frame [OF n(3)] overlay_kind_frame [OF n(7)] by blast
  note eqs = overlay_number_upd [OF n(1), of parallelism, simplified] overlay_number_upd [OF n(2), of channel_buffer_size, simplified]
    overlay_number_upd [OF n(4), of allowed_lateness, simplified] overlay_number_upd [OF n(5), of checkpoint_timeout, simplified]
    overlay_number_upd [OF n(6), of max_retained_checkpoints, simplified]
  show "parallelism c' = env_or env ''FLUME_PARALLELISM'' (parallelism c)"
    "channel_buffer_size c' = env_or env ''FLUME_CHANNEL_BUFFER_SIZE'' (channel_buffer_size c)"
    "allowed_lateness c' = env_or env ''FLUME_ALLOWED_LATENESS_MS'' (allowed_lateness c)"
    "checkpoint_timeout c' = env_or env ''FLUME_CHECKPOINT_TIMEOUT_MS'' (checkpoint_timeout c)"
    "max_retained_checkpoints c' = env_or env ''FLUME_MAX_RETAINED_CHECKPOINTS'' (max_retained_checkpoints c)"
    "job_name c' = (case env ''FLUME_JOB_NAME'' of None \<Rightarrow> job_name c | Some val \<Rightarrow> val)"
    by (simp_all add: c' c4 eqs c1_def)
qed

end
