(* ===== verification/Ring_Buffer.thy ===== *)
theory Ring_Buffer
  imports Collectors
begin

text \<open>
  \<open>flume-runtime/src/ring_buffer.rs\<close>: the bounded single-producer single-consumer queue between two
  operators. Three readings of the same code: \<open>try_send\<close> and \<open>try_recv\<close> as functions on the whole
  state; the same two operations as interleaved atomic steps of two threads, refined to a FIFO queue;
  and the parking consumer of \<open>recv\<close>. Interleavings are sequentially consistent: the release/acquire
  pairs of the code order the slot accesses around the sequence numbers. Sequence numbers are
  naturals (fewer than \<open>2 ^ 64\<close> sends).

  \<open>tokio::sync::Notify\<close> is a parameter: its two operations with the documented law that at most one
  permit is stored.
\<close>

unbundle bit_operations_syntax

locale notify_laws =
  fixes notify_one :: "'n \<Rightarrow> 'n"
    and take_permit :: "'n \<Rightarrow> 'n option"
    and permit :: "'n \<Rightarrow> bool"
  assumes notify_permit: "permit (notify_one n)"
    and take_some: "permit n \<Longrightarrow> \<exists>n'. take_permit n = Some n' \<and> \<not> permit n'"
    and take_none: "\<not> permit n \<Longrightarrow> take_permit n = None"

text \<open>The smallest instance: a flag.\<close>

interpretation flag_notify: notify_laws "\<lambda>_. True" "\<lambda>n. if n then Some False else None" "\<lambda>n. n"
  by unfold_locales auto

subsection \<open>State and sequential operations\<close>

record ('a, 'n) ring =
  rb_buffer :: "'a option list"
  rb_mask :: nat
  write_seq :: nat
  read_seq :: nat
  rb_closed :: bool
  rb_notify :: 'n
  cached_read_seq :: nat
  cached_write_seq :: nat

text \<open>\<open>usize::next_power_of_two\<close>.\<close>

function pow2_from :: "nat \<Rightarrow> nat \<Rightarrow> nat" where
  "pow2_from p n = (if n \<le> p \<or> p = 0 then p else pow2_from (2 * p) n)"
  by pat_completeness auto
termination by (relation "measure (\<lambda>(p, n). n - p)") auto

declare pow2_from.simps [simp del]

definition next_power_of_two :: "nat \<Rightarrow> nat" where "next_power_of_two n = pow2_from 1 n"

definition ring_buffer :: "nat \<Rightarrow> 'n \<Rightarrow> ('a, 'n) ring" where
  "ring_buffer capacity n =
     (let cap = max (next_power_of_two capacity) 2
      in \<lparr>rb_buffer = replicate cap None, rb_mask = cap - 1, write_seq = 0, read_seq = 0, rb_closed = False,
          rb_notify = n, cached_read_seq = 0, cached_write_seq = 0\<rparr>)"

definition slot :: "('a, 'n) ring \<Rightarrow> nat \<Rightarrow> nat" where "slot s q = q AND rb_mask s"

text \<open>\<open>False\<close> is \<open>Err(Full(value))\<close>.\<close>

definition try_send :: "('n \<Rightarrow> 'n) \<Rightarrow> ('a, 'n) ring \<Rightarrow> 'a \<Rightarrow> ('a, 'n) ring \<times> bool" where
  "try_send notify_one s v =
     (let w = write_seq s;
          s1 = (if rb_mask s < w - cached_read_seq s then s\<lparr>cached_read_seq := read_seq s\<rparr> else s)
      in if rb_mask s < w - cached_read_seq s1 then (s1, False)
         else
           (let s2 = s1\<lparr>rb_buffer := (rb_buffer s1)[slot s1 w := Some v]\<rparr>;
                s3 = s2\<lparr>write_seq := w + 1\<rparr>;
                s4 = (if w = cached_read_seq s3 then s3\<lparr>rb_notify := notify_one (rb_notify s3)\<rparr> else s3)
            in (s4, True)))"

definition drop_producer :: "('n \<Rightarrow> 'n) \<Rightarrow> ('a, 'n) ring \<Rightarrow> ('a, 'n) ring" where
  "drop_producer notify_one s = s\<lparr>rb_closed := True, rb_notify := notify_one (rb_notify s)\<rparr>"

text \<open>Reading a slot that was never written is undefined behaviour; the model makes it a panic.\<close>

definition try_recv :: "('a, 'n) ring \<Rightarrow> ('a, 'n) ring \<times> 'a option res" where
  "try_recv s =
     (let r = read_seq s;
          s1 = (if cached_write_seq s \<le> r then s\<lparr>cached_write_seq := write_seq s\<rparr> else s)
      in if cached_write_seq s1 \<le> r then (s1, Ok None)
         else case rb_buffer s1 ! slot s1 r of
                Some v \<Rightarrow> (s1\<lparr>read_seq := r + 1\<rparr>, Ok (Some v))
              | None \<Rightarrow> (s1, Panic ''uninitialised slot''))"

text \<open>Dropping the shared state drops what was written and not consumed.\<close>

definition drop_inner :: "('a, 'n) ring \<Rightarrow> 'a option list" where
  "drop_inner s = map (\<lambda>q. rb_buffer s ! slot s q) [read_seq s..<write_seq s]"

subsection \<open>Invariant and abstraction\<close>

definition ring_shape :: "('a, 'n) ring \<Rightarrow> bool" where
  "ring_shape s \<longleftrightarrow> (\<exists>k. rb_mask s = 2 ^ k - 1) \<and> 0 < rb_mask s \<and> length (rb_buffer s) = rb_mask s + 1"

definition ring_inv :: "('a, 'n) ring \<Rightarrow> bool" where
  "ring_inv s \<longleftrightarrow> ring_shape s \<and> cached_read_seq s \<le> read_seq s \<and> read_seq s \<le> write_seq s \<and>
     write_seq s \<le> cached_read_seq s + rb_mask s + 1 \<and> cached_write_seq s \<le> write_seq s \<and>
     (\<forall>q \<in> {read_seq s..<write_seq s}. rb_buffer s ! slot s q \<noteq> None)"

definition ring_contents :: "('a, 'n) ring \<Rightarrow> 'a list" where
  "ring_contents s = map (\<lambda>q. the (rb_buffer s ! slot s q)) [read_seq s..<write_seq s]"

lemma ring_updates [simp]:
  "slot (s\<lparr>rb_buffer := b\<rparr>) = slot s" "slot (s\<lparr>write_seq := i\<rparr>) = slot s" "slot (s\<lparr>read_seq := i\<rparr>) = slot s"
  "slot (s\<lparr>rb_closed := c\<rparr>) = slot s" "slot (s\<lparr>rb_notify := n\<rparr>) = slot s"
  "slot (s\<lparr>cached_read_seq := i\<rparr>) = slot s" "slot (s\<lparr>cached_write_seq := i\<rparr>) = slot s"
  "ring_shape (s\<lparr>write_seq := i\<rparr>) = ring_shape s" "ring_shape (s\<lparr>read_seq := i\<rparr>) = ring_shape s"
  "ring_shape (s\<lparr>rb_closed := c\<rparr>) = ring_shape s" "ring_shape (s\<lparr>rb_notify := n\<rparr>) = ring_shape s"
  "ring_shape (s\<lparr>cached_read_seq := i\<rparr>) = ring_shape s" "ring_shape (s\<lparr>cached_write_seq := i\<rparr>) = ring_shape s"
  "ring_shape (s\<lparr>rb_buffer := (rb_buffer s)[j := x]\<rparr>) = ring_shape s"
  "ring_contents (s\<lparr>rb_closed := c\<rparr>) = ring_contents s" "ring_contents (s\<lparr>rb_notify := n\<rparr>) = ring_contents s"
  "ring_contents (s\<lparr>cached_read_seq := i\<rparr>) = ring_contents s"
  "ring_contents (s\<lparr>cached_write_seq := i\<rparr>) = ring_contents s"
  by (simp_all add: slot_def fun_eq_iff ring_shape_def ring_contents_def)

lemma pow2_from_power: "\<exists>k. pow2_from (2 ^ j) n = 2 ^ k \<and> n \<le> 2 ^ k"
proof (induction "n - 2 ^ j" arbitrary: j rule: less_induct)
  case less
  show ?case
  proof (cases "n \<le> 2 ^ j")
    case True
    then show ?thesis by (subst pow2_from.simps) auto
  next
    case False
    moreover have "(0 :: nat) < 2 ^ j" by simp
    ultimately have "n - 2 ^ Suc j < n - 2 ^ j" unfolding power_Suc by linarith
    from less [OF this] False show ?thesis by (subst pow2_from.simps) auto
  qed
qed

lemma next_power_of_two_ge: "n \<le> next_power_of_two n \<and> (\<exists>k. next_power_of_two n = 2 ^ k)"
  using pow2_from_power [of 0 n] by (auto simp: next_power_of_two_def)

lemma pow2_from_less: "p < n \<Longrightarrow> 0 < p \<Longrightarrow> pow2_from p n < 2 * n"
proof (induction p n rule: pow2_from.induct)
  case (1 p n)
  then show ?case by (cases "n \<le> 2 * p") (auto simp: pow2_from.simps [of p n] pow2_from.simps [of "2 * p" n])
qed

lemma next_power_of_two_less: "next_power_of_two n < 2 * max n 2"
proof (cases "1 < n")
  case True
  then show ?thesis using pow2_from_less [of 1 n] by (simp add: next_power_of_two_def)
next
  case False
  then have "pow2_from 1 n = 1" by (subst pow2_from.simps) simp
  then show ?thesis by (simp add: next_power_of_two_def)
qed

lemma ring_buffer_shape: "ring_shape (ring_buffer capacity n)"
proof -
  obtain k where k: "next_power_of_two capacity = 2 ^ k" using next_power_of_two_ge by blast
  have "\<exists>j. max (2 ^ k) 2 = (2 :: nat) ^ j"
    by (cases "k = 0") (auto intro: exI [of _ 1] exI [of _ k] simp: max_def self_le_power)
  then obtain j where "max (2 ^ k) 2 = (2 :: nat) ^ j" by blast
  then show ?thesis by (auto simp: ring_shape_def ring_buffer_def k Let_def)
qed

lemma ring_buffer_inv: "ring_inv (ring_buffer capacity n) \<and> ring_contents (ring_buffer capacity n) = []"
  using ring_buffer_shape [of capacity n]
  by (simp add: ring_inv_def ring_contents_def) (simp add: ring_buffer_def Let_def)

lemma slot_mod: "ring_shape s \<Longrightarrow> slot s q = q mod (rb_mask s + 1)"
proof -
  assume "ring_shape s"
  then obtain k where k: "rb_mask s = 2 ^ k - 1" by (auto simp: ring_shape_def)
  have "q AND (2 ^ k - 1) = take_bit k q" by (simp only: take_bit_eq_mask mask_eq_exp_minus_1)
  then show ?thesis by (simp add: slot_def k take_bit_eq_mod)
qed

lemma slot_bound: "ring_shape s \<Longrightarrow> slot s q < length (rb_buffer s)"
  by (simp add: slot_mod) (simp add: ring_shape_def)

text \<open>Two positions less than a whole round apart use different slots.\<close>

lemma slot_distinct:
  assumes "ring_shape s" and "q < w" and "w < q + (rb_mask s + 1)"
  shows "slot s q \<noteq> slot s w"
proof
  assume "slot s q = slot s w"
  then have "(rb_mask s + 1) dvd (w - q)"
    using assms(1,2) mod_eq_dvd_iff_nat [of q w "rb_mask s + 1"] by (simp add: slot_mod)
  moreover have "0 < w - q" "w - q < rb_mask s + 1" using assms(2,3) by linarith+
  ultimately show False by (meson nat_dvd_not_less)
qed

lemma ring_contents_Cons:
  "read_seq s < write_seq s \<Longrightarrow>
   ring_contents s = the (rb_buffer s ! slot s (read_seq s)) # ring_contents (s\<lparr>read_seq := read_seq s + 1\<rparr>)"
  by (simp add: ring_contents_def upt_conv_Cons slot_def)

lemma length_ring_contents [simp]: "length (ring_contents s) = write_seq s - read_seq s"
  by (simp add: ring_contents_def)

text \<open>Writing the slot of position \<open>write_seq\<close> when there is room does not disturb the contents.\<close>

lemma publish_contents:
  assumes "ring_shape s" and "read_seq s \<le> write_seq s" and "write_seq s < read_seq s + (rb_mask s + 1)"
    and b_def: "b = (rb_buffer s)[slot s (write_seq s) := Some v]"
  shows "ring_contents (s\<lparr>rb_buffer := b, write_seq := write_seq s + 1\<rparr>) = ring_contents s @ [v]"
    and "ring_contents (s\<lparr>rb_buffer := b\<rparr>) = ring_contents s"
    and "q \<in> {read_seq s..<write_seq s} \<Longrightarrow> b ! slot s q = rb_buffer s ! slot s q"
    and "b ! slot s (write_seq s) = Some v"
proof -
  have same: "b ! slot s q = rb_buffer s ! slot s q" if "q \<in> {read_seq s..<write_seq s}" for q
  proof -
    have "slot s q \<noteq> slot s (write_seq s)" using that assms(3) by (intro slot_distinct assms(1)) auto
    then show ?thesis by (simp add: b_def)
  qed
  have new: "b ! slot s (write_seq s) = Some v"
    using slot_bound [OF assms(1)] by (simp add: b_def)
  show "ring_contents (s\<lparr>rb_buffer := b, write_seq := write_seq s + 1\<rparr>) = ring_contents s @ [v]"
    "ring_contents (s\<lparr>rb_buffer := b\<rparr>) = ring_contents s"
    using assms(2) same new by (auto simp: ring_contents_def)
  show "q \<in> {read_seq s..<write_seq s} \<Longrightarrow> b ! slot s q = rb_buffer s ! slot s q" by (rule same)
  show "b ! slot s (write_seq s) = Some v" by (rule new)
qed

lemma cached_if:
  "(if b then s\<lparr>cached_read_seq := i\<rparr> else s) = s\<lparr>cached_read_seq := if b then i else cached_read_seq s\<rparr>"
  "(if b then s\<lparr>cached_write_seq := i\<rparr> else s) = s\<lparr>cached_write_seq := if b then i else cached_write_seq s\<rparr>"
  "(if b then s\<lparr>rb_notify := n\<rparr> else s) = s\<lparr>rb_notify := if b then n else rb_notify s\<rparr>"
  by simp_all

lemma try_send_step:
  assumes "ring_inv s" and "try_send nf s v = (s', ok)"
  shows "ring_inv s' \<and> rb_mask s' = rb_mask s \<and> (ok \<longleftrightarrow> length (ring_contents s) < rb_mask s + 1) \<and>
    ring_contents s' = (if ok then ring_contents s @ [v] else ring_contents s)"
proof -
  define cr where "cr = (if rb_mask s < write_seq s - cached_read_seq s then read_seq s else cached_read_seq s)"
  have shape: "ring_shape s" and seqs: "cr \<le> read_seq s" "read_seq s \<le> write_seq s" "write_seq s \<le> cr + rb_mask s + 1"
    "cached_write_seq s \<le> write_seq s" and slots: "\<forall>q \<in> {read_seq s..<write_seq s}. rb_buffer s ! slot s q \<noteq> None"
    using assms(1) by (auto simp: ring_inv_def cr_def)
  note def = assms(2) [unfolded try_send_def Let_def cached_if, folded cr_def]
  show ?thesis
  proof (cases "rb_mask s < write_seq s - cr")
    case True
    then have "s' = s\<lparr>cached_read_seq := cr\<rparr>" "\<not> ok" using def by auto
    moreover have "rb_mask s < write_seq s - read_seq s" using True by (auto simp: cr_def split: if_splits)
    ultimately show ?thesis using shape seqs slots by (simp add: ring_inv_def)
  next
    case False
    let ?b = "(rb_buffer s)[slot s (write_seq s) := Some v]"
    have room: "write_seq s < read_seq s + (rb_mask s + 1)" using False seqs by linarith
    note pub = publish_contents [OF shape seqs(2) room refl, where v = v]
    obtain n where s': "s' = s\<lparr>cached_read_seq := cr, rb_buffer := ?b, write_seq := write_seq s + 1, rb_notify := n\<rparr>" and ok
      using False def by auto
    have "ring_shape (s\<lparr>rb_buffer := ?b\<rparr>)" using shape by simp
    then have "ring_shape s'" unfolding s' by (simp add: ring_shape_def)
    moreover have "?b ! slot s q \<noteq> None" if "read_seq s \<le> q" "q < write_seq s + 1" for q
      using pub(3) [of q] pub(4) slots that by (cases "q = write_seq s") auto
    moreover have "ring_contents s' = ring_contents s @ [v]"
      using pub(1) unfolding s' by (simp add: ring_contents_def)
    ultimately show ?thesis
      using \<open>ok\<close> room seqs False unfolding s' by (auto simp: ring_inv_def)
  qed
qed

lemma try_recv_step:
  assumes "ring_inv s" and "try_recv s = (s', r)"
  shows "ring_inv s' \<and> rb_mask s' = rb_mask s \<and>
    (case ring_contents s of [] \<Rightarrow> r = Ok None \<and> ring_contents s' = []
     | x # xs \<Rightarrow> r = Ok (Some x) \<and> ring_contents s' = xs)"
proof -
  define cw where "cw = (if cached_write_seq s \<le> read_seq s then write_seq s else cached_write_seq s)"
  note def = assms(2) [unfolded try_recv_def Let_def cached_if, folded cw_def]
  have inv: "ring_shape s" "cached_read_seq s \<le> read_seq s" "read_seq s \<le> write_seq s"
    "write_seq s \<le> cached_read_seq s + rb_mask s + 1" "cw \<le> write_seq s"
    "\<forall>q \<in> {read_seq s..<write_seq s}. rb_buffer s ! slot s q \<noteq> None"
    and cw: "cw \<le> read_seq s \<longleftrightarrow> write_seq s \<le> read_seq s"
    using assms(1) by (auto simp: ring_inv_def cw_def)
  show ?thesis
  proof (cases "write_seq s \<le> read_seq s")
    case True
    then have "ring_contents s = []" "s' = s\<lparr>cached_write_seq := cw\<rparr>" "r = Ok None"
      using def cw by (auto simp: ring_contents_def)
    then show ?thesis using inv by (simp add: ring_inv_def)
  next
    case False
    with inv(6) obtain v where v: "rb_buffer s ! slot s (read_seq s) = Some v" by fastforce
    have s': "s' = s\<lparr>cached_write_seq := cw, read_seq := read_seq s + 1\<rparr>" "r = Ok (Some v)"
      using False cw v def by auto
    have "ring_contents s = v # ring_contents s'"
      using False v unfolding s' by (simp add: ring_contents_def upt_conv_Cons)
    with inv False s' show ?thesis by (auto simp: ring_inv_def)
  qed
qed

text \<open>Calls in sequence, and the queue they should behave like.\<close>

datatype 'a ring_call = CallSend 'a | CallRecv

datatype 'a ring_answer = Accepted | Refused | Taken 'a | NothingThere

definition ring_step :: "('n \<Rightarrow> 'n) \<Rightarrow> 'a ring_call \<Rightarrow> ('a, 'n) ring \<Rightarrow> ('a, 'n) ring \<times> 'a ring_answer res" where
  "ring_step nf call s =
     (case call of
        CallSend v \<Rightarrow> (case try_send nf s v of (s', ok) \<Rightarrow> (s', Ok (if ok then Accepted else Refused)))
      | CallRecv \<Rightarrow> (case try_recv s of (s', r) \<Rightarrow> (s', bind_res r (\<lambda>x. Ok (case x of Some v \<Rightarrow> Taken v | None \<Rightarrow> NothingThere)))))"

fun ring_run :: "('n \<Rightarrow> 'n) \<Rightarrow> 'a ring_call list \<Rightarrow> ('a, 'n) ring \<Rightarrow> ('a, 'n) ring \<times> 'a ring_answer res list" where
  "ring_run nf [] s = (s, [])"
| "ring_run nf (call # calls) s =
     (let (s1, answer) = ring_step nf call s; (s2, answers) = ring_run nf calls s1 in (s2, answer # answers))"

fun queue_step :: "nat \<Rightarrow> 'a ring_call \<Rightarrow> 'a list \<Rightarrow> 'a list \<times> 'a ring_answer" where
  "queue_step cap (CallSend v) q = (if length q < cap then (q @ [v], Accepted) else (q, Refused))"
| "queue_step cap CallRecv [] = ([], NothingThere)"
| "queue_step cap CallRecv (v # q) = (q, Taken v)"

fun queue_run :: "nat \<Rightarrow> 'a ring_call list \<Rightarrow> 'a list \<Rightarrow> 'a list \<times> 'a ring_answer list" where
  "queue_run cap [] q = (q, [])"
| "queue_run cap (call # calls) q =
     (let (q1, answer) = queue_step cap call q; (q2, answers) = queue_run cap calls q1 in (q2, answer # answers))"

lemma ring_step_queue:
  assumes "ring_inv s"
  shows "\<exists>s'. ring_step nf call s = (s', Ok (snd (queue_step (rb_mask s + 1) call (ring_contents s)))) \<and>
    ring_contents s' = fst (queue_step (rb_mask s + 1) call (ring_contents s)) \<and> ring_inv s' \<and> rb_mask s' = rb_mask s"
proof (cases call)
  case (CallSend v)
  obtain s' ok where call: "try_send nf s v = (s', ok)" by fastforce
  from try_send_step [OF assms call] show ?thesis
    by (auto simp: CallSend ring_step_def call simp del: length_ring_contents)
next
  case CallRecv
  obtain s' r where call: "try_recv s = (s', r)" by fastforce
  from try_recv_step [OF assms call] show ?thesis
    by (cases "ring_contents s") (auto simp: CallRecv ring_step_def call)
qed

lemma ring_run_queue:
  assumes "ring_inv s"
  shows "\<exists>s'. ring_run nf calls s = (s', map Ok (snd (queue_run (rb_mask s + 1) calls (ring_contents s)))) \<and>
    ring_contents s' = fst (queue_run (rb_mask s + 1) calls (ring_contents s))"
  using assms
proof (induction calls arbitrary: s)
  case (Cons call calls)
  obtain s1 where one: "ring_step nf call s = (s1, Ok (snd (queue_step (rb_mask s + 1) call (ring_contents s))))"
    "ring_contents s1 = fst (queue_step (rb_mask s + 1) call (ring_contents s))" "ring_inv s1" "rb_mask s1 = rb_mask s"
    using ring_step_queue [OF Cons.prems] by blast
  from Cons.IH [OF one(3)] one show ?case by (auto simp: Let_def split_def)
qed simp

text \<open>The queue provides what the channel collectors rely on.\<close>

interpretation ring_sender: sender_laws "try_send notify_one" ring_contents ring_inv
proof
  fix ch ch' x
  show "ring_inv ch \<Longrightarrow> try_send notify_one ch x = (ch', True) \<Longrightarrow> ring_contents ch' = ring_contents ch @ [x]"
    using try_send_step [of ch notify_one x ch' True] by simp
  show "ring_inv ch \<Longrightarrow> try_send notify_one ch x = (ch', False) \<Longrightarrow> ring_contents ch' = ring_contents ch"
    using try_send_step [of ch notify_one x ch' False] by simp
  show "ring_inv ch \<Longrightarrow> ring_inv (fst (try_send notify_one ch x))"
    using try_send_step [of ch notify_one x] by (cases "try_send notify_one ch x") auto
qed

definition ring_collector :: "('n \<Rightarrow> 'n) \<Rightarrow> (('a stream_element, 'n) ring, 'a) collector" where
  "ring_collector notify_one = channel_collector (try_send notify_one)"

interpretation ring_col: collector_laws "ring_collector notify_one" ring_contents ring_inv
  unfolding ring_collector_def by (rule channel_collector_laws) (rule ring_sender.sender_laws_axioms)

subsection \<open>Two threads\<close>

text \<open>
  The program counters of a producer inside \<open>try_send\<close> and a consumer inside \<open>try_recv\<close>: one step per
  access to shared memory. \<open>sent\<close> and \<open>received\<close> record what was published and what was taken.
\<close>

datatype 'a producer_pc =
    PIdle
  | PLoaded 'a nat
  | PReload 'a nat
  | PWrite 'a nat
  | PPublish 'a nat
  | PNotify nat

datatype 'a consumer_pc =
    CIdle
  | CLoaded nat
  | CReload nat
  | CRead nat
  | CAdvance nat 'a

record ('a, 'n) spsc =
  sp_ring :: "('a, 'n) ring"
  sp_producer :: "'a producer_pc"
  sp_consumer :: "'a consumer_pc"
  sp_sent :: "'a list"
  sp_received :: "'a list"

inductive spsc_step :: "('n \<Rightarrow> 'n) \<Rightarrow> ('a, 'n) spsc \<Rightarrow> ('a, 'n) spsc \<Rightarrow> bool" for nf where
  send_begin: "sp_producer s = PIdle \<Longrightarrow> spsc_step nf s (s\<lparr>sp_producer := PLoaded v (write_seq (sp_ring s))\<rparr>)"
| send_stale: "sp_producer s = PLoaded v w \<Longrightarrow> rb_mask (sp_ring s) < w - cached_read_seq (sp_ring s) \<Longrightarrow>
    spsc_step nf s (s\<lparr>sp_producer := PReload v w\<rparr>)"
| send_room: "sp_producer s = PLoaded v w \<Longrightarrow> \<not> rb_mask (sp_ring s) < w - cached_read_seq (sp_ring s) \<Longrightarrow>
    spsc_step nf s (s\<lparr>sp_producer := PWrite v w\<rparr>)"
| send_reload: "sp_producer s = PReload v w \<Longrightarrow>
    spsc_step nf s (s\<lparr>sp_ring := (sp_ring s)\<lparr>cached_read_seq := read_seq (sp_ring s)\<rparr>,
      sp_producer := (if rb_mask (sp_ring s) < w - read_seq (sp_ring s) then PIdle else PWrite v w)\<rparr>)"
| send_write: "sp_producer s = PWrite v w \<Longrightarrow>
    spsc_step nf s (s\<lparr>sp_ring := (sp_ring s)\<lparr>rb_buffer := (rb_buffer (sp_ring s))[slot (sp_ring s) w := Some v]\<rparr>,
      sp_producer := PPublish v w\<rparr>)"
| send_publish: "sp_producer s = PPublish v w \<Longrightarrow>
    spsc_step nf s (s\<lparr>sp_ring := (sp_ring s)\<lparr>write_seq := w + 1\<rparr>, sp_producer := PNotify w, sp_sent := sp_sent s @ [v]\<rparr>)"
| send_notify: "sp_producer s = PNotify w \<Longrightarrow>
    spsc_step nf s (s\<lparr>sp_ring := (if w = cached_read_seq (sp_ring s)
        then (sp_ring s)\<lparr>rb_notify := nf (rb_notify (sp_ring s))\<rparr> else sp_ring s), sp_producer := PIdle\<rparr>)"
| recv_begin: "sp_consumer s = CIdle \<Longrightarrow> spsc_step nf s (s\<lparr>sp_consumer := CLoaded (read_seq (sp_ring s))\<rparr>)"
| recv_stale: "sp_consumer s = CLoaded r \<Longrightarrow> cached_write_seq (sp_ring s) \<le> r \<Longrightarrow>
    spsc_step nf s (s\<lparr>sp_consumer := CReload r\<rparr>)"
| recv_ready: "sp_consumer s = CLoaded r \<Longrightarrow> \<not> cached_write_seq (sp_ring s) \<le> r \<Longrightarrow>
    spsc_step nf s (s\<lparr>sp_consumer := CRead r\<rparr>)"
| recv_reload: "sp_consumer s = CReload r \<Longrightarrow>
    spsc_step nf s (s\<lparr>sp_ring := (sp_ring s)\<lparr>cached_write_seq := write_seq (sp_ring s)\<rparr>,
      sp_consumer := (if write_seq (sp_ring s) \<le> r then CIdle else CRead r)\<rparr>)"
| recv_read: "sp_consumer s = CRead r \<Longrightarrow> rb_buffer (sp_ring s) ! slot (sp_ring s) r = Some v \<Longrightarrow>
    spsc_step nf s (s\<lparr>sp_consumer := CAdvance r v\<rparr>)"
| recv_advance: "sp_consumer s = CAdvance r v \<Longrightarrow>
    spsc_step nf s (s\<lparr>sp_ring := (sp_ring s)\<lparr>read_seq := r + 1\<rparr>, sp_consumer := CIdle, sp_received := sp_received s @ [v]\<rparr>)"

definition spsc_init :: "nat \<Rightarrow> 'n \<Rightarrow> ('a, 'n) spsc" where
  "spsc_init capacity n =
     \<lparr>sp_ring = ring_buffer capacity n, sp_producer = PIdle, sp_consumer = CIdle, sp_sent = [], sp_received = []\<rparr>"

definition producer_ok :: "('a, 'n) ring \<Rightarrow> 'a producer_pc \<Rightarrow> bool" where
  "producer_ok s pc = (case pc of
     PIdle \<Rightarrow> True
   | PLoaded v w \<Rightarrow> w = write_seq s
   | PReload v w \<Rightarrow> w = write_seq s
   | PWrite v w \<Rightarrow> w = write_seq s \<and> w < cached_read_seq s + rb_mask s + 1
   | PPublish v w \<Rightarrow> w = write_seq s \<and> w < cached_read_seq s + rb_mask s + 1 \<and> rb_buffer s ! slot s w = Some v
   | PNotify w \<Rightarrow> w + 1 = write_seq s)"

definition consumer_ok :: "('a, 'n) ring \<Rightarrow> 'a consumer_pc \<Rightarrow> bool" where
  "consumer_ok s pc = (case pc of
     CIdle \<Rightarrow> True
   | CLoaded r \<Rightarrow> r = read_seq s
   | CReload r \<Rightarrow> r = read_seq s
   | CRead r \<Rightarrow> r = read_seq s \<and> r < write_seq s
   | CAdvance r v \<Rightarrow> r = read_seq s \<and> r < write_seq s \<and> rb_buffer s ! slot s r = Some v)"

definition spsc_inv :: "('a, 'n) spsc \<Rightarrow> bool" where
  "spsc_inv s \<longleftrightarrow> ring_inv (sp_ring s) \<and> producer_ok (sp_ring s) (sp_producer s) \<and>
     consumer_ok (sp_ring s) (sp_consumer s) \<and> sp_sent s = sp_received s @ ring_contents (sp_ring s)"

lemma spsc_inv_init: "spsc_inv (spsc_init capacity n)"
  by (simp add: ring_buffer_inv [THEN conjunct1] ring_buffer_inv [THEN conjunct2]
      spsc_inv_def spsc_init_def producer_ok_def consumer_ok_def)

lemma ring_inv_updates [simp]:
  "ring_inv (s\<lparr>rb_notify := n\<rparr>) = ring_inv s"
  by (simp add: ring_inv_def)

lemma pc_ok_notify [simp]:
  "producer_ok (s\<lparr>rb_notify := n\<rparr>) pc = producer_ok s pc" "consumer_ok (s\<lparr>rb_notify := n\<rparr>) pc' = consumer_ok s pc'"
  by (simp_all add: producer_ok_def consumer_ok_def split: producer_pc.splits consumer_pc.splits)

lemma spsc_inv_step: "spsc_step nf s s' \<Longrightarrow> spsc_inv s \<Longrightarrow> spsc_inv s'"
proof (induction rule: spsc_step.induct)
  case (send_begin s v)
  then show ?case by (simp add: spsc_inv_def producer_ok_def)
next
  case (send_stale s v w)
  then show ?case by (simp add: spsc_inv_def producer_ok_def)
next
  case (send_room s v w)
  then show ?case by (auto simp: spsc_inv_def producer_ok_def ring_inv_def)
next
  case (send_reload s v w)
  then show ?case
    by (auto simp: spsc_inv_def producer_ok_def ring_inv_def consumer_ok_def split: consumer_pc.splits)
next
  case (send_write s v w)
  let ?r = "sp_ring s" and ?b = "(rb_buffer (sp_ring s))[slot (sp_ring s) w := Some v]"
  from send_write have inv: "ring_inv ?r" and w: "w = write_seq ?r" "w < cached_read_seq ?r + rb_mask ?r + 1"
    by (simp_all add: spsc_inv_def producer_ok_def)
  then have shape: "ring_shape ?r" and le: "read_seq ?r \<le> write_seq ?r" and room: "write_seq ?r < read_seq ?r + (rb_mask ?r + 1)"
    by (auto simp: ring_inv_def)
  note pub = publish_contents [OF shape le room, of ?b v]
  have "ring_inv (?r\<lparr>rb_buffer := ?b\<rparr>)"
    using inv pub(3) w(1) by (auto simp: ring_inv_def)
  moreover have "consumer_ok (?r\<lparr>rb_buffer := ?b\<rparr>) (sp_consumer s)"
    using send_write pub(3) w(1) by (auto simp: spsc_inv_def consumer_ok_def split: consumer_pc.splits)
  ultimately show ?case
    using send_write w pub(2,4) by (simp add: spsc_inv_def producer_ok_def)
next
  case (send_publish s v w)
  let ?r = "sp_ring s"
  from send_publish have inv: "ring_inv ?r" and w: "w = write_seq ?r" "w < cached_read_seq ?r + rb_mask ?r + 1"
    "rb_buffer ?r ! slot ?r w = Some v"
    by (auto simp: spsc_inv_def producer_ok_def)
  have "ring_inv (?r\<lparr>write_seq := w + 1\<rparr>)" using inv w by (auto simp: ring_inv_def less_Suc_eq)
  moreover have "ring_contents (?r\<lparr>write_seq := w + 1\<rparr>) = ring_contents ?r @ [v]"
    using inv w by (simp add: ring_contents_def ring_inv_def)
  ultimately show ?case
    using send_publish w by (auto simp: spsc_inv_def producer_ok_def consumer_ok_def split: consumer_pc.splits)
next
  case (send_notify s w)
  then show ?case by (simp add: spsc_inv_def) (simp add: producer_ok_def)
next
  case (recv_begin s)
  then show ?case by (simp add: spsc_inv_def consumer_ok_def)
next
  case (recv_stale s r)
  then show ?case by (simp add: spsc_inv_def consumer_ok_def)
next
  case (recv_ready s r)
  then show ?case by (auto simp: spsc_inv_def consumer_ok_def ring_inv_def)
next
  case (recv_reload s r)
  then show ?case
    by (auto simp: spsc_inv_def producer_ok_def ring_inv_def consumer_ok_def split: producer_pc.splits)
next
  case (recv_read s r v)
  then show ?case by (simp add: spsc_inv_def consumer_ok_def)
next
  case (recv_advance s r v)
  let ?r = "sp_ring s"
  from recv_advance have inv: "ring_inv ?r" and r: "r = read_seq ?r" "r < write_seq ?r" "rb_buffer ?r ! slot ?r r = Some v"
    by (auto simp: spsc_inv_def consumer_ok_def)
  have "ring_inv (?r\<lparr>read_seq := r + 1\<rparr>)" using inv r by (auto simp: ring_inv_def)
  moreover have "ring_contents ?r = v # ring_contents (?r\<lparr>read_seq := r + 1\<rparr>)"
    using r by (simp add: ring_contents_Cons)
  ultimately show ?case
    using recv_advance r by (auto simp: spsc_inv_def producer_ok_def consumer_ok_def split: producer_pc.splits)
qed

lemma spsc_inv_reachable: "(spsc_step nf)\<^sup>*\<^sup>* (spsc_init capacity n) s \<Longrightarrow> spsc_inv s"
  by (induction rule: rtranclp_induct) (auto intro: spsc_inv_init spsc_inv_step)

subsection \<open>The parking consumer\<close>

text \<open>
  \<open>recv\<close>, with \<open>try_recv\<close> as one step: the position inside the loop, or the value it returned. The
  producer acts between any two steps. \<open>RParked\<close> is \<open>notified().await\<close>: it goes on only by taking
  the permit.
\<close>

datatype 'a recv_pc =
    RStart
  | RSpin nat
  | RCheckClosed
  | RParked
  | RWoken
  | RRecheckClosed
  | RDrain
  | RReturned "'a option res"

definition SPIN_LIMIT :: nat where "SPIN_LIMIT = 32"

record ('a, 'n) receiver =
  rv_ring :: "('a, 'n) ring"
  rv_pc :: "'a recv_pc"

text \<open>One step of \<open>recv\<close>; \<open>None\<close> when it has returned or is parked without a permit.\<close>

definition recv_try :: "('a, 'n) receiver \<Rightarrow> 'a recv_pc \<Rightarrow> ('a, 'n) receiver" where
  "recv_try s otherwise =
     (case try_recv (rv_ring s) of
        (r', Ok None) \<Rightarrow> \<lparr>rv_ring = r', rv_pc = otherwise\<rparr>
      | (r', res) \<Rightarrow> \<lparr>rv_ring = r', rv_pc = RReturned res\<rparr>)"

definition recv_step :: "('n \<Rightarrow> 'n option) \<Rightarrow> ('a, 'n) receiver \<Rightarrow> ('a, 'n) receiver option" where
  "recv_step take_permit s =
     (case rv_pc s of
        RStart \<Rightarrow> Some (recv_try s (RSpin SPIN_LIMIT))
      | RSpin 0 \<Rightarrow> Some (s\<lparr>rv_pc := RCheckClosed\<rparr>)
      | RSpin (Suc n) \<Rightarrow> Some (recv_try s (RSpin n))
      | RCheckClosed \<Rightarrow> Some (s\<lparr>rv_pc := (if rb_closed (rv_ring s) then RDrain else RParked)\<rparr>)
      | RParked \<Rightarrow>
          (case take_permit (rb_notify (rv_ring s)) of
             None \<Rightarrow> None
           | Some n' \<Rightarrow> Some (s\<lparr>rv_ring := (rv_ring s)\<lparr>rb_notify := n'\<rparr>, rv_pc := RWoken\<rparr>))
      | RWoken \<Rightarrow> Some (recv_try s RRecheckClosed)
      | RRecheckClosed \<Rightarrow> Some (s\<lparr>rv_pc := (if rb_closed (rv_ring s) then RDrain else RSpin SPIN_LIMIT)\<rparr>)
      | RDrain \<Rightarrow> (case try_recv (rv_ring s) of (r', res) \<Rightarrow> Some \<lparr>rv_ring = r', rv_pc = RReturned res\<rparr>)
      | RReturned res \<Rightarrow> None)"

text \<open>The consumer, calling \<open>recv\<close> again after each return, and the producer, sending and being
  dropped, in any interleaving.\<close>

inductive park_step :: "('n \<Rightarrow> 'n) \<Rightarrow> ('n \<Rightarrow> 'n option) \<Rightarrow> ('a, 'n) receiver \<Rightarrow> ('a, 'n) receiver \<Rightarrow> bool"
  for nf tp where
  consumer: "recv_step tp s = Some s' \<Longrightarrow> park_step nf tp s s'"
| again: "rv_pc s = RReturned (Ok (Some v)) \<Longrightarrow> park_step nf tp s (s\<lparr>rv_pc := RStart\<rparr>)"
| send: "\<not> rb_closed (rv_ring s) \<Longrightarrow> try_send nf (rv_ring s) v = (r', ok) \<Longrightarrow> park_step nf tp s (s\<lparr>rv_ring := r'\<rparr>)"
| drop: "\<not> rb_closed (rv_ring s) \<Longrightarrow> park_step nf tp s (s\<lparr>rv_ring := drop_producer nf (rv_ring s)\<rparr>)"

definition park_init :: "nat \<Rightarrow> 'n \<Rightarrow> ('a, 'n) receiver" where
  "park_init capacity n = \<lparr>rv_ring = ring_buffer capacity n, rv_pc = RStart\<rparr>"

lemma try_send_frame: "try_send nf s v = (s', ok) \<Longrightarrow> rb_closed s' = rb_closed s"
  by (auto simp: try_send_def Let_def split: if_splits)

lemma try_recv_frame: "try_recv s = (s', r) \<Longrightarrow> rb_closed s' = rb_closed s \<and> rb_notify s' = rb_notify s"
  by (auto simp: try_recv_def Let_def split: if_splits option.splits)

text \<open>A consumer parked on a closed queue has a permit waiting: the close cannot be missed.\<close>

definition park_inv :: "('n \<Rightarrow> bool) \<Rightarrow> ('a, 'n) receiver \<Rightarrow> bool" where
  "park_inv permit s \<longleftrightarrow> ring_inv (rv_ring s) \<and>
     (rb_closed (rv_ring s) \<and> rv_pc s = RParked \<longrightarrow> permit (rb_notify (rv_ring s)))"

lemma recv_try_inv:
  assumes "ring_inv (rv_ring s)" and "pc \<noteq> RParked"
  shows "ring_inv (rv_ring (recv_try s pc)) \<and> rv_pc (recv_try s pc) \<noteq> RParked \<and>
    rb_closed (rv_ring (recv_try s pc)) = rb_closed (rv_ring s) \<and>
    (if ring_contents (rv_ring s) = [] then rv_pc (recv_try s pc) = pc \<and> ring_contents (rv_ring (recv_try s pc)) = []
     else rv_pc (recv_try s pc) = RReturned (Ok (Some (hd (ring_contents (rv_ring s))))) \<and>
       ring_contents (rv_ring (recv_try s pc)) = tl (ring_contents (rv_ring s)))"
proof -
  obtain r' res where t: "try_recv (rv_ring s) = (r', res)" by fastforce
  from try_recv_step [OF assms(1) t] try_recv_frame [OF t] assms(2) show ?thesis
    by (cases "ring_contents (rv_ring s)") (auto simp: recv_try_def t)
qed

text \<open>The consumer alone reaches a return, with the next element if there is one.\<close>

definition next_element :: "('a, 'n) receiver \<Rightarrow> 'a option" where
  "next_element s = (case ring_contents (rv_ring s) of [] \<Rightarrow> None | x # _ \<Rightarrow> Some x)"

definition returns_next :: "('n \<Rightarrow> 'n option) \<Rightarrow> ('a, 'n) receiver \<Rightarrow> bool" where
  "returns_next tp s \<longleftrightarrow> (\<exists>s'. (\<lambda>x y. recv_step tp x = Some y)\<^sup>*\<^sup>* s s' \<and>
     rv_pc s' = RReturned (Ok (next_element s)) \<and> ring_contents (rv_ring s') = tl (ring_contents (rv_ring s)))"

context notify_laws
begin

lemma park_inv_step: "park_step notify_one take_permit s s' \<Longrightarrow> park_inv permit s \<Longrightarrow> park_inv permit s'"
proof (induction rule: park_step.induct)
  case (consumer s s')
  then have inv: "ring_inv (rv_ring s)" by (simp add: park_inv_def)
  show ?case
  proof (cases "rv_pc s")
    case (RSpin n)
    with consumer inv recv_try_inv [OF inv, of "RSpin (n - 1)"] show ?thesis
      by (cases n) (auto simp: recv_step_def park_inv_def)
  next
    case RDrain
    obtain r' res where t: "try_recv (rv_ring s) = (r', res)" by fastforce
    with RDrain consumer try_recv_step [OF inv t] show ?thesis by (auto simp: recv_step_def park_inv_def)
  qed (use consumer inv recv_try_inv [OF inv, of "RSpin SPIN_LIMIT"] recv_try_inv [OF inv, of RRecheckClosed] in
      \<open>auto simp: recv_step_def park_inv_def split: option.splits\<close>)
next
  case (send s v r' ok)
  then show ?case using try_send_step [of "rv_ring s" notify_one v r' ok] try_send_frame [of notify_one "rv_ring s" v r' ok]
    by (auto simp: park_inv_def)
next
  case (drop s)
  then show ?case by (auto simp: park_inv_def drop_producer_def notify_permit ring_inv_def)
qed (simp add: park_inv_def)

lemma park_inv_reachable:
  "(park_step notify_one take_permit)\<^sup>*\<^sup>* (park_init capacity n) s \<Longrightarrow> park_inv permit s"
proof (induction rule: rtranclp_induct)
  case base
  then show ?case
    using ring_buffer_inv [of capacity n] by (simp add: park_inv_def park_init_def ring_buffer_inv [THEN conjunct1])
qed (rule park_inv_step)

lemma returns_next_step:
  assumes "recv_step take_permit s = Some s'" and "returns_next take_permit s'"
    and "ring_contents (rv_ring s') = ring_contents (rv_ring s)"
  shows "returns_next take_permit s"
proof -
  from assms(2) obtain t where t: "(\<lambda>x y. recv_step take_permit x = Some y)\<^sup>*\<^sup>* s' t"
    "rv_pc t = RReturned (Ok (next_element s'))" "ring_contents (rv_ring t) = tl (ring_contents (rv_ring s'))"
    unfolding returns_next_def by blast
  have "(\<lambda>x y. recv_step take_permit x = Some y)\<^sup>*\<^sup>* s t"
    using assms(1) t(1) by (rule converse_rtranclp_into_rtranclp)
  with t(2,3) assms(3) show ?thesis unfolding returns_next_def next_element_def by auto
qed

lemma returns_next_done:
  assumes "recv_step take_permit s = Some s'" and "rv_pc s' = RReturned (Ok (next_element s))"
    and "ring_contents (rv_ring s') = tl (ring_contents (rv_ring s))"
  shows "returns_next take_permit s"
  using assms unfolding returns_next_def by blast

lemma returns_next_try:
  assumes "ring_inv (rv_ring s)" and "recv_step take_permit s = Some (recv_try s pc)" and "pc \<noteq> RParked"
    and "ring_contents (rv_ring s) = [] \<Longrightarrow> returns_next take_permit (recv_try s pc)"
  shows "returns_next take_permit s"
proof (cases "ring_contents (rv_ring s)")
  case Nil
  with recv_try_inv [OF assms(1,3)] assms(2,4) show ?thesis by (auto intro: returns_next_step)
next
  case (Cons x xs)
  with recv_try_inv [OF assms(1,3)] assms(2) show ?thesis
    by (intro returns_next_done [OF assms(2)]) (auto simp: next_element_def)
qed

lemma returns_next_drain: "ring_inv (rv_ring s) \<Longrightarrow> rv_pc s = RDrain \<Longrightarrow> returns_next take_permit s"
proof -
  assume a: "ring_inv (rv_ring s)" "rv_pc s = RDrain"
  obtain r' res where t: "try_recv (rv_ring s) = (r', res)" by fastforce
  then have "recv_step take_permit s = Some \<lparr>rv_ring = r', rv_pc = RReturned res\<rparr>" using a by (simp add: recv_step_def)
  from returns_next_done [OF this] try_recv_step [OF a(1) t] show ?thesis
    by (auto simp: next_element_def split: list.splits)
qed

lemma returns_next_check:
  "ring_inv (rv_ring s) \<Longrightarrow> rb_closed (rv_ring s) \<Longrightarrow> rv_pc s \<in> {RCheckClosed, RRecheckClosed} \<Longrightarrow> returns_next take_permit s"
  by (rule returns_next_step [of s "s\<lparr>rv_pc := RDrain\<rparr>"]) (auto simp: recv_step_def intro!: returns_next_drain)

lemma returns_next_spin:
  "ring_inv (rv_ring s) \<Longrightarrow> rb_closed (rv_ring s) \<Longrightarrow> rv_pc s = RSpin k \<Longrightarrow> returns_next take_permit s"
proof (induction k arbitrary: s)
  case 0
  then show ?case
    by (intro returns_next_step [of s "s\<lparr>rv_pc := RCheckClosed\<rparr>"]) (auto simp: recv_step_def intro!: returns_next_check)
next
  case (Suc k)
  show ?case
  proof (rule returns_next_try [OF Suc.prems(1), of "RSpin k"])
    assume "ring_contents (rv_ring s) = []"
    with recv_try_inv [OF Suc.prems(1), of "RSpin k"] Suc.prems(2) show "returns_next take_permit (recv_try s (RSpin k))"
      by (intro Suc.IH) auto
  qed (use Suc.prems in \<open>simp_all add: recv_step_def\<close>)
qed

lemma returns_next_woken:
  assumes "ring_inv (rv_ring s)" and "rb_closed (rv_ring s)" and "rv_pc s = RWoken"
  shows "returns_next take_permit s"
proof (rule returns_next_try [OF assms(1), of RRecheckClosed])
  assume "ring_contents (rv_ring s) = []"
  with recv_try_inv [OF assms(1), of RRecheckClosed] assms(2) show "returns_next take_permit (recv_try s RRecheckClosed)"
    by (intro returns_next_check) auto
qed (use assms in \<open>simp_all add: recv_step_def\<close>)

lemma closed_returns_next:
  assumes "park_inv permit s" and "rb_closed (rv_ring s)" and "\<And>res. rv_pc s \<noteq> RReturned res"
  shows "returns_next take_permit s"
proof -
  have inv: "ring_inv (rv_ring s)" using assms(1) by (simp add: park_inv_def)
  show ?thesis
  proof (cases "rv_pc s")
    case RStart
    show ?thesis
    proof (rule returns_next_try [OF inv, of "RSpin SPIN_LIMIT"])
      assume "ring_contents (rv_ring s) = []"
      with recv_try_inv [OF inv, of "RSpin SPIN_LIMIT"] assms(2) show "returns_next take_permit (recv_try s (RSpin SPIN_LIMIT))"
        by (intro returns_next_spin) auto
    qed (use RStart in \<open>simp_all add: recv_step_def\<close>)
  next
    case RParked
    with assms(1,2) have "permit (rb_notify (rv_ring s))" by (simp add: park_inv_def)
    then obtain n' where "take_permit (rb_notify (rv_ring s)) = Some n'" using take_some by blast
    with RParked have "recv_step take_permit s = Some (s\<lparr>rv_ring := (rv_ring s)\<lparr>rb_notify := n'\<rparr>, rv_pc := RWoken\<rparr>)"
      by (simp add: recv_step_def)
    then show ?thesis
      by (rule returns_next_step) (use inv assms(2) in \<open>auto intro!: returns_next_woken\<close>)
  qed (use inv assms in \<open>auto intro: returns_next_spin returns_next_check returns_next_woken returns_next_drain\<close>)
qed

end

subsection \<open>Properties\<close>

text \<open>C10. Under every interleaving of the steps of one producer and one consumer the ring buffer is a
  bounded FIFO queue: the values published are those received followed by those in the buffer, in
  order, never more than the capacity; the consumer always finds an initialised slot; and the producer
  never writes the slot the consumer is reading.\<close>

theorem ring_spsc_fifo:
  assumes "(spsc_step notify_one)\<^sup>*\<^sup>* (spsc_init capacity n) s"
  shows "sp_sent s = sp_received s @ ring_contents (sp_ring s) \<and>
    length (ring_contents (sp_ring s)) \<le> rb_mask (sp_ring s) + 1 \<and>
    (\<forall>r. sp_consumer s = CRead r \<longrightarrow> rb_buffer (sp_ring s) ! slot (sp_ring s) r \<noteq> None) \<and>
    (\<forall>r v w. sp_consumer s = CRead r \<longrightarrow> sp_producer s = PWrite v w \<longrightarrow> slot (sp_ring s) r \<noteq> slot (sp_ring s) w)"
proof -
  from spsc_inv_reachable [OF assms] have inv: "ring_inv (sp_ring s)" "producer_ok (sp_ring s) (sp_producer s)"
    "consumer_ok (sp_ring s) (sp_consumer s)" "sp_sent s = sp_received s @ ring_contents (sp_ring s)"
    by (simp_all add: spsc_inv_def)
  have "slot (sp_ring s) r \<noteq> slot (sp_ring s) w" if "sp_consumer s = CRead r" "sp_producer s = PWrite v w" for r v w
    using inv that by (intro slot_distinct) (auto simp: ring_inv_def producer_ok_def consumer_ok_def)
  moreover have "rb_buffer (sp_ring s) ! slot (sp_ring s) r \<noteq> None" if "sp_consumer s = CRead r" for r
    using inv that by (auto simp: ring_inv_def consumer_ok_def)
  moreover have "length (ring_contents (sp_ring s)) \<le> rb_mask (sp_ring s) + 1"
    using inv(1) by (auto simp: ring_inv_def)
  ultimately show ?thesis using inv(4) by blast
qed

text \<open>C25. Called in sequence, a new ring buffer is a bounded FIFO queue. Its capacity is the least power of two that is at least
  the requested capacity and at least two. Every sequence of sends and receives on it gives the answers of that queue: a send is
  refused exactly when the queue is full, and then changes nothing, a receive takes the oldest element, or reports that there is
  none exactly when the queue is empty. No call reads an uninitialised slot.\<close>

theorem ring_sequential:
  fixes n :: 'n and calls :: "'a ring_call list"
  shows "\<exists>cap s. (\<exists>k. cap = 2 ^ k) \<and> max capacity 2 \<le> cap \<and> cap < 2 * max capacity 2 \<and>
    ring_run nf calls (ring_buffer capacity n) = (s, map Ok (snd (queue_run cap calls []))) \<and>
    ring_contents s = fst (queue_run cap calls [])"
proof -
  let ?s = "ring_buffer capacity n :: ('a, 'n) ring"
  have "rb_mask ?s + 1 = max (next_power_of_two capacity) 2" by (simp add: ring_buffer_def Let_def)
  moreover have "max capacity 2 \<le> max (next_power_of_two capacity) 2" "max (next_power_of_two capacity) 2 < 2 * max capacity 2"
    using next_power_of_two_ge [of capacity] next_power_of_two_less [of capacity] by auto
  moreover obtain k where "rb_mask ?s = 2 ^ k - 1" using ring_buffer_shape [of capacity n] unfolding ring_shape_def by blast
  then have "rb_mask ?s + 1 = 2 ^ k" by simp
  moreover have inv: "ring_inv ?s" "ring_contents ?s = []" using ring_buffer_inv [of capacity n] by auto
  then obtain s where "ring_run nf calls ?s = (s, map Ok (snd (queue_run (rb_mask ?s + 1) calls [])))"
    "ring_contents s = fst (queue_run (rb_mask ?s + 1) calls [])"
    using ring_run_queue [OF inv(1), of nf calls] unfolding inv(2) by blast
  ultimately show ?thesis by metis
qed

text \<open>C32. When the producer is dropped no element and no wake-up is lost: from every reachable state
  with the queue closed and a receive in progress, the consumer alone returns the oldest element, or
  \<open>None\<close> when the buffer is empty, wherever in \<open>recv\<close> it is, parked included.\<close>

theorem ring_close_delivers:
  assumes "notify_laws notify_one take_permit permit"
    and "(park_step notify_one take_permit)\<^sup>*\<^sup>* (park_init capacity n) s"
    and "rb_closed (rv_ring s)" and "\<And>res. rv_pc s \<noteq> RReturned res"
  shows "\<exists>s'. (\<lambda>x y. recv_step take_permit x = Some y)\<^sup>*\<^sup>* s s' \<and>
    rv_pc s' = RReturned (Ok (case ring_contents (rv_ring s) of [] \<Rightarrow> None | x # _ \<Rightarrow> Some x)) \<and>
    ring_contents (rv_ring s') = tl (ring_contents (rv_ring s))"
proof -
  note inv = notify_laws.park_inv_reachable [OF assms(1,2)]
  from notify_laws.closed_returns_next [OF assms(1) inv assms(3,4)] show ?thesis
    unfolding returns_next_def next_element_def .
qed

text \<open>A run for the lost wake-up: an idle consumer that finds nothing parks.\<close>

lemma spin_to_check:
  assumes "try_recv r = (r, Ok None)"
  shows "(park_step nf tp)\<^sup>*\<^sup>* \<lparr>rv_ring = r, rv_pc = RSpin k\<rparr> \<lparr>rv_ring = r, rv_pc = RCheckClosed\<rparr>"
proof (induction k)
  case 0
  have "park_step nf tp \<lparr>rv_ring = r, rv_pc = RSpin 0\<rparr> \<lparr>rv_ring = r, rv_pc = RCheckClosed\<rparr>"
    by (rule park_step.consumer) (simp add: recv_step_def)
  then show ?case by blast
next
  case (Suc k)
  have "park_step nf tp \<lparr>rv_ring = r, rv_pc = RSpin (Suc k)\<rparr> \<lparr>rv_ring = r, rv_pc = RSpin k\<rparr>"
    by (rule park_step.consumer) (simp add: recv_step_def recv_try_def assms)
  then show ?case using Suc.IH by (rule converse_rtranclp_into_rtranclp)
qed

lemma idle_parks:
  assumes "try_recv r = (r, Ok None)" and "\<not> rb_closed r"
  shows "(park_step nf tp)\<^sup>*\<^sup>* \<lparr>rv_ring = r, rv_pc = RSpin k\<rparr> \<lparr>rv_ring = r, rv_pc = RParked\<rparr>"
proof -
  have "park_step nf tp \<lparr>rv_ring = r, rv_pc = RCheckClosed\<rparr> \<lparr>rv_ring = r, rv_pc = RParked\<rparr>"
    by (rule park_step.consumer) (simp add: recv_step_def assms(2))
  with spin_to_check [OF assms(1)] show ?thesis by (rule rtranclp.rtrancl_into_rtrancl)
qed

text \<open>C33. A wake-up can be lost while the producer lives: because the producer decides whether to notify
  by comparing with its cached copy of the read position, which it refreshes only when the buffer looks
  full, there is a reachable state in which the consumer is parked without a permit, the queue is open
  and an element is waiting in the buffer; the consumer cannot move until some later action of the
  producer.\<close>

theorem ring_lost_wakeup:
  "\<exists>s. (park_step (\<lambda>_. True) (\<lambda>n. if n then Some False else None))\<^sup>*\<^sup>* (park_init 4 False) s \<and>
     rv_pc s = RParked \<and> ring_contents (rv_ring s) = [2 :: nat] \<and> \<not> rb_closed (rv_ring s) \<and>
     recv_step (\<lambda>n. if n then Some False else None) s = None"
proof -
  let ?nf = "\<lambda>_ :: bool. True" and ?tp = "\<lambda>n. if n then Some False else None"
  let ?step = "park_step ?nf ?tp :: (nat, bool) receiver \<Rightarrow> _"
  let ?r = "\<lambda>buf w r n cw. \<lparr>rb_buffer = buf, rb_mask = 3, write_seq = w, read_seq = r, rb_closed = False,
      rb_notify = n, cached_read_seq = 0, cached_write_seq = cw\<rparr> :: (nat, bool) ring"
  let ?b0 = "[None, None, None, None]" and ?b1 = "[Some 1, None, None, None]" and ?b2 = "[Some 1, Some 2, None, None]"
  have cap: "next_power_of_two 4 = 4" by (simp add: next_power_of_two_def pow2_from.simps)
  have init: "park_init 4 False = \<lparr>rv_ring = ?r ?b0 0 0 False 0, rv_pc = RStart\<rparr>"
    by (simp add: park_init_def ring_buffer_def cap Let_def) (simp add: numeral_nat)
  have three: "(0 :: nat) AND 3 = 0" "(1 :: nat) AND 3 = 1" by simp_all
  have s1: "try_send ?nf (?r ?b0 0 0 False 0) 1 = (?r ?b1 1 0 True 0, True)"
    "try_send ?nf (?r ?b1 1 1 False 1) 2 = (?r ?b2 2 1 False 1, True)"
    by (simp_all add: try_send_def slot_def three)
  have r1: "try_recv (?r ?b1 1 0 True 0) = (?r ?b1 1 1 True 1, Ok (Some 1))"
    by (simp add: try_recv_def slot_def three)
  have r2: "try_recv (?r ?b1 1 1 n 1) = (?r ?b1 1 1 n 1, Ok None)" for n by (simp add: try_recv_def)
  note trans = rtranclp_trans [of ?step]
  have "?step \<lparr>rv_ring = ?r ?b0 0 0 False 0, rv_pc = RStart\<rparr> \<lparr>rv_ring = ?r ?b1 1 0 True 0, rv_pc = RStart\<rparr>"
    using park_step.send [of "\<lparr>rv_ring = ?r ?b0 0 0 False 0, rv_pc = RStart\<rparr>" ?nf 1 _ _ ?tp] s1(1) by simp
  moreover have "?step \<lparr>rv_ring = ?r ?b1 1 0 True 0, rv_pc = RStart\<rparr> \<lparr>rv_ring = ?r ?b1 1 1 True 1, rv_pc = RReturned (Ok (Some 1))\<rparr>"
    by (rule park_step.consumer) (simp add: recv_step_def recv_try_def r1 [simplified])
  moreover have "?step \<lparr>rv_ring = ?r ?b1 1 1 True 1, rv_pc = RReturned (Ok (Some 1))\<rparr> \<lparr>rv_ring = ?r ?b1 1 1 True 1, rv_pc = RStart\<rparr>"
    using park_step.again [of "\<lparr>rv_ring = ?r ?b1 1 1 True 1, rv_pc = RReturned (Ok (Some 1))\<rparr>" 1 ?nf ?tp] by simp
  moreover have "?step \<lparr>rv_ring = ?r ?b1 1 1 True 1, rv_pc = RStart\<rparr> \<lparr>rv_ring = ?r ?b1 1 1 True 1, rv_pc = RSpin SPIN_LIMIT\<rparr>"
    by (rule park_step.consumer) (simp add: recv_step_def recv_try_def r2 [simplified])
  moreover have "?step\<^sup>*\<^sup>* \<lparr>rv_ring = ?r ?b1 1 1 True 1, rv_pc = RSpin SPIN_LIMIT\<rparr> \<lparr>rv_ring = ?r ?b1 1 1 True 1, rv_pc = RParked\<rparr>"
    by (rule idle_parks [OF r2]) simp
  moreover have "?step \<lparr>rv_ring = ?r ?b1 1 1 True 1, rv_pc = RParked\<rparr> \<lparr>rv_ring = ?r ?b1 1 1 False 1, rv_pc = RWoken\<rparr>"
    by (rule park_step.consumer) (simp add: recv_step_def)
  moreover have "?step \<lparr>rv_ring = ?r ?b1 1 1 False 1, rv_pc = RWoken\<rparr> \<lparr>rv_ring = ?r ?b1 1 1 False 1, rv_pc = RRecheckClosed\<rparr>"
    by (rule park_step.consumer) (simp add: recv_step_def recv_try_def r2 [simplified])
  moreover have "?step \<lparr>rv_ring = ?r ?b1 1 1 False 1, rv_pc = RRecheckClosed\<rparr> \<lparr>rv_ring = ?r ?b1 1 1 False 1, rv_pc = RSpin SPIN_LIMIT\<rparr>"
    by (rule park_step.consumer) (simp add: recv_step_def)
  moreover have "?step\<^sup>*\<^sup>* \<lparr>rv_ring = ?r ?b1 1 1 False 1, rv_pc = RSpin SPIN_LIMIT\<rparr> \<lparr>rv_ring = ?r ?b1 1 1 False 1, rv_pc = RParked\<rparr>"
    by (rule idle_parks [OF r2]) simp
  moreover have "?step \<lparr>rv_ring = ?r ?b1 1 1 False 1, rv_pc = RParked\<rparr> \<lparr>rv_ring = ?r ?b2 2 1 False 1, rv_pc = RParked\<rparr>"
    using park_step.send [of "\<lparr>rv_ring = ?r ?b1 1 1 False 1, rv_pc = RParked\<rparr>" ?nf 2 _ _ ?tp] s1(2) by simp
  ultimately have "?step\<^sup>*\<^sup>* (park_init 4 False) \<lparr>rv_ring = ?r ?b2 2 1 False 1, rv_pc = RParked\<rparr>"
    unfolding init by (meson rtranclp.rtrancl_into_rtrancl rtranclp_trans r_into_rtranclp)
  moreover have "ring_contents (?r ?b2 2 1 False 1) = [2]"
  proof -
    have "[1..<2] = [1 :: nat]" by (simp add: upt_rec)
    then show ?thesis by (simp add: ring_contents_def slot_def three [simplified] del: upt_Suc One_nat_def)
  qed
  ultimately show ?thesis by (intro exI conjI) (auto simp: recv_step_def)
qed

subsection \<open>Witnesses\<close>

theorem ring_spsc_fifo_witness:
  "\<exists>s :: (nat, bool) spsc. (spsc_step (\<lambda>_. True))\<^sup>*\<^sup>* (spsc_init 2 False) s \<and> sp_producer s = PLoaded 7 0 \<and>
     sp_sent s = sp_received s @ ring_contents (sp_ring s)"
proof -
  let ?s = "spsc_init 2 False :: (nat, bool) spsc"
  have "spsc_step (\<lambda>_. True) ?s (?s\<lparr>sp_producer := PLoaded 7 (write_seq (sp_ring ?s))\<rparr>)"
    by (rule spsc_step.send_begin) (simp add: spsc_init_def)
  then have "(spsc_step (\<lambda>_. True))\<^sup>*\<^sup>* ?s (?s\<lparr>sp_producer := PLoaded 7 (write_seq (sp_ring ?s))\<rparr>)" by (rule r_into_rtranclp)
  from this ring_spsc_fifo [OF this] show ?thesis
    by (intro exI conjI) (auto simp: spsc_init_def ring_buffer_def Let_def)
qed

theorem ring_close_delivers_witness:
  "\<exists>s s' :: (nat, bool) receiver. (park_step (\<lambda>_. True) (\<lambda>n. if n then Some False else None))\<^sup>*\<^sup>* (park_init 2 False) s \<and>
     rb_closed (rv_ring s) \<and> (\<lambda>x y. recv_step (\<lambda>n. if n then Some False else None) x = Some y)\<^sup>*\<^sup>* s s' \<and>
     rv_pc s' = RReturned (Ok None)"
proof -
  let ?i = "park_init 2 False :: (nat, bool) receiver"
  let ?s = "?i\<lparr>rv_ring := drop_producer (\<lambda>_. True) (rv_ring ?i)\<rparr>"
  have "park_step (\<lambda>_. True) (\<lambda>n. if n then Some False else None) ?i ?s"
    by (rule park_step.drop) (simp add: park_init_def ring_buffer_def Let_def)
  then have reach: "(park_step (\<lambda>_. True) (\<lambda>n. if n then Some False else None))\<^sup>*\<^sup>* ?i ?s" by (rule r_into_rtranclp)
  have closed: "rb_closed (rv_ring ?s)" by (simp add: drop_producer_def)
  have start: "\<And>res. rv_pc ?s \<noteq> RReturned res" by (simp add: park_init_def)
  have "ring_contents (rv_ring ?s) = []"
    by (simp add: drop_producer_def park_init_def ring_buffer_inv [THEN conjunct2])
  with ring_close_delivers [OF flag_notify.notify_laws_axioms reach closed start] reach closed show ?thesis by auto
qed

end
