(* ===== verification/Timers.thy ===== *)
theory Timers
  imports Stream_Types
begin

text \<open>
  \<open>flume-core/src/timer.rs\<close>: the timer queue, two ordered sets of (timestamp, key) pairs, and the
  timer service that ties registrations to the current key. The operations on the two sets are the
  same code twice; the locale \<open>timer_set\<close> states their contract once and is interpreted for both.
\<close>

type_synonym timer = "event_timestamp \<times> bytes"

record timer_queue =
  event_time_timers :: "timer list"
  processing_time_timers :: "timer list"

definition timer_queue_new :: timer_queue where
  "timer_queue_new = \<lparr>event_time_timers = [], processing_time_timers = []\<rparr>"

definition register_event_time :: "timer_queue \<Rightarrow> event_timestamp \<Rightarrow> bytes \<Rightarrow> timer_queue" where
  "register_event_time q timestamp key =
     q\<lparr>event_time_timers := bts_insert (timestamp, key) (event_time_timers q)\<rparr>"

definition delete_event_time :: "timer_queue \<Rightarrow> event_timestamp \<Rightarrow> bytes \<Rightarrow> timer_queue" where
  "delete_event_time q timestamp key =
     q\<lparr>event_time_timers := bts_remove (timestamp, key) (event_time_timers q)\<rparr>"

definition fire_event_time_up_to :: "timer_queue \<Rightarrow> event_timestamp \<Rightarrow> timer list \<times> timer_queue" where
  "fire_event_time_up_to q wm =
     (let split_point = (EventTimestamp (saturating_add (as_millis wm) 1), []);
          (fired, remaining) = bts_split_off split_point (event_time_timers q)
      in (fired, q\<lparr>event_time_timers := remaining\<rparr>))"

definition register_processing_time :: "timer_queue \<Rightarrow> event_timestamp \<Rightarrow> bytes \<Rightarrow> timer_queue" where
  "register_processing_time q timestamp key =
     q\<lparr>processing_time_timers := bts_insert (timestamp, key) (processing_time_timers q)\<rparr>"

definition delete_processing_time :: "timer_queue \<Rightarrow> event_timestamp \<Rightarrow> bytes \<Rightarrow> timer_queue" where
  "delete_processing_time q timestamp key =
     q\<lparr>processing_time_timers := bts_remove (timestamp, key) (processing_time_timers q)\<rparr>"

definition fire_processing_time_up_to :: "timer_queue \<Rightarrow> event_timestamp \<Rightarrow> timer list \<times> timer_queue" where
  "fire_processing_time_up_to q time =
     (let split_point = (EventTimestamp (saturating_add (as_millis time) 1), []);
          (fired, remaining) = bts_split_off split_point (processing_time_timers q)
      in (fired, q\<lparr>processing_time_timers := remaining\<rparr>))"

subsection \<open>The contract of one timer set\<close>

text \<open>A timer is due at \<open>wm\<close> when firing up to \<open>wm\<close> takes it: the split point saturates at the
  largest timestamp, so a timer set for that timestamp is never due.\<close>

definition due :: "event_timestamp \<Rightarrow> timer \<Rightarrow> bool" where
  "due wm x \<longleftrightarrow> fst x \<le> wm \<and> fst x < ts_MAX"

lemma split_point_less:
  "x < (EventTimestamp (saturating_add (as_millis wm) 1), []) \<longleftrightarrow> due wm x"
proof -
  obtain t k where x: "x = (t, k)" by (cases x)
  have "millis t \<le> 2 ^ 64 - 1" "millis wm \<le> 2 ^ 64 - 1"
    using millis_bound [of t] millis_bound [of wm] by simp_all
  then have "t < EventTimestamp (saturating_add (as_millis wm) 1) \<longleftrightarrow> t \<le> wm \<and> t < ts_MAX"
    by (auto simp: ts_simps unat_saturating_add simp flip: millis_def)
  moreover have "x < (EventTimestamp (saturating_add (as_millis wm) 1), []) \<longleftrightarrow>
      t < EventTimestamp (saturating_add (as_millis wm) 1)"
    by (auto simp: x less_prod_def)
  ultimately show ?thesis by (simp add: due_def x)
qed

lemma split_off_due:
  "bts_split_off (EventTimestamp (saturating_add (as_millis wm) 1), []) xs =
     (filter (due wm) xs, filter (\<lambda>x. \<not> due wm x) xs)"
  by (simp add: bts_split_off_def split_point_less flip: not_less)

locale timer_set =
  fixes register :: "'q \<Rightarrow> event_timestamp \<Rightarrow> bytes \<Rightarrow> 'q"
    and delete :: "'q \<Rightarrow> event_timestamp \<Rightarrow> bytes \<Rightarrow> 'q"
    and fire :: "'q \<Rightarrow> event_timestamp \<Rightarrow> timer list \<times> 'q"
    and pending :: "'q \<Rightarrow> timer list"
  assumes pending_register: "pending (register q t k) = bts_insert (t, k) (pending q)"
    and pending_delete: "pending (delete q t k) = bts_remove (t, k) (pending q)"
    and fired_due: "fst (fire q wm) = filter (due wm) (pending q)"
    and pending_fire: "pending (snd (fire q wm)) = filter (\<lambda>x. \<not> due wm x) (pending q)"
begin

lemmas pending_simps = pending_register pending_delete fired_due pending_fire

lemma sorted_register: "bts_sorted (pending q) \<Longrightarrow> bts_sorted (pending (register q t k))"
  by (simp add: pending_simps bts_sorted_insert)

lemma sorted_delete: "bts_sorted (pending q) \<Longrightarrow> bts_sorted (pending (delete q t k))"
  by (simp add: pending_simps bts_sorted_remove)

lemma sorted_fire:
  "bts_sorted (pending q) \<Longrightarrow> bts_sorted (fst (fire q wm)) \<and> bts_sorted (pending (snd (fire q wm)))"
  by (simp add: pending_simps sorted_wrt_filter)

lemma set_pending_register: "set (pending (register q t k)) = insert (t, k) (set (pending q))"
  by (simp add: pending_simps bt_simps)

lemma set_pending_delete: "set (pending (delete q t k)) = set (pending q) - {(t, k)}"
  by (simp add: pending_simps bt_simps)

text \<open>Firing splits the pending timers: nothing is lost and nothing fires twice.\<close>

lemma fire_partition:
  "set (fst (fire q wm)) \<union> set (pending (snd (fire q wm))) = set (pending q) \<and>
   set (fst (fire q wm)) \<inter> set (pending (snd (fire q wm))) = {}"
  by (auto simp: pending_simps)

lemma fire_twice: "fst (fire (snd (fire q wm)) wm) = []"
  by (simp add: pending_simps filter_empty_conv)

text \<open>A timer fires at the first watermark that reaches it, and at no earlier one.\<close>

lemma fire_after_lower:
  "wm \<le> wm' \<Longrightarrow> fst (fire q wm) @ fst (fire (snd (fire q wm)) wm') = fst (fire q wm')"
  if "bts_sorted (pending q)"
proof -
  assume le: "wm \<le> wm'"
  have eq: "due wm x \<longleftrightarrow> due wm' x \<and> x < (EventTimestamp (saturating_add (as_millis wm) 1), [])" for x
    using le by (auto simp: split_point_less due_def)
  let ?p = "(EventTimestamp (saturating_add (as_millis wm) 1), []) :: timer"
  have "filter (due wm) (pending q) = filter (\<lambda>x. x < ?p) (filter (due wm') (pending q))"
    by (auto simp: eq intro!: filter_cong)
  moreover have "filter (due wm') (filter (\<lambda>x. \<not> due wm x) (pending q)) =
      filter (\<lambda>x. ?p \<le> x) (filter (due wm') (pending q))"
    by (auto simp: split_point_less conj_commute simp flip: not_less intro!: filter_cong)
  moreover have "bts_sorted (filter (due wm') (pending q))"
    using that by (rule sorted_wrt_filter)
  ultimately show ?thesis
    unfolding fired_due pending_fire by (metis filter_partition_append)
qed

end

interpretation event_timers: timer_set register_event_time delete_event_time
    fire_event_time_up_to event_time_timers
  by unfold_locales
    (simp_all add: register_event_time_def delete_event_time_def fire_event_time_up_to_def split_off_due)

interpretation processing_timers: timer_set register_processing_time delete_processing_time
    fire_processing_time_up_to processing_time_timers
  by unfold_locales
    (simp_all add: register_processing_time_def delete_processing_time_def
      fire_processing_time_up_to_def split_off_due)

lemma timer_queue_frame [simp]:
  "processing_time_timers (register_event_time q t k) = processing_time_timers q"
  "processing_time_timers (delete_event_time q t k) = processing_time_timers q"
  "processing_time_timers (snd (fire_event_time_up_to q wm)) = processing_time_timers q"
  "event_time_timers (register_processing_time q t k) = event_time_timers q"
  "event_time_timers (delete_processing_time q t k) = event_time_timers q"
  "event_time_timers (snd (fire_processing_time_up_to q wm)) = event_time_timers q"
  by (simp_all add: register_event_time_def delete_event_time_def fire_event_time_up_to_def
      register_processing_time_def delete_processing_time_def fire_processing_time_up_to_def
      split_off_due)

definition timer_queue_wf :: "timer_queue \<Rightarrow> bool" where
  "timer_queue_wf q \<longleftrightarrow> bts_sorted (event_time_timers q) \<and> bts_sorted (processing_time_timers q)"

subsection \<open>The timer service\<close>

record timer_service =
  svc_queue :: timer_queue
  svc_watermark :: event_timestamp
  svc_key :: bytes

definition timer_service_new :: timer_service where
  "timer_service_new = \<lparr>svc_queue = timer_queue_new, svc_watermark = ts_MIN, svc_key = []\<rparr>"

definition set_current_key :: "timer_service \<Rightarrow> bytes \<Rightarrow> timer_service" where
  "set_current_key s key = s\<lparr>svc_key := key\<rparr>"

definition set_watermark :: "timer_service \<Rightarrow> event_timestamp \<Rightarrow> timer_service" where
  "set_watermark s wm = s\<lparr>svc_watermark := wm\<rparr>"

definition register_event_time_timer :: "timer_service \<Rightarrow> event_timestamp \<Rightarrow> timer_service" where
  "register_event_time_timer s time = s\<lparr>svc_queue := register_event_time (svc_queue s) time (svc_key s)\<rparr>"

definition delete_event_time_timer :: "timer_service \<Rightarrow> event_timestamp \<Rightarrow> timer_service" where
  "delete_event_time_timer s time = s\<lparr>svc_queue := delete_event_time (svc_queue s) time (svc_key s)\<rparr>"

definition register_processing_time_timer :: "timer_service \<Rightarrow> event_timestamp \<Rightarrow> timer_service" where
  "register_processing_time_timer s time =
     s\<lparr>svc_queue := register_processing_time (svc_queue s) time (svc_key s)\<rparr>"

definition delete_processing_time_timer :: "timer_service \<Rightarrow> event_timestamp \<Rightarrow> timer_service" where
  "delete_processing_time_timer s time =
     s\<lparr>svc_queue := delete_processing_time (svc_queue s) time (svc_key s)\<rparr>"

text \<open>
  \<open>current_processing_time\<close> reads the wall clock: the argument is the result of
  \<open>SystemTime::now().duration_since(UNIX_EPOCH)\<close>, \<open>None\<close> for a clock before the epoch.
\<close>

definition current_processing_time :: "duration option \<Rightarrow> event_timestamp" where
  "current_processing_time clock =
     EventTimestamp (duration_ms (case clock of None \<Rightarrow> 0 | Some d \<Rightarrow> d))"

definition timer_service_wf :: "timer_service \<Rightarrow> bool" where
  "timer_service_wf s \<longleftrightarrow> timer_queue_wf (svc_queue s)"

lemma timer_service_wf_new [simp]: "timer_service_wf timer_service_new"
  by (simp add: timer_service_wf_def timer_service_new_def timer_queue_wf_def timer_queue_new_def)

lemma timer_service_wf_ops [intro]:
  "timer_service_wf s \<Longrightarrow> timer_service_wf (set_current_key s k)"
  "timer_service_wf s \<Longrightarrow> timer_service_wf (set_watermark s wm)"
  "timer_service_wf s \<Longrightarrow> timer_service_wf (register_event_time_timer s t)"
  "timer_service_wf s \<Longrightarrow> timer_service_wf (delete_event_time_timer s t)"
  "timer_service_wf s \<Longrightarrow> timer_service_wf (register_processing_time_timer s t)"
  "timer_service_wf s \<Longrightarrow> timer_service_wf (delete_processing_time_timer s t)"
  by (auto simp: timer_service_wf_def timer_queue_wf_def set_current_key_def set_watermark_def
      register_event_time_timer_def delete_event_time_timer_def register_processing_time_timer_def
      delete_processing_time_timer_def event_timers.sorted_register event_timers.sorted_delete
      processing_timers.sorted_register processing_timers.sorted_delete)

subsection \<open>Properties\<close>

text \<open>C29. Firing the event-time timers up to a watermark returns, in increasing (timestamp, key)
  order, exactly the registered timers at or below the watermark (but for those at the largest
  timestamp), leaves exactly the others pending, and does not touch the processing-time timers.\<close>

theorem fire_event_time_exact:
  assumes "timer_queue_wf q" and "fire_event_time_up_to q wm = (fired, q')"
  shows "fired = filter (\<lambda>(t, k). t \<le> wm \<and> t < ts_MAX) (event_time_timers q)
    \<and> bts_sorted fired
    \<and> event_time_timers q' = filter (\<lambda>(t, k). wm < t \<or> t = ts_MAX) (event_time_timers q)
    \<and> processing_time_timers q' = processing_time_timers q \<and> timer_queue_wf q'"
proof -
  have fired: "fired = fst (fire_event_time_up_to q wm)" and q': "q' = snd (fire_event_time_up_to q wm)"
    using assms(2) by simp_all
  have d: "due wm = (\<lambda>(t, k). t \<le> wm \<and> t < ts_MAX)"
    by (auto simp: due_def fun_eq_iff)
  have nd: "(\<lambda>x. \<not> due wm x) = (\<lambda>(t, k). wm < t \<or> t = ts_MAX)"
    by (auto simp: due_def fun_eq_iff not_le not_less order_antisym)
  have rest: "event_time_timers q' = filter (\<lambda>(t, k). wm < t \<or> t = ts_MAX) (event_time_timers q)"
    unfolding q' event_timers.pending_fire nd ..
  have "bts_sorted fired" "bts_sorted (event_time_timers q')"
    using assms(1) event_timers.sorted_fire [of q wm] by (simp_all add: timer_queue_wf_def fired q')
  with rest show ?thesis
    using assms(1) by (simp add: timer_queue_wf_def fired event_timers.fired_due d) (simp add: q')
qed

theorem fire_event_time_exact_witness:
  "\<exists>q fired q'. timer_queue_wf q \<and> fire_event_time_up_to q (EventTimestamp 150) = (fired, q') \<and>
     fired = [(EventTimestamp 100, [1])] \<and> event_time_timers q' = [(EventTimestamp 200, [1])]"
proof -
  let ?q = "register_event_time (register_event_time timer_queue_new (EventTimestamp 200) [1])
      (EventTimestamp 100) [1]"
  have q: "event_time_timers ?q = [(EventTimestamp 100, [1]), (EventTimestamp 200, [1])]"
    "processing_time_timers ?q = []"
    by (simp_all add: register_event_time_def timer_queue_new_def less_event_timestamp_def)
  have wf: "timer_queue_wf ?q" unfolding timer_queue_wf_def q by (simp add: less_event_timestamp_def)
  obtain fired q' where call: "fire_event_time_up_to ?q (EventTimestamp 150) = (fired, q')"
    by fastforce
  from fire_event_time_exact [OF wf call] wf call show ?thesis
    by (intro exI conjI) (auto simp: q less_eq_event_timestamp_def less_event_timestamp_def ts_MAX_def)
qed

text \<open>A timer registered for the largest timestamp never fires, whatever watermark arrives, the
  end-of-stream watermark \<open>MAX\<close> included.\<close>

lemma max_timer_never_fires:
  assumes "(ts_MAX, k) \<in> set (event_time_timers q)"
  shows "(ts_MAX, k) \<notin> set (fst (fire_event_time_up_to q wm)) \<and>
    (ts_MAX, k) \<in> set (event_time_timers (snd (fire_event_time_up_to q wm)))"
  using assms unfolding event_timers.fired_due event_timers.pending_fire by (simp add: due_def)

lemma max_timer_never_fires_example:
  "(ts_MAX, [7]) \<in> set (event_time_timers (snd (fire_event_time_up_to
     (register_event_time timer_queue_new ts_MAX [7]) ts_MAX)))"
  using max_timer_never_fires [of "[7]" "register_event_time timer_queue_new ts_MAX [7]" ts_MAX]
  by (simp add: event_timers.set_pending_register)

text \<open>Advancing the watermark in two steps fires the same timers in the same order as
  advancing it at once.\<close>

lemma fire_event_time_compose:
  assumes "timer_queue_wf q" and "wm \<le> wm'"
  shows "fst (fire_event_time_up_to q wm)
      @ fst (fire_event_time_up_to (snd (fire_event_time_up_to q wm)) wm')
    = fst (fire_event_time_up_to q wm')"
  using assms event_timers.fire_after_lower [of q wm wm'] by (simp add: timer_queue_wf_def)

lemma fire_event_time_compose_example:
  "(EventTimestamp 5 \<le> EventTimestamp 9) \<and>
   fst (fire_event_time_up_to timer_queue_new (EventTimestamp 5))
      @ fst (fire_event_time_up_to (snd (fire_event_time_up_to timer_queue_new (EventTimestamp 5)))
          (EventTimestamp 9))
    = fst (fire_event_time_up_to timer_queue_new (EventTimestamp 9))"
  using fire_event_time_compose [of timer_queue_new "EventTimestamp 5" "EventTimestamp 9"]
  by (simp add: timer_queue_wf_def timer_queue_new_def less_eq_event_timestamp_def)

end
