(* ===== verification/Process_Operator.thy ===== *)
theory Process_Operator
  imports Timers Basic_Operators
begin

text \<open>
  \<open>flume-core/src/process.rs\<close> and \<open>flume-core/src/operator/process.rs\<close>: process functions with timers
  and side outputs, and the three operators that run them (plain, keyed, two-input).

  A user function is a program over exactly the methods its context and collector give it: the
  datatype \<open>prog\<close> has one constructor per method, with a continuation for what the method returns, and
  \<open>run_prog\<close> interprets it on the operator's timer service, side-output emitter and collector. The
  theorems hold for every such program.
\<close>

subsection \<open>User programs and their context\<close>

datatype ('o, 'v, 's) prog =
    Return 's "unit res"
  | Collect "'o flume_record" "unit res \<Rightarrow> ('o, 'v, 's) prog"
  | CollectWatermark watermark "unit res \<Rightarrow> ('o, 'v, 's) prog"
  | CollectBarrier checkpoint_barrier "unit res \<Rightarrow> ('o, 'v, 's) prog"
  | RegisterEventTimer event_timestamp "('o, 'v, 's) prog"
  | DeleteEventTimer event_timestamp "('o, 'v, 's) prog"
  | RegisterProcessingTimer event_timestamp "('o, 'v, 's) prog"
  | DeleteProcessingTimer event_timestamp "('o, 'v, 's) prog"
  | CurrentWatermark "event_timestamp \<Rightarrow> ('o, 'v, 's) prog"
  | CurrentProcessingTime "event_timestamp \<Rightarrow> ('o, 'v, 's) prog"
  | SideOutput string 'v "unit res \<Rightarrow> ('o, 'v, 's) prog"

text \<open>\<open>SideOutputEmitter::emit\<close>: tag, value, timestamp and key.\<close>

type_synonym ('e, 'v) emitter = "'e \<Rightarrow> string \<Rightarrow> 'v \<Rightarrow> event_timestamp \<Rightarrow> bytes option \<Rightarrow> 'e \<times> unit res"

text \<open>What a program can change: the timer service, the emitter, the collector; and the readings of
  the wall clock still to come.\<close>

record ('c, 'e) world =
  w_timers :: timer_service
  w_side :: 'e
  w_clock :: "duration option list"
  w_col :: 'c

definition next_clock :: "duration option list \<Rightarrow> duration option" where
  "next_clock cs = (case cs of [] \<Rightarrow> None | d # _ \<Rightarrow> d)"

text \<open>\<open>ProcessContext::side_output\<close>; a timer context has none, which \<open>None\<close> stands for.\<close>

definition ctx_side_output :: "('e, 'v) emitter option \<Rightarrow> event_timestamp \<Rightarrow> bytes option \<Rightarrow> 'e \<Rightarrow> string \<Rightarrow> 'v \<Rightarrow>
    'e \<times> unit res" where
  "ctx_side_output em timestamp key e tag v =
     (case em of
        None \<Rightarrow> (e, Err (OperatorError ''no side output emitter configured''))
      | Some emit \<Rightarrow> emit e tag v timestamp key)"

primrec run_prog :: "('c, 'o) collector \<Rightarrow> ('e, 'v) emitter option \<Rightarrow> event_timestamp \<Rightarrow> bytes option \<Rightarrow>
    ('o, 'v, 's) prog \<Rightarrow> ('c, 'e) world \<Rightarrow> 's \<times> ('c, 'e) world \<times> unit res" where
  "run_prog col em ts key (Return s r) w = (s, w, r)"
| "run_prog col em ts key (Collect rec k) w =
     (case collect col (w_col w) rec of (c', r) \<Rightarrow> run_prog col em ts key (k r) (w\<lparr>w_col := c'\<rparr>))"
| "run_prog col em ts key (CollectWatermark wm k) w =
     (case collect_watermark col (w_col w) wm of (c', r) \<Rightarrow> run_prog col em ts key (k r) (w\<lparr>w_col := c'\<rparr>))"
| "run_prog col em ts key (CollectBarrier b k) w =
     (case collect_barrier col (w_col w) b of (c', r) \<Rightarrow> run_prog col em ts key (k r) (w\<lparr>w_col := c'\<rparr>))"
| "run_prog col em ts key (RegisterEventTimer t p) w =
     run_prog col em ts key p (w\<lparr>w_timers := register_event_time_timer (w_timers w) t\<rparr>)"
| "run_prog col em ts key (DeleteEventTimer t p) w =
     run_prog col em ts key p (w\<lparr>w_timers := delete_event_time_timer (w_timers w) t\<rparr>)"
| "run_prog col em ts key (RegisterProcessingTimer t p) w =
     run_prog col em ts key p (w\<lparr>w_timers := register_processing_time_timer (w_timers w) t\<rparr>)"
| "run_prog col em ts key (DeleteProcessingTimer t p) w =
     run_prog col em ts key p (w\<lparr>w_timers := delete_processing_time_timer (w_timers w) t\<rparr>)"
| "run_prog col em ts key (CurrentWatermark k) w = run_prog col em ts key (k (svc_watermark (w_timers w))) w"
| "run_prog col em ts key (CurrentProcessingTime k) w =
     run_prog col em ts key (k (current_processing_time (next_clock (w_clock w)))) (w\<lparr>w_clock := drop 1 (w_clock w)\<rparr>)"
| "run_prog col em ts key (SideOutput tag v k) w =
     (case ctx_side_output em ts key (w_side w) tag v of (e', r) \<Rightarrow> run_prog col em ts key (k r) (w\<lparr>w_side := e'\<rparr>))"

subsection \<open>The operators\<close>

text \<open>The three function traits; a method gets the state of the function and what the code passes.\<close>

record ('s, 'i, 'o, 'v) process_function =
  pf_element :: "'s \<Rightarrow> 'i \<Rightarrow> event_timestamp \<Rightarrow> bytes option \<Rightarrow> ('o, 'v, 's) prog"
  pf_on_timer :: "'s \<Rightarrow> event_timestamp \<Rightarrow> event_timestamp \<Rightarrow> ('o, 'v, 's) prog"

record ('s, 'i, 'o, 'v) keyed_process_function =
  kpf_element :: "'s \<Rightarrow> bytes \<Rightarrow> 'i \<Rightarrow> event_timestamp \<Rightarrow> bytes option \<Rightarrow> ('o, 'v, 's) prog"
  kpf_on_timer :: "'s \<Rightarrow> event_timestamp \<Rightarrow> bytes \<Rightarrow> event_timestamp \<Rightarrow> ('o, 'v, 's) prog"

record ('s, 'i1, 'i2, 'o, 'v) co_process_function =
  cpf_element1 :: "'s \<Rightarrow> 'i1 \<Rightarrow> event_timestamp \<Rightarrow> bytes option \<Rightarrow> ('o, 'v, 's) prog"
  cpf_element2 :: "'s \<Rightarrow> 'i2 \<Rightarrow> event_timestamp \<Rightarrow> bytes option \<Rightarrow> ('o, 'v, 's) prog"
  cpf_on_timer :: "'s \<Rightarrow> event_timestamp \<Rightarrow> event_timestamp \<Rightarrow> ('o, 'v, 's) prog"

text \<open>The state of an operator: the function's, the timer service, the emitter.\<close>

record ('s, 'e) process_op =
  po_fn :: 's
  po_timers :: timer_service
  po_side :: 'e
  po_clock :: "duration option list"

definition process_op_new :: "'s \<Rightarrow> 'e \<Rightarrow> ('s, 'e) process_op" where
  "process_op_new s e = \<lparr>po_fn = s, po_timers = timer_service_new, po_side = e, po_clock = []\<rparr>"

text \<open>Run a program on the operator's state.\<close>

definition run_in :: "('c, 'o) collector \<Rightarrow> ('e, 'v) emitter option \<Rightarrow> event_timestamp \<Rightarrow> bytes option \<Rightarrow>
    ('o, 'v, 's) prog \<Rightarrow> ('s, 'e) process_op \<Rightarrow> 'c \<Rightarrow> ('s, 'e) process_op \<times> 'c \<times> unit res" where
  "run_in col em ts key p op c =
     (case run_prog col em ts key p \<lparr>w_timers = po_timers op, w_side = po_side op, w_clock = po_clock op, w_col = c\<rparr> of
        (s', w', r) \<Rightarrow> (\<lparr>po_fn = s', po_timers = w_timers w', po_side = w_side w', po_clock = w_clock w'\<rparr>, w_col w', r))"

definition with_current_key :: "('s, 'e) process_op \<Rightarrow> bytes \<Rightarrow> ('s, 'e) process_op" where
  "with_current_key op key = op\<lparr>po_timers := set_current_key (po_timers op) key\<rparr>"

text \<open>The loop over the fired timers; \<open>on_timer\<close> gets the timer's key, which only the keyed function
  uses.\<close>

fun fire_timers :: "('s \<Rightarrow> event_timestamp \<Rightarrow> bytes \<Rightarrow> event_timestamp \<Rightarrow> ('o, 'v, 's) prog) \<Rightarrow> ('c, 'o) collector \<Rightarrow>
    event_timestamp \<Rightarrow> timer list \<Rightarrow> ('s, 'e) process_op \<Rightarrow> 'c \<Rightarrow> ('s, 'e) process_op \<times> 'c \<times> unit res" where
  "fire_timers on_timer col wm [] op c = (op, c, Ok ())"
| "fire_timers on_timer col wm ((t, key) # fired) op c =
     (let op1 = with_current_key op key
      in case run_in col None wm None (on_timer (po_fn op1) t key wm) op1 c of
           (op2, c2, Ok _) \<Rightarrow> fire_timers on_timer col wm fired op2 c2
         | (op2, c2, Err e) \<Rightarrow> (op2, c2, Err e)
         | (op2, c2, Panic p) \<Rightarrow> (op2, c2, Panic p))"

definition process_timers :: "('s \<Rightarrow> event_timestamp \<Rightarrow> bytes \<Rightarrow> event_timestamp \<Rightarrow> ('o, 'v, 's) prog) \<Rightarrow>
    ('s, 'e) process_op \<Rightarrow> watermark \<Rightarrow> ('c, 'o) collector \<Rightarrow> 'c \<Rightarrow> ('s, 'e) process_op \<times> 'c \<times> unit res" where
  "process_timers on_timer op w col c =
     (let svc = set_watermark (po_timers op) (wm_timestamp w);
          (fired, queue') = fire_event_time_up_to (svc_queue svc) (wm_timestamp w);
          op1 = op\<lparr>po_timers := svc\<lparr>svc_queue := queue'\<rparr>\<rparr>
      in case fire_timers on_timer col (wm_timestamp w) fired op1 c of
           (op2, c2, Ok _) \<Rightarrow> (op2, collect_watermark col c2 w)
         | (op2, c2, Err e) \<Rightarrow> (op2, c2, Err e)
         | (op2, c2, Panic p) \<Rightarrow> (op2, c2, Panic p))"

definition process_operator :: "('s, 'i, 'o, 'v) process_function \<Rightarrow> ('e, 'v) emitter option \<Rightarrow>
    (('s, 'e) process_op, 'c, 'i, 'o) operator" where
  "process_operator pf em = \<lparr>
     process_record = (\<lambda>op rec col c.
       let key = (case rec_key rec of Some k \<Rightarrow> k | None \<Rightarrow> []);
           op1 = with_current_key op key;
           key_ref = (if rec_key rec \<noteq> None then Some key else None)
       in run_in col em (rec_timestamp rec) key_ref
            (pf_element pf (po_fn op1) (rec_value rec) (rec_timestamp rec) key_ref) op1 c),
     process_watermark = process_timers (\<lambda>s t key wm. pf_on_timer pf s t wm),
     process_barrier = (\<lambda>op b col c. (op, collect_barrier col c b))\<rparr>"

definition keyed_process_operator :: "('s, 'i, 'o, 'v) keyed_process_function \<Rightarrow> ('e, 'v) emitter option \<Rightarrow>
    (('s, 'e) process_op, 'c, 'i, 'o) operator" where
  "keyed_process_operator kpf em = \<lparr>
     process_record = (\<lambda>op rec col c.
       let key = (case rec_key rec of Some k \<Rightarrow> k | None \<Rightarrow> []);
           op1 = with_current_key op key
       in run_in col em (rec_timestamp rec) (Some key)
            (kpf_element kpf (po_fn op1) key (rec_value rec) (rec_timestamp rec) (Some key)) op1 c),
     process_watermark = process_timers (kpf_on_timer kpf),
     process_barrier = (\<lambda>op b col c. (op, collect_barrier col c b))\<rparr>"

definition co_process_operator :: "('s, 'i1, 'i2, 'o, 'v) co_process_function \<Rightarrow> ('e, 'v) emitter option \<Rightarrow>
    (('s, 'e) process_op, 'c, ('i1, 'i2) either, 'o) operator" where
  "co_process_operator cpf em = \<lparr>
     process_record = (\<lambda>op rec col c.
       let key = (case rec_key rec of Some k \<Rightarrow> k | None \<Rightarrow> []);
           op1 = with_current_key op key;
           key_ref = (if rec_key rec \<noteq> None then Some key else None)
       in run_in col em (rec_timestamp rec) key_ref
            (case rec_value rec of
               Left v \<Rightarrow> cpf_element1 cpf (po_fn op1) v (rec_timestamp rec) key_ref
             | Right v \<Rightarrow> cpf_element2 cpf (po_fn op1) v (rec_timestamp rec) key_ref) op1 c),
     process_watermark = process_timers (\<lambda>s t key wm. cpf_on_timer cpf s t wm),
     process_barrier = (\<lambda>op b col c. (op, collect_barrier col c b))\<rparr>"

lemma process_operator_sel [simp]:
  "process_watermark (process_operator pf em) = process_timers (\<lambda>s t key wm. pf_on_timer pf s t wm)"
  "process_watermark (keyed_process_operator kpf em') = process_timers (kpf_on_timer kpf)"
  "process_watermark (co_process_operator cpf em'') = process_timers (\<lambda>s t key wm. cpf_on_timer cpf s t wm)"
  by (simp_all add: process_operator_def keyed_process_operator_def co_process_operator_def)

subsection \<open>What a user program can do to the timers\<close>

lemma timer_service_ops [simp]:
  "svc_key (register_event_time_timer s t) = svc_key s" "svc_key (delete_event_time_timer s t) = svc_key s"
  "svc_key (register_processing_time_timer s t) = svc_key s" "svc_key (delete_processing_time_timer s t) = svc_key s"
  "svc_watermark (register_event_time_timer s t) = svc_watermark s"
  "svc_watermark (delete_event_time_timer s t) = svc_watermark s"
  "svc_watermark (register_processing_time_timer s t) = svc_watermark s"
  "svc_watermark (delete_processing_time_timer s t) = svc_watermark s"
  by (simp_all add: register_event_time_timer_def delete_event_time_timer_def register_processing_time_timer_def
      delete_processing_time_timer_def)

text \<open>The timers of a key other than the current one, in both sets.\<close>

definition foreign_timers :: "bytes \<Rightarrow> timer_service \<Rightarrow> timer set \<times> timer set" where
  "foreign_timers key s =
     ({x \<in> set (event_time_timers (svc_queue s)). snd x \<noteq> key},
      {x \<in> set (processing_time_timers (svc_queue s)). snd x \<noteq> key})"

lemma foreign_timers_ops [simp]:
  "foreign_timers (svc_key s) (register_event_time_timer s t) = foreign_timers (svc_key s) s"
  "foreign_timers (svc_key s) (delete_event_time_timer s t) = foreign_timers (svc_key s) s"
  "foreign_timers (svc_key s) (register_processing_time_timer s t) = foreign_timers (svc_key s) s"
  "foreign_timers (svc_key s) (delete_processing_time_timer s t) = foreign_timers (svc_key s) s"
  by (auto simp: foreign_timers_def register_event_time_timer_def delete_event_time_timer_def
      register_processing_time_timer_def delete_processing_time_timer_def
      event_timers.set_pending_register event_timers.set_pending_delete
      processing_timers.set_pending_register processing_timers.set_pending_delete)

lemma run_prog_timers:
  assumes "run_prog col em ts key p w = (s, w', r)"
  shows "svc_key (w_timers w') = svc_key (w_timers w) \<and> svc_watermark (w_timers w') = svc_watermark (w_timers w) \<and>
    foreign_timers (svc_key (w_timers w)) (w_timers w') = foreign_timers (svc_key (w_timers w)) (w_timers w) \<and>
    (timer_service_wf (w_timers w) \<longrightarrow> timer_service_wf (w_timers w'))"
  using assms
proof (induction p arbitrary: w)
  case (RegisterEventTimer t p)
  from RegisterEventTimer.IH [of "w\<lparr>w_timers := register_event_time_timer (w_timers w) t\<rparr>"] RegisterEventTimer.prems
  show ?case by (auto intro: timer_service_wf_ops)
next
  case (DeleteEventTimer t p)
  from DeleteEventTimer.IH [of "w\<lparr>w_timers := delete_event_time_timer (w_timers w) t\<rparr>"] DeleteEventTimer.prems
  show ?case by (auto intro: timer_service_wf_ops)
next
  case (RegisterProcessingTimer t p)
  from RegisterProcessingTimer.IH [of "w\<lparr>w_timers := register_processing_time_timer (w_timers w) t\<rparr>"]
    RegisterProcessingTimer.prems
  show ?case by (auto intro: timer_service_wf_ops)
next
  case (DeleteProcessingTimer t p)
  from DeleteProcessingTimer.IH [of "w\<lparr>w_timers := delete_processing_time_timer (w_timers w) t\<rparr>"]
    DeleteProcessingTimer.prems
  show ?case by (auto intro: timer_service_wf_ops)
next
  case (Collect rec k)
  then show ?case by (auto split: prod.splits) (force+)
next
  case (CollectWatermark wm k)
  then show ?case by (auto split: prod.splits) (force+)
next
  case (CollectBarrier b k)
  then show ?case by (auto split: prod.splits) (force+)
next
  case (CurrentProcessingTime k)
  from CurrentProcessingTime.IH [OF rangeI, of "current_processing_time (next_clock (w_clock w))"
      "w\<lparr>w_clock := drop 1 (w_clock w)\<rparr>"] CurrentProcessingTime.prems
  show ?case by auto
next
  case (SideOutput tag v k)
  then show ?case by (auto split: prod.splits) (force+)
qed (auto intro: rangeI)

subsection \<open>Logging the timer callbacks\<close>

text \<open>A timer callback that also records which timer it was called for. Logging does not interfere:
  erasing the log gives the original run.\<close>

definition logged :: "('s \<Rightarrow> event_timestamp \<Rightarrow> bytes \<Rightarrow> event_timestamp \<Rightarrow> ('o, 'v, 's) prog) \<Rightarrow>
    's \<times> timer list \<Rightarrow> event_timestamp \<Rightarrow> bytes \<Rightarrow> event_timestamp \<Rightarrow> ('o, 'v, 's \<times> timer list) prog" where
  "logged on_timer sl t key wm = map_prog (\<lambda>v. v) (\<lambda>s'. (s', snd sl @ [(t, key)])) (on_timer (fst sl) t key wm)"

lemma run_prog_map:
  "run_prog col em ts key (map_prog (\<lambda>v. v) h p) w =
     (case run_prog col em ts key p w of (s, w', r) \<Rightarrow> (h s, w', r))"
  by (induction p arbitrary: w) (auto split: prod.splits)

definition erase_log :: "('s \<times> timer list, 'e) process_op \<Rightarrow> ('s, 'e) process_op" where
  "erase_log op = \<lparr>po_fn = fst (po_fn op), po_timers = po_timers op, po_side = po_side op, po_clock = po_clock op\<rparr>"

lemma erase_log_sel [simp]:
  "po_fn (erase_log op) = fst (po_fn op)" "po_timers (erase_log op) = po_timers op"
  "with_current_key (erase_log op) key = erase_log (with_current_key op key)"
  "erase_log (op\<lparr>po_timers := svc\<rparr>) = (erase_log op)\<lparr>po_timers := svc\<rparr>"
  "po_fn (with_current_key op key) = po_fn op"
  by (simp_all add: erase_log_def with_current_key_def)

lemma run_in_logged:
  "run_in col None wm None (logged on_timer (po_fn op) t key wm) op c = (op', c', r) \<longleftrightarrow>
   run_in col None wm None (on_timer (fst (po_fn op)) t key wm) (erase_log op) c = (erase_log op', c', r) \<and>
   snd (po_fn op') = snd (po_fn op) @ [(t, key)]"
  by (cases op') (auto simp: run_in_def logged_def run_prog_map erase_log_def split: prod.splits)

lemma fire_timers_logged:
  assumes "fire_timers (logged on_timer) col wm fired op c = (op', c', r)"
  shows "fire_timers on_timer col wm fired (erase_log op) c = (erase_log op', c', r) \<and>
    (\<exists>n \<le> length fired. snd (po_fn op') = snd (po_fn op) @ take n fired \<and> (r = Ok () \<longrightarrow> n = length fired))"
  using assms
proof (induction fired arbitrary: op c)
  case (Cons tk fired)
  obtain t key where tk: "tk = (t, key)" by (cases tk)
  let ?op = "with_current_key op key"
  obtain op2 c2 r2 where call: "run_in col None wm None (logged on_timer (po_fn ?op) t key wm) ?op c = (op2, c2, r2)"
    by (metis prod_cases3)
  then have one: "run_in col None wm None (on_timer (fst (po_fn ?op)) t key wm) (erase_log ?op) c = (erase_log op2, c2, r2)"
    "snd (po_fn op2) = snd (po_fn op) @ [(t, key)]"
    unfolding run_in_logged by simp_all
  show ?case
  proof (cases r2)
    case (Ok u)
    with Cons.prems call have "fire_timers (logged on_timer) col wm fired op2 c2 = (op', c', r)" by (simp add: tk)
    from Cons.IH [OF this] obtain n where "n \<le> length fired" "snd (po_fn op') = snd (po_fn op2) @ take n fired"
      "r = Ok () \<longrightarrow> n = length fired"
      and rest: "fire_timers on_timer col wm fired (erase_log op2) c2 = (erase_log op', c', r)" by blast
    then have "Suc n \<le> length (tk # fired) \<and> snd (po_fn op') = snd (po_fn op) @ take (Suc n) (tk # fired) \<and>
        (r = Ok () \<longrightarrow> Suc n = length (tk # fired))" using one by (simp add: tk)
    moreover have "fire_timers on_timer col wm (tk # fired) (erase_log op) c = (erase_log op', c', r)"
      using one rest Ok by (simp add: tk)
    ultimately show ?thesis by blast
  next
    case (Err e)
    with Cons.prems call one show ?thesis by (auto simp: tk intro!: exI [of _ 1])
  next
    case (Panic p)
    with Cons.prems call one show ?thesis by (auto simp: tk intro!: exI [of _ 1])
  qed
qed simp

text \<open>
  One call of the timer callback, with the timer's key as the current key; and a sequence of calls, one for each of the timers, each
  on the state that the one before left (\<open>sts\<close> are the states between the calls). All but the last succeed, the last one returns \<open>q\<close>.
\<close>

definition call_timer :: "('s \<Rightarrow> event_timestamp \<Rightarrow> bytes \<Rightarrow> event_timestamp \<Rightarrow> ('o, 'v, 's) prog) \<Rightarrow> ('c, 'o) collector \<Rightarrow>
    event_timestamp \<Rightarrow> timer \<Rightarrow> ('s, 'e) process_op \<times> 'c \<Rightarrow> ('s, 'e) process_op \<times> 'c \<times> unit res" where
  "call_timer on_timer col wm tk st =
     (let key = snd tk; op = (fst st)\<lparr>po_timers := (po_timers (fst st))\<lparr>svc_key := key\<rparr>\<rparr>
      in run_in col None wm None (on_timer (po_fn op) (fst tk) key wm) op (snd st))"

definition calls_in_order where
  "calls_in_order on_timer col wm ts sts q \<longleftrightarrow>
     length sts = Suc (length ts) \<and> (ts = [] \<longrightarrow> q = Ok ()) \<and>
     (\<forall>i<length ts. call_timer on_timer col wm (ts ! i) (sts ! i) =
        (fst (sts ! Suc i), snd (sts ! Suc i), if Suc i = length ts then q else Ok ()))"

lemma calls_in_order_Cons:
  assumes "call_timer on_timer col wm tk st = (fst (sts ! 0), snd (sts ! 0), Ok ())" and "calls_in_order on_timer col wm ts sts q"
  shows "calls_in_order on_timer col wm (tk # ts) (st # sts) q"
  using assms by (auto simp: calls_in_order_def less_Suc_eq_0_disj)

lemma fire_timers_calls:
  assumes "fire_timers on_timer col wm fired op c = (op', c', r)"
  shows "\<exists>n sts. n \<le> length fired \<and> calls_in_order on_timer col wm (take n fired) sts r \<and> sts ! 0 = (op, c) \<and>
    (op', c') = last sts \<and> (r = Ok () \<longrightarrow> n = length fired)"
  using assms
proof (induction fired arbitrary: op c)
  case Nil
  then show ?case by (intro exI [of _ 0] exI [of _ "[(op, c)]"]) (simp add: calls_in_order_def)
next
  case (Cons tk fired)
  obtain t key where tk: "tk = (t, key)" by (cases tk)
  let ?op = "with_current_key op key"
  obtain op2 c2 r2 where run: "run_in col None wm None (on_timer (po_fn ?op) t key wm) ?op c = (op2, c2, r2)"
    by (metis prod_cases3)
  then have call: "call_timer on_timer col wm tk (op, c) = (op2, c2, r2)"
    by (simp add: call_timer_def tk with_current_key_def set_current_key_def)
  have stop: ?case if "r2 \<noteq> Ok ()"
  proof -
    from Cons.prems run that have "op' = op2" "c' = c2" "r = r2" by (cases r2; simp add: tk)+
    then show ?thesis using call that
      by (intro exI [of _ 1] exI [of _ "[(op, c), (op2, c2)]"]) (simp add: calls_in_order_def)
  qed
  show ?case
  proof (cases "r2 = Ok ()")
    case True
    with Cons.prems run have "fire_timers on_timer col wm fired op2 c2 = (op', c', r)" by (simp add: tk)
    from Cons.IH [OF this] obtain n sts where ih: "n \<le> length fired" "calls_in_order on_timer col wm (take n fired) sts r"
      "sts ! 0 = (op2, c2)" "(op', c') = last sts" "r = Ok () \<longrightarrow> n = length fired" by blast
    have "calls_in_order on_timer col wm (take (Suc n) (tk # fired)) ((op, c) # sts) r"
      using calls_in_order_Cons [OF _ ih(2), of tk "(op, c)"] call True ih(3) by simp
    then show ?thesis using ih by (intro exI [of _ "Suc n"] exI [of _ "(op, c) # sts"]) (auto simp: calls_in_order_def)
  qed (rule stop)
qed

lemma fire_timers_wf:
  assumes "fire_timers on_timer col wm fired op c = (op', c', r)" and "timer_service_wf (po_timers op)"
  shows "timer_service_wf (po_timers op') \<and> svc_watermark (po_timers op') = svc_watermark (po_timers op)"
  using assms
proof (induction fired arbitrary: op c)
  case (Cons tk fired)
  obtain t key where tk: "tk = (t, key)" by (cases tk)
  let ?op = "with_current_key op key"
  obtain op2 c2 r2 where run: "run_in col None wm None (on_timer (po_fn ?op) t key wm) ?op c = (op2, c2, r2)"
    by (metis prod_cases3)
  obtain s w' where prog: "run_prog col None wm None (on_timer (po_fn ?op) t key wm)
      \<lparr>w_timers = po_timers ?op, w_side = po_side ?op, w_clock = po_clock ?op, w_col = c\<rparr> = (s, w', r2)"
    and op2: "po_timers op2 = w_timers w'" using run by (auto simp: run_in_def split: prod.splits)
  have "timer_service_wf (po_timers ?op)" "svc_watermark (po_timers ?op) = svc_watermark (po_timers op)"
    using timer_service_wf_ops(1) [OF Cons.prems(2), of key] by (simp_all add: with_current_key_def set_current_key_def)
  with run_prog_timers [OF prog] op2
  have one: "timer_service_wf (po_timers op2) \<and> svc_watermark (po_timers op2) = svc_watermark (po_timers op)" by simp
  show ?case
  proof (cases "r2 = Ok ()")
    case True
    with Cons.prems(1) run have "fire_timers on_timer col wm fired op2 c2 = (op', c', r)" by (simp add: tk)
    from Cons.IH [OF this] one show ?thesis by simp
  next
    case False
    with Cons.prems(1) run have "op' = op2" by (cases r2) (simp_all add: tk)
    with one show ?thesis by simp
  qed
qed simp

text \<open>What processing a record for \<open>key\<close> may not change.\<close>

definition record_key_of :: "'a flume_record \<Rightarrow> bytes" where
  "record_key_of rec = (case rec_key rec of Some k \<Rightarrow> k | None \<Rightarrow> [])"

definition key_isolated :: "bytes \<Rightarrow> ('s, 'e) process_op \<Rightarrow> ('s, 'e) process_op \<Rightarrow> bool" where
  "key_isolated key op op' \<longleftrightarrow>
     foreign_timers key (po_timers op') = foreign_timers key (po_timers op) \<and>
     svc_watermark (po_timers op') = svc_watermark (po_timers op) \<and> timer_service_wf (po_timers op')"

lemma run_in_isolated:
  assumes "timer_service_wf (po_timers op)"
  shows "key_isolated k op (fst (run_in col em ts key p (with_current_key op k) c))"
proof -
  obtain s w' r where run: "run_prog col em ts key p
      \<lparr>w_timers = set_current_key (po_timers op) k, w_side = po_side op, w_clock = po_clock op, w_col = c\<rparr> = (s, w', r)"
    by (metis prod_cases3)
  have "svc_key (set_current_key (po_timers op) k) = k"
    "foreign_timers k (set_current_key (po_timers op) k) = foreign_timers k (po_timers op)"
    "svc_watermark (set_current_key (po_timers op) k) = svc_watermark (po_timers op)"
    by (simp_all add: set_current_key_def foreign_timers_def)
  with run_prog_timers [OF run] timer_service_wf_ops(1) [OF assms, of k] show ?thesis
    by (simp add: key_isolated_def run_in_def with_current_key_def run)
qed

subsection \<open>Properties\<close>

text \<open>Logging the calls does not interfere with a watermark either: erasing the log gives the run of the original callback.\<close>

lemma process_timers_logged:
  assumes "process_timers (logged on_timer) op w col c = (op', c', r)"
  defines "due_timers \<equiv> filter (\<lambda>(t, k). t \<le> wm_timestamp w \<and> t < ts_MAX) (event_time_timers (svc_queue (po_timers op)))"
  shows "process_timers on_timer (erase_log op) w col c = (erase_log op', c', r) \<and>
    (\<exists>n \<le> length due_timers. snd (po_fn op') = snd (po_fn op) @ take n due_timers \<and>
       (r = Ok () \<longrightarrow> n = length due_timers))"
proof -
  let ?svc = "set_watermark (po_timers op) (wm_timestamp w)"
  obtain fired q' where fire: "fire_event_time_up_to (svc_queue ?svc) (wm_timestamp w) = (fired, q')" by fastforce
  have q: "svc_queue ?svc = svc_queue (po_timers op)" by (simp add: set_watermark_def)
  have "fired = filter (due (wm_timestamp w)) (event_time_timers (svc_queue (po_timers op)))"
    using event_timers.fired_due [of "svc_queue ?svc" "wm_timestamp w"] fire q by simp
  also have "due (wm_timestamp w) = (\<lambda>(t, k). t \<le> wm_timestamp w \<and> t < ts_MAX)"
    by (auto simp: due_def fun_eq_iff)
  finally have fired: "fired = due_timers" by (simp add: due_timers_def)
  let ?op = "op\<lparr>po_timers := ?svc\<lparr>svc_queue := q'\<rparr>\<rparr>"
  obtain op2 c2 r2 where loop: "fire_timers (logged on_timer) col (wm_timestamp w) fired ?op c = (op2, c2, r2)"
    by (metis prod_cases3)
  from fire_timers_logged [OF this] obtain n where erased: "fire_timers on_timer col (wm_timestamp w) fired (erase_log ?op) c =
      (erase_log op2, c2, r2)" and n: "n \<le> length fired" "snd (po_fn op2) = snd (po_fn op) @ take n fired"
      "r2 = Ok () \<longrightarrow> n = length fired" by auto
  have "(op', c', r) = (case r2 of Ok _ \<Rightarrow> (op2, collect_watermark col c2 w) | _ \<Rightarrow> (op2, c2, r2))"
    using assms(1) fire loop by (auto simp: process_timers_def split: res.splits)
  moreover have "process_timers on_timer (erase_log op) w col c =
      (case r2 of Ok _ \<Rightarrow> (erase_log op2, collect_watermark col c2 w) | _ \<Rightarrow> (erase_log op2, c2, r2))"
    using fire erased by (simp add: process_timers_def split: res.splits)
  ultimately show ?thesis using n by (auto simp: fired split: res.splits)
qed

text \<open>C24. A watermark fires every due timer exactly once, in time order, under its key, and is forwarded after them. The due timers
  are the pending event-time timers at or below the watermark (but for those at the largest timestamp), in strictly increasing
  order of timestamp and key. They are removed and the timer service is set to the watermark before the first callback. Then the
  callback runs once for each, with the timer's key as the current key, each call on the operator and collector that the one
  before left behind. When all succeed, the watermark is forwarded to the collector, once and last, and its result is the result;
  the first failing call ends the loop, and neither a later timer nor the watermark is seen.\<close>

theorem process_timers_fire_once:
  assumes "timer_service_wf (po_timers op)" and "process_timers on_timer op w col c = (op', c', r)"
  defines "is_due \<equiv> (\<lambda>(t, k). t \<le> wm_timestamp w \<and> t < ts_MAX)"
  defines "due_timers \<equiv> filter is_due (event_time_timers (svc_queue (po_timers op)))"
  shows "sorted_wrt (<) due_timers \<and> timer_service_wf (po_timers op') \<and> svc_watermark (po_timers op') = wm_timestamp w \<and>
    (\<exists>n sts q. n \<le> length due_timers \<and> calls_in_order on_timer col (wm_timestamp w) (take n due_timers) sts q \<and>
       po_timers (fst (sts ! 0)) = \<lparr>svc_queue = (svc_queue (po_timers op))
           \<lparr>event_time_timers := filter (Not \<circ> is_due) (event_time_timers (svc_queue (po_timers op)))\<rparr>,
         svc_watermark = wm_timestamp w, svc_key = svc_key (po_timers op)\<rparr> \<and>
       po_fn (fst (sts ! 0)) = po_fn op \<and> snd (sts ! 0) = c \<and>
       (if q = Ok () then n = length due_timers \<and> op' = fst (last sts) \<and> collect_watermark col (snd (last sts)) w = (c', r)
        else (op', c') = last sts \<and> r = q))"
proof -
  let ?svc = "set_watermark (po_timers op) (wm_timestamp w)"
  obtain fired q' where fire: "fire_event_time_up_to (svc_queue ?svc) (wm_timestamp w) = (fired, q')" by fastforce
  have due: "due (wm_timestamp w) = is_due" by (auto simp: due_def is_due_def fun_eq_iff)
  have q: "svc_queue ?svc = svc_queue (po_timers op)" by (simp add: set_watermark_def)
  have fired: "fired = due_timers" and queue: "q' = (svc_queue (po_timers op))
      \<lparr>event_time_timers := filter (Not \<circ> is_due) (event_time_timers (svc_queue (po_timers op)))\<rparr>"
    using fire by (auto simp: fire_event_time_up_to_def split_off_due due due_timers_def q comp_def)
  let ?op = "op\<lparr>po_timers := ?svc\<lparr>svc_queue := q'\<rparr>\<rparr>"
  obtain op2 c2 r2 where loop: "fire_timers on_timer col (wm_timestamp w) due_timers ?op c = (op2, c2, r2)" by (metis prod_cases3)
  have res: "(op', c', r) = (case r2 of Ok _ \<Rightarrow> (op2, collect_watermark col c2 w) | _ \<Rightarrow> (op2, c2, r2))"
    using assms(2) fire loop fired by (auto simp: process_timers_def split: res.splits)
  have "timer_service_wf (po_timers ?op)"
    using assms(1) by (auto simp: timer_service_wf_def timer_queue_wf_def queue set_watermark_def sorted_wrt_filter)
  from fire_timers_wf [OF loop this] have wf: "timer_service_wf (po_timers op2) \<and> svc_watermark (po_timers op2) = wm_timestamp w"
    by (simp add: set_watermark_def)
  have sorted: "sorted_wrt (<) due_timers"
    using assms(1) by (auto simp: timer_service_wf_def timer_queue_wf_def due_timers_def sorted_wrt_filter)
  from fire_timers_calls [OF loop] obtain n sts where calls: "n \<le> length due_timers"
    "calls_in_order on_timer col (wm_timestamp w) (take n due_timers) sts r2" "sts ! 0 = (?op, c)" "(op2, c2) = last sts"
    "r2 = Ok () \<longrightarrow> n = length due_timers" by blast
  have "if r2 = Ok () then op' = op2 \<and> collect_watermark col c2 w = (c', r) else (op', c') = (op2, c2) \<and> r = r2"
    using res by (cases r2) auto
  moreover from this have "op' = op2" by (simp split: if_splits)
  moreover have "po_timers (fst (sts ! 0)) = \<lparr>svc_queue = (svc_queue (po_timers op))
           \<lparr>event_time_timers := filter (Not \<circ> is_due) (event_time_timers (svc_queue (po_timers op)))\<rparr>,
         svc_watermark = wm_timestamp w, svc_key = svc_key (po_timers op)\<rparr> \<and> po_fn (fst (sts ! 0)) = po_fn op \<and> snd (sts ! 0) = c"
    using calls(3) by (cases "po_timers op") (simp add: queue set_watermark_def)
  ultimately show ?thesis using calls(1,2,5) calls(4) [symmetric] wf sorted
    by (intro conjI exI [of _ n] exI [of _ sts] exI [of _ r2]) (simp_all split: if_splits)
qed

text \<open>Processing a record cannot touch the timers of another key: whatever the user function does,
  in each of the three operators the event-time and processing-time timers of every key other than
  the record's are the same after the call, the watermark of the timer service too, and the timer
  sets stay ordered and free of duplicates.\<close>

lemma timer_key_isolation:
  assumes "timer_service_wf (po_timers op)"
  shows "key_isolated (record_key_of rec) op (fst (process_record (process_operator pf em) op rec col c)) \<and>
    key_isolated (record_key_of rec) op (fst (process_record (keyed_process_operator kpf em') op rec col' c')) \<and>
    key_isolated (record_key_of rec'') op (fst (process_record (co_process_operator cpf em'') op rec'' col'' c''))"
  by (simp add: process_operator_def keyed_process_operator_def co_process_operator_def Let_def
      run_in_isolated [OF assms] flip: record_key_of_def)

subsection \<open>Witnesses\<close>

text \<open>A keyed function that sets a timer ten milliseconds after each record and emits when it fires.\<close>

definition alarm :: "(unit, int, int, unit) keyed_process_function" where
  "alarm = \<lparr>
     kpf_element = (\<lambda>s key v t key'. RegisterEventTimer (ts_add t 10) (Return () (Ok ()))),
     kpf_on_timer = (\<lambda>s t key wm. Collect (with_key (record_new 1 t) key) (\<lambda>r. Return () r))\<rparr>"

theorem process_timers_fire_once_witness:
  "\<exists>op'. process_timers (kpf_on_timer alarm)
      \<lparr>po_fn = (), po_timers = register_event_time_timer (set_current_key timer_service_new [7]) (EventTimestamp 5), po_side = (), po_clock = []\<rparr>
      (Watermark (EventTimestamp 7)) test_collector [] =
        (op', [ElemRecord (with_key (record_new 1 (EventTimestamp 5)) [7]), ElemWatermark (Watermark (EventTimestamp 7))], Ok ()) \<and>
    timer_service_wf (po_timers op') \<and> event_time_timers (svc_queue (po_timers op')) = []"
proof -
  let ?op = "\<lparr>po_fn = (), po_timers = register_event_time_timer (set_current_key timer_service_new [7]) (EventTimestamp 5), po_side = (), po_clock = []\<rparr>"
  have wf: "timer_service_wf (po_timers ?op)" using timer_service_wf_ops(1,3) timer_service_wf_new by simp
  obtain op' c' r where call: "process_timers (kpf_on_timer alarm) ?op (Watermark (EventTimestamp 7)) test_collector [] = (op', c', r)"
    by (metis prod_cases3)
  then have "c' = [ElemRecord (with_key (record_new 1 (EventTimestamp 5)) [7]), ElemWatermark (Watermark (EventTimestamp 7))]"
    "r = Ok ()" "event_time_timers (svc_queue (po_timers op')) = []"
    by (auto simp: process_timers_def fire_event_time_up_to_def bts_split_off_def set_watermark_def set_current_key_def
        register_event_time_timer_def timer_service_new_def register_event_time_def timer_queue_new_def
        saturating_add_def less_event_timestamp_def less_eq_event_timestamp_def alarm_def run_in_def with_current_key_def Let_def test_collector_def)
  with process_timers_fire_once [OF wf call] call show ?thesis by blast
qed

lemma timer_key_isolation_example:
  "(EventTimestamp 5, [7]) \<in> fst (foreign_timers [9] (po_timers (fst (process_record (keyed_process_operator alarm None)
      \<lparr>po_fn = (), po_timers = register_event_time_timer (set_current_key timer_service_new [7]) (EventTimestamp 5),
        po_side = (), po_clock = []\<rparr> (with_key (record_new 1 (EventTimestamp 3)) [9]) test_collector []))))"
proof -
  let ?op = "\<lparr>po_fn = (), po_timers = register_event_time_timer (set_current_key timer_service_new [7]) (EventTimestamp 5),
        po_side = (), po_clock = []\<rparr>"
  let ?rec = "with_key (record_new (1 :: int) (EventTimestamp 3)) [9]"
  have wf: "timer_service_wf (po_timers ?op)"
    using timer_service_wf_ops(1,3) timer_service_wf_new by simp
  have "(EventTimestamp 5, [7]) \<in> fst (foreign_timers [9] (po_timers ?op))"
    by (simp add: foreign_timers_def register_event_time_timer_def event_timers.set_pending_register set_current_key_def)
  moreover have "record_key_of ?rec = [9]" by (simp add: record_key_of_def)
  moreover have "key_isolated (record_key_of ?rec) ?op
      (fst (process_record (keyed_process_operator alarm None) ?op ?rec test_collector []))"
    using timer_key_isolation [OF wf, where rec = ?rec and kpf = alarm and em' = None and col' = test_collector and c' = "[]"] by (rule conjunct1 [OF conjunct2])
  ultimately show ?thesis by (simp add: key_isolated_def)
qed

end
