(* ===== verification/Task_Executor.thy ===== *)
theory Task_Executor
  imports Ring_Buffer Process_Operator
begin

text \<open>
  How an operator is run (\<open>flume-runtime/src\<close>): the two kinds of channel behind \<open>operator_channel_with_kind\<close> and
  \<open>OperatorInput\<close> (\<open>channel.rs\<close>), the hot loop of a task with its cancellation (\<open>task.rs\<close>), the scheduler that waits for the
  tasks (\<open>scheduler.rs\<close>) and the typed channels of side outputs (\<open>side_output.rs\<close>). The task is driven by a schedule of polls
  and of what its environment does between them; the locale \<open>operator_input\<close> is what it relies on.
\<close>

subsection \<open>Channels between operators\<close>

datatype ('a, 'n) transport =
    MpscChannel (mpsc_capacity: nat) (mpsc_queue: "'a stream_element list") (mpsc_closed: bool)
  | RingChannel (ring_of: "('a stream_element, 'n) ring")

text \<open>\<open>tokio::sync::mpsc::channel\<close> panics on a buffer size of zero, the ring buffer rounds it up.\<close>

definition operator_channel :: "nat \<Rightarrow> ('a, 'n) transport res" where
  "operator_channel buffer_size =
     (if buffer_size = 0 then Panic ''mpsc bounded channel requires buffer > 0'' else Ok (MpscChannel buffer_size [] False))"

definition operator_ring_buffer :: "nat \<Rightarrow> 'n \<Rightarrow> ('a, 'n) transport res" where
  "operator_ring_buffer buffer_size n = Ok (RingChannel (ring_buffer buffer_size n))"

definition operator_channel_with_kind :: "nat \<Rightarrow> channel_kind \<Rightarrow> 'n \<Rightarrow> ('a, 'n) transport res" where
  "operator_channel_with_kind buffer_size kind n =
     (case kind of Mpsc \<Rightarrow> operator_channel buffer_size | RingBuffer \<Rightarrow> operator_ring_buffer buffer_size n)"

fun transport_send :: "('n \<Rightarrow> 'n) \<Rightarrow> ('a, 'n) transport \<Rightarrow> 'a stream_element \<Rightarrow> ('a, 'n) transport \<times> bool" where
  "transport_send nf (MpscChannel cap q closed) e =
     (if length q < cap then (MpscChannel cap (q @ [e]) closed, True) else (MpscChannel cap q closed, False))"
| "transport_send nf (RingChannel r) e = (case try_send nf r e of (r', ok) \<Rightarrow> (RingChannel r', ok))"

fun transport_drop :: "('n \<Rightarrow> 'n) \<Rightarrow> ('a, 'n) transport \<Rightarrow> ('a, 'n) transport" where
  "transport_drop nf (MpscChannel cap q closed) = MpscChannel cap q True"
| "transport_drop nf (RingChannel r) = RingChannel (drop_producer nf r)"

text \<open>One poll of \<open>OperatorInput::recv\<close>.\<close>

datatype 'e poll = ReadyElement 'e | ReadyClosed | PollPending | PollPanic string

fun poll_recv :: "('a, 'n) transport \<Rightarrow> ('a, 'n) transport \<times> 'a stream_element poll" where
  "poll_recv (MpscChannel cap q closed) =
     (case q of
        e # es \<Rightarrow> (MpscChannel cap es closed, ReadyElement e)
      | [] \<Rightarrow> (MpscChannel cap [] closed, if closed then ReadyClosed else PollPending))"
| "poll_recv (RingChannel r) =
     (case try_recv r of
        (r', Ok (Some e)) \<Rightarrow> (RingChannel r', ReadyElement e)
      | (r', Ok None) \<Rightarrow> (RingChannel r', if rb_closed r' then ReadyClosed else PollPending)
      | (r', Err e) \<Rightarrow> (RingChannel r', PollPanic ''recv'')
      | (r', Panic p) \<Rightarrow> (RingChannel r', PollPanic p))"

fun transport_contents :: "('a, 'n) transport \<Rightarrow> 'a stream_element list" where
  "transport_contents (MpscChannel cap q closed) = q"
| "transport_contents (RingChannel r) = ring_contents r"

fun transport_closed :: "('a, 'n) transport \<Rightarrow> bool" where
  "transport_closed (MpscChannel cap q closed) = closed"
| "transport_closed (RingChannel r) = rb_closed r"

fun transport_valid :: "('a, 'n) transport \<Rightarrow> bool" where
  "transport_valid (MpscChannel cap q closed) = True"
| "transport_valid (RingChannel r) = ring_inv r"

subsection \<open>What a task relies on\<close>

text \<open>An input hands out what was sent in order, then its end once the sender is dropped, and is pending otherwise.\<close>

locale operator_input = sender_laws snd_op contents valid
  for snd_op :: "'ch \<Rightarrow> 'e \<Rightarrow> 'ch \<times> bool" and contents :: "'ch \<Rightarrow> 'e list" and valid :: "'ch \<Rightarrow> bool" +
  fixes drop_sender :: "'ch \<Rightarrow> 'ch" and poll :: "'ch \<Rightarrow> 'ch \<times> 'e poll" and closed :: "'ch \<Rightarrow> bool"
  assumes send_closed: "snd_op ch e = (ch', ok) \<Longrightarrow> closed ch' = closed ch"
    and drop_laws: "valid ch \<Longrightarrow> valid (drop_sender ch) \<and> contents (drop_sender ch) = contents ch \<and> closed (drop_sender ch)"
    and poll_element: "valid ch \<Longrightarrow> contents ch = e # es \<Longrightarrow>
      \<exists>ch'. poll ch = (ch', ReadyElement e) \<and> contents ch' = es \<and> closed ch' = closed ch \<and> valid ch'"
    and poll_empty: "valid ch \<Longrightarrow> contents ch = [] \<Longrightarrow>
      \<exists>ch'. poll ch = (ch', if closed ch then ReadyClosed else PollPending) \<and> contents ch' = [] \<and> closed ch' = closed ch \<and> valid ch'"

lemma try_recv_closed: "try_recv s = (s', r) \<Longrightarrow> rb_closed s' = rb_closed s"
  by (auto simp: try_recv_def Let_def split: if_splits option.splits)

lemma try_send_closed: "try_send nf s v = (s', ok) \<Longrightarrow> rb_closed s' = rb_closed s"
  by (auto simp: try_send_def Let_def split: if_splits)

lemma ring_inv_drop: "ring_inv r \<Longrightarrow> ring_inv (drop_producer nf r)"
  by (simp add: ring_inv_def drop_producer_def)

lemma transport_send_step:
  "transport_valid ch \<Longrightarrow> transport_send nf ch e = (ch', ok) \<Longrightarrow>
   transport_valid ch' \<and> transport_contents ch' = transport_contents ch @ (if ok then [e] else []) \<and> transport_closed ch' = transport_closed ch"
proof (cases ch)
  case (RingChannel r)
  obtain r' ok' where "try_send nf r e = (r', ok')" by fastforce
  moreover assume "transport_valid ch" "transport_send nf ch e = (ch', ok)"
  ultimately show ?thesis using RingChannel try_send_step [of r nf e r' ok'] try_send_closed [of nf r e r' ok'] by auto
qed (auto split: if_splits)

interpretation transport: operator_input "transport_send nf" transport_contents transport_valid "transport_drop nf" poll_recv transport_closed
proof
  fix ch ch' e es ok
  show "transport_valid ch \<Longrightarrow> transport_send nf ch e = (ch', True) \<Longrightarrow> transport_contents ch' = transport_contents ch @ [e]"
    using transport_send_step [of ch nf e ch' True] by simp
  show "transport_valid ch \<Longrightarrow> transport_send nf ch e = (ch', False) \<Longrightarrow> transport_contents ch' = transport_contents ch"
    using transport_send_step [of ch nf e ch' False] by simp
  show "transport_valid ch \<Longrightarrow> transport_valid (fst (transport_send nf ch e))"
    using transport_send_step [of ch nf e] by (cases "transport_send nf ch e") simp
  show "transport_send nf ch e = (ch', ok) \<Longrightarrow> transport_closed ch' = transport_closed ch"
    by (cases ch) (auto split: if_splits prod.splits simp: try_send_closed)
  show "transport_valid ch \<Longrightarrow> transport_valid (transport_drop nf ch) \<and> transport_contents (transport_drop nf ch) = transport_contents ch \<and>
      transport_closed (transport_drop nf ch)"
    by (cases ch) (auto simp: ring_inv_drop, simp_all add: drop_producer_def)
  show "transport_valid ch \<Longrightarrow> transport_contents ch = e # es \<Longrightarrow>
      \<exists>ch'. poll_recv ch = (ch', ReadyElement e) \<and> transport_contents ch' = es \<and> transport_closed ch' = transport_closed ch \<and> transport_valid ch'"
  proof (cases ch)
    case (RingChannel r)
    moreover assume "transport_valid ch" "transport_contents ch = e # es"
    moreover obtain r' res where "try_recv r = (r', res)" by fastforce
    ultimately show ?thesis using try_recv_step [of r r' res] try_recv_closed [of r r' res] by auto
  qed auto
  show "transport_valid ch \<Longrightarrow> transport_contents ch = [] \<Longrightarrow>
      \<exists>ch'. poll_recv ch = (ch', if transport_closed ch then ReadyClosed else PollPending) \<and> transport_contents ch' = [] \<and>
        transport_closed ch' = transport_closed ch \<and> transport_valid ch'"
  proof (cases ch)
    case (RingChannel r)
    moreover assume "transport_valid ch" "transport_contents ch = []"
    moreover obtain r' res where "try_recv r = (r', res)" by fastforce
    ultimately show ?thesis using try_recv_step [of r r' res] try_recv_closed [of r r' res] by auto
  qed auto
qed

subsection \<open>The task\<close>

record ('op, 'c, 'ch) task =
  task_op :: 'op
  task_col :: 'c
  task_input :: 'ch
  task_has_token :: bool
  task_token :: bool
  task_draining :: bool
  task_records :: nat
  task_result :: "unit res option"

definition task_new :: "'op \<Rightarrow> 'ch \<Rightarrow> 'c \<Rightarrow> ('op, 'c, 'ch) task" where
  "task_new op input c = \<lparr>task_op = op, task_col = c, task_input = input, task_has_token = False, task_token = False,
     task_draining = False, task_records = 0, task_result = None\<rparr>"

definition with_cancel :: "('op, 'c, 'ch) task \<Rightarrow> ('op, 'c, 'ch) task" where
  "with_cancel t = t\<lparr>task_has_token := True\<rparr>"

text \<open>The dispatch of one element; an error of the operator ends the task.\<close>

definition dispatch :: "('op, 'c, 'i, 'o) operator \<Rightarrow> ('c, 'o) collector \<Rightarrow> 'i stream_element \<Rightarrow> ('op, 'c, 'ch) task \<Rightarrow> ('op, 'c, 'ch) task" where
  "dispatch opr col e t =
     (case (case e of
              ElemRecord r \<Rightarrow> process_record opr (task_op t) r col (task_col t)
            | ElemWatermark w \<Rightarrow> process_watermark opr (task_op t) w col (task_col t)
            | ElemBarrier b \<Rightarrow> process_barrier opr (task_op t) b col (task_col t)) of
        (op', c', r) \<Rightarrow>
          t\<lparr>task_op := op', task_col := c',
            task_records := (case (e, r) of (ElemRecord _, Ok _) \<Rightarrow> task_records t + 1 | _ \<Rightarrow> task_records t),
            task_result := (case r of Ok _ \<Rightarrow> None | _ \<Rightarrow> Some r)\<rparr>)"

text \<open>
  One poll of the task: the receive is tried first; only when it is pending, the task has a token and is not
  draining yet, is the cancellation looked at.
\<close>

definition task_poll where
  "task_poll opr col poll t =
     (if task_result t \<noteq> None then t
      else case poll (task_input t) of
        (input, ReadyElement e) \<Rightarrow> dispatch opr col e (t\<lparr>task_input := input\<rparr>)
      | (input, ReadyClosed) \<Rightarrow> t\<lparr>task_input := input, task_result := Some (Ok ())\<rparr>
      | (input, PollPanic p) \<Rightarrow> t\<lparr>task_input := input, task_result := Some (Panic p)\<rparr>
      | (input, PollPending) \<Rightarrow>
          if \<not> task_draining t \<and> task_has_token t \<and> task_token t
          then t\<lparr>task_input := input, task_draining := True\<rparr> else t\<lparr>task_input := input\<rparr>)"

text \<open>What can happen, in any order: the upstream sends an element or drops its sender, the token is cancelled, the
  task is polled. Nothing is sent after the sender was dropped or to a task that has ended. The second
  component collects the elements the channel accepted.\<close>

datatype 'e task_action = EnvSend 'e | EnvDrop | EnvCancel | Poll

fun task_run where
  "task_run opr col snd_op drop_sender poll closed [] t acc = (t, acc)"
| "task_run opr col snd_op drop_sender poll closed (EnvSend e # acts) t acc =
     (if closed (task_input t) \<or> task_result t \<noteq> None then task_run opr col snd_op drop_sender poll closed acts t acc
      else case snd_op (task_input t) e of
        (input, ok) \<Rightarrow> task_run opr col snd_op drop_sender poll closed acts (t\<lparr>task_input := input\<rparr>) (if ok then acc @ [e] else acc))"
| "task_run opr col snd_op drop_sender poll closed (EnvDrop # acts) t acc =
     task_run opr col snd_op drop_sender poll closed acts (t\<lparr>task_input := drop_sender (task_input t)\<rparr>) acc"
| "task_run opr col snd_op drop_sender poll closed (EnvCancel # acts) t acc =
     task_run opr col snd_op drop_sender poll closed acts (t\<lparr>task_token := True\<rparr>) acc"
| "task_run opr col snd_op drop_sender poll closed (Poll # acts) t acc =
     task_run opr col snd_op drop_sender poll closed acts (task_poll opr col poll t) acc"

subsection \<open>The scheduler\<close>

text \<open>The tasks in the order they were spawned, each with what it returned; a panic is what joining it reports,
  \<open>show_join\<close> being the text tokio gives it.\<close>

record scheduler =
  sch_handles :: "(string \<times> unit res) list"
  sch_cancelled :: bool

definition scheduler_new :: scheduler where "scheduler_new = \<lparr>sch_handles = [], sch_cancelled = False\<rparr>"

definition cancel_tasks :: "scheduler \<Rightarrow> scheduler" where "cancel_tasks s = s\<lparr>sch_cancelled := True\<rparr>"

definition spawn :: "string \<Rightarrow> unit res \<Rightarrow> scheduler \<Rightarrow> scheduler" where
  "spawn name outcome s = s\<lparr>sch_handles := sch_handles s @ [(name, outcome)]\<rparr>"

definition task_error :: "(string \<Rightarrow> string) \<Rightarrow> string \<Rightarrow> unit res \<Rightarrow> flume_error option" where
  "task_error show_join name r =
     (case r of
        Ok _ \<Rightarrow> None
      | Err e \<Rightarrow> Some e
      | Panic p \<Rightarrow> Some (ExecutionError (''task '' @ [CHR 0x27] @ name @ [CHR 0x27] @ '' panicked: '' @ show_join p)))"

fun wait_loop :: "(string \<Rightarrow> string) \<Rightarrow> (string \<times> unit res) list \<Rightarrow> flume_error option \<Rightarrow> flume_error option" where
  "wait_loop show_join [] first_error = first_error"
| "wait_loop show_join ((name, r) # handles) first_error =
     wait_loop show_join handles
       (case task_error show_join name r of
          None \<Rightarrow> first_error
        | Some e \<Rightarrow> (case first_error of None \<Rightarrow> Some e | Some e' \<Rightarrow> Some e'))"

definition wait_all :: "(string \<Rightarrow> string) \<Rightarrow> scheduler \<Rightarrow> unit res" where
  "wait_all show_join s = (case wait_loop show_join (sch_handles s) None of Some e \<Rightarrow> Err e | None \<Rightarrow> Ok ())"

subsection \<open>Side outputs\<close>

text \<open>
  A registered channel accepts the values of one type: \<open>of_type\<close> is the downcast. \<open>'v\<close> is the type of all
  side output values, as in \<open>Process_Operator\<close>; the channel is a bounded queue of records.
\<close>

record 'v side_channel =
  side_type :: "'v \<Rightarrow> bool"
  side_capacity :: nat
  side_queue :: "'v flume_record list"

type_synonym 'v side_collectors = "string \<rightharpoonup> 'v side_channel"

definition side_new :: "'v side_collectors" where "side_new = Map.empty"

definition side_register :: "string \<Rightarrow> ('v \<Rightarrow> bool) \<Rightarrow> nat \<Rightarrow> 'v side_collectors \<Rightarrow> 'v side_collectors" where
  "side_register tag of_type capacity s = s(tag \<mapsto> \<lparr>side_type = of_type, side_capacity = capacity, side_queue = []\<rparr>)"

definition side_send :: "'v side_channel \<Rightarrow> 'v \<Rightarrow> event_timestamp \<Rightarrow> bytes option \<Rightarrow> 'v side_channel \<times> unit res" where
  "side_send ch v timestamp key =
     (if \<not> side_type ch v then (ch, Err (OperatorError ''side output type mismatch during downcast''))
      else case bounded_try_send (side_capacity ch) (side_queue ch) ((record_new v timestamp)\<lparr>rec_key := key\<rparr>) of
        (q, ok) \<Rightarrow> (ch\<lparr>side_queue := q\<rparr>, if ok then Ok () else Err ChannelClosed))"

definition side_emit :: "('v side_collectors, 'v) emitter" where
  "side_emit s tag v timestamp key =
     (case s tag of
        None \<Rightarrow> (s, Err (OperatorError (''unknown side output tag: '' @ tag)))
      | Some ch \<Rightarrow> (case side_send ch v timestamp key of (ch', r) \<Rightarrow> (s(tag \<mapsto> ch'), r)))"

subsection \<open>What a task has done\<close>

lemma dispatch_step:
  "dispatch opr col e t = (case operator_step opr col e (task_op t) (task_col t) of (op', c', r) \<Rightarrow>
     t\<lparr>task_op := op', task_col := c',
       task_records := (case (e, r) of (ElemRecord _, Ok _) \<Rightarrow> task_records t + 1 | _ \<Rightarrow> task_records t),
       task_result := (case r of Ok _ \<Rightarrow> None | _ \<Rightarrow> Some r)\<rparr>)"
  by (cases e) (simp_all add: dispatch_def)

lemma operator_run_snoc:
  assumes "operator_run opr col es s c = (s1, c1, Ok ())"
  shows "operator_run opr col (es @ [e]) s c = operator_step opr col e s1 c1"
  using assms by (auto simp: operator_run_append split: prod.splits res.splits)

definition outcome :: "('op, 'c, 'ch) task \<Rightarrow> unit res" where
  "outcome t = (case task_result t of None \<Rightarrow> Ok () | Some r \<Rightarrow> r)"

locale element_input = operator_input snd_op contents valid drop_sender poll closed
  for snd_op :: "'ch \<Rightarrow> 'i stream_element \<Rightarrow> 'ch \<times> bool" and contents and valid and drop_sender and poll and closed
begin

text \<open>\<open>fed\<close> are the elements handed to the operator; what the channel still holds is what was accepted after them.\<close>

definition task_inv where
  "task_inv opr col op0 c0 t acc fed \<longleftrightarrow> valid (task_input t) \<and> acc = fed @ contents (task_input t) \<and>
     operator_run opr col fed op0 c0 = (task_op t, task_col t, outcome t) \<and>
     (task_result t = Some (Ok ()) \<longrightarrow> contents (task_input t) = [] \<and> closed (task_input t)) \<and>
     (outcome t = Ok () \<longrightarrow> task_records t = length (records_of fed))"

lemma dispatch_inv:
  assumes "task_inv opr col op0 c0 t acc fed" and "task_result t = None"
    and "contents (task_input t) = e # contents input" and "valid input"
  shows "task_inv opr col op0 c0 (dispatch opr col e (t\<lparr>task_input := input\<rparr>)) acc (fed @ [e])"
proof -
  obtain op1 c1 r where step: "operator_step opr col e (task_op t) (task_col t) = (op1, c1, r)"
    using prod_cases3 by blast
  have "operator_run opr col (fed @ [e]) op0 c0 = (op1, c1, r)"
    using operator_run_snoc [of opr col fed op0 c0 "task_op t" "task_col t" e] assms(1,2) step
    by (simp add: task_inv_def outcome_def)
  then show ?thesis
    using assms step by (cases r; cases e) (auto simp: task_inv_def dispatch_step outcome_def)
qed

lemma poll_inv:
  assumes "task_inv opr col op0 c0 t acc fed"
  shows "\<exists>fed'. task_inv opr col op0 c0 (task_poll opr col poll t) acc fed'"
proof (cases "task_result t")
  case None
  have valid: "valid (task_input t)" using assms by (simp add: task_inv_def)
  show ?thesis
  proof (cases "contents (task_input t)")
    case (Cons e es)
    with poll_element [OF valid Cons] obtain input where input: "poll (task_input t) = (input, ReadyElement e)" "contents input = es" "valid input"
      by blast
    from dispatch_inv [OF assms None, of e input] Cons input None show ?thesis by (auto simp: task_poll_def)
  next
    case Nil
    with poll_empty [OF valid] obtain input where "poll (task_input t) = (input, if closed (task_input t) then ReadyClosed else PollPending)"
      "contents input = []" "closed input = closed (task_input t)" "valid input" by blast
    then have "task_inv opr col op0 c0 (task_poll opr col poll t) acc fed"
      using assms None Nil by (auto simp: task_poll_def task_inv_def outcome_def)
    then show ?thesis by blast
  qed
qed (use assms in \<open>auto simp: task_poll_def\<close>)

lemma run_inv:
  assumes "task_inv opr col op0 c0 t acc fed" and "task_run opr col snd_op drop_sender poll closed acts t acc = (t', acc')"
  shows "\<exists>fed'. task_inv opr col op0 c0 t' acc' fed'"
  using assms
proof (induction acts arbitrary: t acc fed)
  case (Cons act acts)
  show ?case
  proof (cases act)
    case (EnvSend e)
    show ?thesis
    proof (cases "closed (task_input t) \<or> task_result t \<noteq> None")
      case False
      obtain input ok where snd: "snd_op (task_input t) e = (input, ok)" by fastforce
      have "task_inv opr col op0 c0 (t\<lparr>task_input := input\<rparr>) (if ok then acc @ [e] else acc) fed"
        using Cons.prems(1) False send_accept [of "task_input t" e input] send_reject [of "task_input t" e input]
          send_valid [of "task_input t" e] snd by (cases ok) (auto simp: task_inv_def outcome_def)
      from Cons.IH [OF this] Cons.prems(2) EnvSend False snd show ?thesis by auto
    qed (use Cons EnvSend in auto)
  next
    case EnvDrop
    have "task_inv opr col op0 c0 (t\<lparr>task_input := drop_sender (task_input t)\<rparr>) acc fed"
      using Cons.prems(1) drop_laws [of "task_input t"] by (auto simp: task_inv_def outcome_def)
    from Cons.IH [OF this] Cons.prems(2) EnvDrop show ?thesis by simp
  next
    case EnvCancel
    have "task_inv opr col op0 c0 (t\<lparr>task_token := True\<rparr>) acc fed"
      using Cons.prems(1) by (auto simp: task_inv_def outcome_def)
    from Cons.IH [OF this] Cons.prems(2) EnvCancel show ?thesis by simp
  next
    case Poll
    from poll_inv [OF Cons.prems(1)] Cons.IH Cons.prems(2) Poll show ?thesis by fastforce
  qed
qed auto

text \<open>Once the sender is dropped, one poll per queued element and one more end the task.\<close>

lemma closed_task_ends:
  assumes "valid (task_input t)" and "closed (task_input t)" and "length (contents (task_input t)) < n"
  shows "task_result (fst (task_run opr col snd_op drop_sender poll closed (replicate n Poll) t acc)) \<noteq> None"
  using assms
proof (induction n arbitrary: t)
  case (Suc n)
  have ended: "task_result (fst (task_run opr col snd_op drop_sender poll closed (replicate n Poll) s acc)) \<noteq> None" if "task_result s \<noteq> None" for s
    using that by (induction n arbitrary: s) (auto simp: task_poll_def)
  show ?case
  proof (cases "task_result (task_poll opr col poll t) = None")
    case True
    then have none: "task_result t = None" by (auto simp: task_poll_def split: if_splits)
    show ?thesis
    proof (cases "contents (task_input t)")
      case Nil
      with poll_empty [OF Suc.prems(1)] Suc.prems(2) True none show ?thesis by (auto simp: task_poll_def)
    next
      case (Cons e es)
      with poll_element [OF Suc.prems(1) Cons] obtain input where input: "poll (task_input t) = (input, ReadyElement e)" "contents input = es"
        "closed input = closed (task_input t)" "valid input" by blast
      have "task_input (task_poll opr col poll t) = input"
        using none input by (auto simp: task_poll_def dispatch_step split: prod.splits)
      then show ?thesis using Suc.IH [of "task_poll opr col poll t"] input Suc.prems Cons by simp
    qed
  qed (simp add: ended)
qed simp

end

interpretation task_transport: element_input "transport_send nf" transport_contents transport_valid "transport_drop nf" poll_recv transport_closed
  by unfold_locales

lemma channel_starts_empty:
  assumes "operator_channel_with_kind cap kind n = Ok ch"
  shows "transport_valid ch" and "transport_contents ch = []" and "\<not> transport_closed ch"
  using assms ring_buffer_inv [of cap n]
  by (auto simp: operator_channel_with_kind_def operator_channel_def operator_ring_buffer_def ring_buffer_def [of cap n] Let_def
      split: channel_kind.splits if_splits)

text \<open>\<open>wait_all\<close> succeeds exactly when every task did, and otherwise returns the error of the first failed task in
  spawn order, whatever happened to the others.\<close>

lemma wait_loop_exact:
  "wait_loop show_join handles first =
     (case first of Some e \<Rightarrow> Some e
      | None \<Rightarrow> (case List.map_filter (\<lambda>(name, r). task_error show_join name r) handles of [] \<Rightarrow> None | e # _ \<Rightarrow> Some e))"
  by (induction handles arbitrary: first) (auto simp: map_filter_simps split: option.splits)

lemma wait_all_exact:
  "wait_all show_join s =
     (case List.map_filter (\<lambda>(name, r). task_error show_join name r) (sch_handles s) of [] \<Rightarrow> Ok () | e # _ \<Rightarrow> Err e)"
  by (simp add: wait_all_def wait_loop_exact split: list.splits)

text \<open>A side output reaches the channel of its tag only, with the timestamp and the key of the record it was emitted for.\<close>

lemma side_emit_exact:
  assumes "side_emit s tag v timestamp key = (s', r)"
  shows "\<forall>other. other \<noteq> tag \<longrightarrow> s' other = s other"
    and "r = Ok () \<Longrightarrow> \<exists>ch. s tag = Some ch \<and> side_type ch v \<and> length (side_queue ch) < side_capacity ch \<and>
      s' tag = Some (ch\<lparr>side_queue := side_queue ch @ [\<lparr>rec_value = v, rec_timestamp = timestamp, rec_key = key\<rparr>]\<rparr>)"
    and "r \<noteq> Ok () \<Longrightarrow> s' = s"
  using assms
  by (auto simp: side_emit_def side_send_def bounded_try_send_def record_new_def fun_upd_idem split: option.splits if_splits)

subsection \<open>Properties\<close>

text \<open>C11. A task runs its operator on everything its channel accepted. For both kinds of channel, every operator and every
  interleaving of sends, polls and a cancellation, with or without a token: the operator has been run, in order,
  on what was accepted except what the channel still holds, and its error is the task's result. A task that ends well has
  processed everything and its channel was closed. Once the channel is closed, the task ends after one poll per queued element and one more.\<close>

theorem task_runs_everything:
  assumes "operator_channel_with_kind cap kind n = Ok ch"
    and "task_run opr col (transport_send nf) (transport_drop nf) poll_recv transport_closed acts
      (if token then with_cancel (task_new op ch c) else task_new op ch c) [] = (t, accepted)"
  shows "\<exists>fed. accepted = fed @ transport_contents (task_input t) \<and> operator_run opr col fed op c = (task_op t, task_col t, outcome t) \<and>
      (outcome t = Ok () \<longrightarrow> task_records t = length (records_of fed)) \<and>
      (task_result t = Some (Ok ()) \<longrightarrow> fed = accepted \<and> transport_closed (task_input t)) \<and>
      (transport_closed (task_input t) \<longrightarrow>
        task_result (fst (task_run opr col (transport_send nf) (transport_drop nf) poll_recv transport_closed
          (replicate (length (transport_contents (task_input t)) + 1) Poll) t accepted)) \<noteq> None)"
proof -
  let ?t0 = "if token then with_cancel (task_new op ch c) else task_new op ch c"
  have "task_transport.task_inv opr col op c ?t0 [] []"
    using channel_starts_empty [OF assms(1)] by (simp add: task_transport.task_inv_def task_new_def with_cancel_def outcome_def)
  from task_transport.run_inv [OF this assms(2)] obtain fed where inv: "task_transport.task_inv opr col op c t accepted fed" by blast
  then have "transport_valid (task_input t)" by (simp add: task_transport.task_inv_def)
  note ends = task_transport.closed_task_ends [OF this]
  show ?thesis
    using inv by (intro exI [of _ fed] conjI impI ends) (auto simp: task_transport.task_inv_def)
qed

text \<open>A cancellation alone never ends a task: as long as the channel stays open it goes on waiting, although the code's
  comment promises to run until the channel is closed or cancellation is requested.\<close>

lemma cancelled_task_waits:
  "task_result (fst (task_run opr col (transport_send nf) (transport_drop nf) poll_recv transport_closed
     (EnvCancel # replicate k Poll) (with_cancel (task_new op (MpscChannel cap [] False) c)) [])) = None"
proof -
  have "task_result (fst (task_run opr col (transport_send nf) (transport_drop nf) poll_recv transport_closed (replicate k Poll) t acc)) = None"
    if "task_result t = None" "task_input t = MpscChannel cap [] False" for t :: "('a, 'b, ('c, 'd) transport) task" and acc
    using that
  proof (induction k arbitrary: t)
    case (Suc k)
    have "task_result (task_poll opr col poll_recv t) = None" "task_input (task_poll opr col poll_recv t) = MpscChannel cap [] False"
      using Suc.prems by (simp_all add: task_poll_def)
    with Suc.IH show ?case by simp
  qed simp
  then show ?thesis by (simp add: with_cancel_def task_new_def)
qed

theorem task_runs_everything_witness:
  "\<exists>t accepted fed. task_run (map_operator (\<lambda>s (v :: nat). (v + 1, s))) test_collector (transport_send (\<lambda>_ :: bool. True)) (transport_drop (\<lambda>_. True)) poll_recv
       transport_closed [EnvSend (ElemRecord (record_new 4 ts_MIN)), EnvDrop, EnvCancel, Poll, Poll] (with_cancel (task_new () (RingChannel (ring_buffer 0 False)) [])) []
     = (t, accepted) \<and> accepted = fed @ transport_contents (task_input t)"
proof -
  obtain t accepted where run: "task_run (map_operator (\<lambda>s (v :: nat). (v + 1, s))) test_collector (transport_send (\<lambda>_ :: bool. True)) (transport_drop (\<lambda>_. True)) poll_recv
       transport_closed [EnvSend (ElemRecord (record_new 4 ts_MIN)), EnvDrop, EnvCancel, Poll, Poll]
       (if True then with_cancel (task_new () (RingChannel (ring_buffer 0 False)) []) else task_new () (RingChannel (ring_buffer 0 False)) []) [] = (t, accepted)"
    by fastforce
  have "operator_channel_with_kind 0 RingBuffer False = Ok (RingChannel (ring_buffer 0 False))"
    by (simp add: operator_channel_with_kind_def operator_ring_buffer_def)
  from task_runs_everything [OF this run] run show ?thesis by auto
qed

end
