(* ===== verification/Merge.thy ===== *)
theory Merge
  imports Collectors
begin

text \<open>
  \<open>flume-runtime/src/merge.rs\<close>: the two-input merger of connected streams. An input channel is the list
  of the elements still to be received, after which \<open>recv\<close> reports that it is closed. Where the code
  selects whichever input is ready, the model takes the decision from a schedule, so a result for
  every schedule covers every arrival order. \<open>mg_room\<close> is \<open>Some k\<close> when the receiver of the output is
  dropped after \<open>k\<close> more sends.
\<close>

subsection \<open>State and helpers\<close>

record ('a, 'b) merge =
  mg_in1 :: "'a stream_element list"
  mg_in2 :: "'b stream_element list"
  mg_wm1 :: event_timestamp
  mg_wm2 :: event_timestamp
  mg_last :: event_timestamp
  mg_pending1 :: "checkpoint_barrier option"
  mg_pending2 :: "checkpoint_barrier option"
  mg_buffer1 :: "('a, 'b) either stream_element list"
  mg_buffer2 :: "('a, 'b) either stream_element list"
  mg_open1 :: bool
  mg_open2 :: bool
  mg_out :: "('a, 'b) either stream_element list"
  mg_room :: "nat option"

definition merge_init :: "'a stream_element list \<Rightarrow> 'b stream_element list \<Rightarrow> nat option \<Rightarrow> ('a, 'b) merge" where
  "merge_init in1 in2 room = \<lparr>mg_in1 = in1, mg_in2 = in2, mg_wm1 = ts_MIN, mg_wm2 = ts_MIN, mg_last = ts_MIN,
     mg_pending1 = None, mg_pending2 = None, mg_buffer1 = [], mg_buffer2 = [], mg_open1 = True, mg_open2 = True,
     mg_out = [], mg_room = room\<rparr>"

definition merge_send :: "('a, 'b) merge \<Rightarrow> ('a, 'b) either stream_element \<Rightarrow> ('a, 'b) merge \<times> unit res" where
  "merge_send s e =
     (case mg_room s of
        Some 0 \<Rightarrow> (s, Err ChannelClosed)
      | Some (Suc k) \<Rightarrow> (s\<lparr>mg_out := mg_out s @ [e], mg_room := Some k\<rparr>, Ok ())
      | None \<Rightarrow> (s\<lparr>mg_out := mg_out s @ [e]\<rparr>, Ok ()))"

text \<open>\<open>flush_buffer\<close>: \<open>drain(..)\<close> empties the buffer whether or not every send succeeds.\<close>

fun merge_send_all :: "('a, 'b) merge \<Rightarrow> ('a, 'b) either stream_element list \<Rightarrow> ('a, 'b) merge \<times> unit res" where
  "merge_send_all s [] = (s, Ok ())"
| "merge_send_all s (e # es) =
     (case merge_send s e of
        (s', Ok _) \<Rightarrow> merge_send_all s' es
      | (s', Err x) \<Rightarrow> (s', Err x)
      | (s', Panic p) \<Rightarrow> (s', Panic p))"

definition flush_buffer1 :: "('a, 'b) merge \<Rightarrow> ('a, 'b) merge \<times> unit res" where
  "flush_buffer1 s = merge_send_all (s\<lparr>mg_buffer1 := []\<rparr>) (mg_buffer1 s)"

definition flush_buffer2 :: "('a, 'b) merge \<Rightarrow> ('a, 'b) merge \<times> unit res" where
  "flush_buffer2 s = merge_send_all (s\<lparr>mg_buffer2 := []\<rparr>) (mg_buffer2 s)"

definition handle_element1 :: "'a stream_element \<Rightarrow> ('a, 'b) merge \<Rightarrow> ('a, 'b) merge \<times> unit res" where
  "handle_element1 element s =
     (case element of
        ElemRecord rec \<Rightarrow>
          (let tagged = ElemRecord \<lparr>rec_value = Left (rec_value rec), rec_timestamp = rec_timestamp rec, rec_key = rec_key rec\<rparr>
           in if mg_pending1 s \<noteq> None then (s\<lparr>mg_buffer1 := mg_buffer1 s @ [tagged]\<rparr>, Ok ())
              else merge_send s tagged)
      | ElemWatermark wm \<Rightarrow>
          (let s1 = s\<lparr>mg_wm1 := wm_timestamp wm\<rparr>;
               min_wm = min (mg_wm1 s1) (mg_wm2 s1)
           in if mg_last s1 < min_wm then merge_send (s1\<lparr>mg_last := min_wm\<rparr>) (ElemWatermark (Watermark min_wm))
              else (s1, Ok ()))
      | ElemBarrier barrier \<Rightarrow> (s\<lparr>mg_pending1 := Some barrier\<rparr>, Ok ()))"

definition handle_element2 :: "'b stream_element \<Rightarrow> ('a, 'b) merge \<Rightarrow> ('a, 'b) merge \<times> unit res" where
  "handle_element2 element s =
     (case element of
        ElemRecord rec \<Rightarrow>
          (let tagged = ElemRecord \<lparr>rec_value = Right (rec_value rec), rec_timestamp = rec_timestamp rec, rec_key = rec_key rec\<rparr>
           in if mg_pending2 s \<noteq> None then (s\<lparr>mg_buffer2 := mg_buffer2 s @ [tagged]\<rparr>, Ok ())
              else merge_send s tagged)
      | ElemWatermark wm \<Rightarrow>
          (let s1 = s\<lparr>mg_wm2 := wm_timestamp wm\<rparr>;
               min_wm = min (mg_wm1 s1) (mg_wm2 s1)
           in if mg_last s1 < min_wm then merge_send (s1\<lparr>mg_last := min_wm\<rparr>) (ElemWatermark (Watermark min_wm))
              else (s1, Ok ()))
      | ElemBarrier barrier \<Rightarrow> (s\<lparr>mg_pending2 := Some barrier\<rparr>, Ok ()))"

definition and_then_merge :: "('a, 'b) merge \<times> unit res \<Rightarrow> (('a, 'b) merge \<Rightarrow> ('a, 'b) merge \<times> unit res) \<Rightarrow>
    ('a, 'b) merge \<times> unit res" where
  "and_then_merge sr f = (case sr of (s, Ok _) \<Rightarrow> f s | (s, Err x) \<Rightarrow> (s, Err x) | (s, Panic p) \<Rightarrow> (s, Panic p))"

definition try_flush_barriers :: "('a, 'b) merge \<Rightarrow> ('a, 'b) merge \<times> unit res" where
  "try_flush_barriers s =
     (case (mg_pending1 s, mg_pending2 s) of
        (Some b1, Some b2) \<Rightarrow>
          and_then_merge (merge_send (s\<lparr>mg_pending1 := None, mg_pending2 := None\<rparr>) (ElemBarrier b1)) (\<lambda>s1.
          and_then_merge (flush_buffer1 s1) flush_buffer2)
      | _ \<Rightarrow> (s, Ok ()))"

subsection \<open>The loop\<close>

text \<open>One iteration of the loop once it is known that an input is open. \<open>pick1\<close> is the choice of
  \<open>tokio::select!\<close> when both inputs are open and no barrier is pending.\<close>

definition merge_iteration :: "bool \<Rightarrow> ('a, 'b) merge \<Rightarrow> ('a, 'b) merge \<times> unit res" where
  "merge_iteration pick1 s =
     (if mg_pending1 s \<noteq> None \<and> mg_pending2 s = None then
        (case mg_in2 s of
           e # es \<Rightarrow> and_then_merge (handle_element2 e (s\<lparr>mg_in2 := es\<rparr>)) try_flush_barriers
         | [] \<Rightarrow>
             (let s1 = s\<lparr>mg_open2 := False\<rparr> in
              case mg_pending1 s1 of
                Some b \<Rightarrow> and_then_merge (merge_send (s1\<lparr>mg_pending1 := None\<rparr>) (ElemBarrier b)) flush_buffer1
              | None \<Rightarrow> (s1, Ok ())))
      else if mg_pending2 s \<noteq> None \<and> mg_pending1 s = None then
        (case mg_in1 s of
           e # es \<Rightarrow> and_then_merge (handle_element1 e (s\<lparr>mg_in1 := es\<rparr>)) try_flush_barriers
         | [] \<Rightarrow>
             (let s1 = s\<lparr>mg_open1 := False\<rparr> in
              case mg_pending2 s1 of
                Some b \<Rightarrow> and_then_merge (merge_send (s1\<lparr>mg_pending2 := None\<rparr>) (ElemBarrier b)) flush_buffer2
              | None \<Rightarrow> (s1, Ok ())))
      else if (mg_open1 s \<and> mg_open2 s \<and> pick1) \<or> (mg_open1 s \<and> \<not> mg_open2 s) then
        (case mg_in1 s of
           e # es \<Rightarrow> handle_element1 e (s\<lparr>mg_in1 := es\<rparr>)
         | [] \<Rightarrow> (s\<lparr>mg_open1 := False\<rparr>, Ok ()))
      else
        (case mg_in2 s of
           e # es \<Rightarrow> handle_element2 e (s\<lparr>mg_in2 := es\<rparr>)
         | [] \<Rightarrow> (s\<lparr>mg_open2 := False\<rparr>, Ok ())))"

definition merge_measure :: "('a, 'b) merge \<Rightarrow> nat" where
  "merge_measure s = 3 * length (mg_in1 s) + 3 * length (mg_in2 s) + (if mg_open1 s then 1 else 0) +
     (if mg_open2 s then 1 else 0) + (if mg_pending1 s \<noteq> None then 1 else 0) + (if mg_pending2 s \<noteq> None then 1 else 0)"

text \<open>What sending leaves alone.\<close>

lemma merge_send_frame:
  assumes "merge_send s e = (s', r)"
  shows "mg_in1 s' = mg_in1 s" "mg_in2 s' = mg_in2 s" "mg_open1 s' = mg_open1 s" "mg_open2 s' = mg_open2 s"
    "mg_pending1 s' = mg_pending1 s" "mg_pending2 s' = mg_pending2 s" "mg_buffer1 s' = mg_buffer1 s"
    "mg_buffer2 s' = mg_buffer2 s" "mg_wm1 s' = mg_wm1 s" "mg_wm2 s' = mg_wm2 s" "mg_last s' = mg_last s"
  using assms by (auto simp: merge_send_def split: option.splits nat.splits)

lemma merge_send_all_frame:
  assumes "merge_send_all s es = (s', r)"
  shows "mg_in1 s' = mg_in1 s" "mg_in2 s' = mg_in2 s" "mg_open1 s' = mg_open1 s" "mg_open2 s' = mg_open2 s"
    "mg_pending1 s' = mg_pending1 s" "mg_pending2 s' = mg_pending2 s" "mg_buffer1 s' = mg_buffer1 s"
    "mg_buffer2 s' = mg_buffer2 s"
  using assms
  by (induction s es rule: merge_send_all.induct)
    (auto split: prod.splits res.splits dest: merge_send_frame)

lemma merge_measure_updates [simp]:
  "merge_measure (s\<lparr>mg_out := x\<rparr>) = merge_measure s" "merge_measure (s\<lparr>mg_room := k\<rparr>) = merge_measure s"
  "merge_measure (s\<lparr>mg_last := t\<rparr>) = merge_measure s" "merge_measure (s\<lparr>mg_wm1 := t\<rparr>) = merge_measure s"
  "merge_measure (s\<lparr>mg_wm2 := t\<rparr>) = merge_measure s" "merge_measure (s\<lparr>mg_buffer1 := b\<rparr>) = merge_measure s"
  "merge_measure (s\<lparr>mg_buffer2 := b\<rparr>) = merge_measure s"
  by (simp_all add: merge_measure_def)

lemma merge_send_measure: "merge_send s e = (s', r) \<Longrightarrow> merge_measure s' = merge_measure s"
  by (auto simp: merge_send_def split: option.splits nat.splits)

lemma merge_send_all_measure: "merge_send_all s es = (s', r) \<Longrightarrow> merge_measure s' = merge_measure s"
  by (induction s es rule: merge_send_all.induct) (auto split: prod.splits res.splits dest: merge_send_measure)

lemma pending_measure:
  "merge_measure (s\<lparr>mg_pending1 := Some b\<rparr>) \<le> merge_measure s + 1"
  "merge_measure (s\<lparr>mg_pending2 := Some b\<rparr>) \<le> merge_measure s + 1"
  "merge_measure (s\<lparr>mg_pending1 := None\<rparr>) \<le> merge_measure s"
  "merge_measure (s\<lparr>mg_pending1 := None, mg_pending2 := None\<rparr>) \<le> merge_measure s"
  "mg_pending1 s \<noteq> None \<Longrightarrow> merge_measure (s\<lparr>mg_open2 := False, mg_pending1 := None\<rparr>) < merge_measure s"
  "mg_pending2 s \<noteq> None \<Longrightarrow> merge_measure (s\<lparr>mg_open1 := False, mg_pending2 := None\<rparr>) < merge_measure s"
  by (auto simp: merge_measure_def)

lemma handle_element1_measure: "handle_element1 e s = (s', r) \<Longrightarrow> merge_measure s' \<le> merge_measure s + 1"
  by (cases e) (auto simp: handle_element1_def Let_def pending_measure [simplified] split: if_splits dest: merge_send_measure)

lemma handle_element2_measure: "handle_element2 e s = (s', r) \<Longrightarrow> merge_measure s' \<le> merge_measure s + 1"
  by (cases e) (auto simp: handle_element2_def Let_def pending_measure [simplified] split: if_splits dest: merge_send_measure)

lemma flush_measure:
  "flush_buffer1 s = (s', r) \<Longrightarrow> merge_measure s' = merge_measure s"
  "flush_buffer2 s = (s', r) \<Longrightarrow> merge_measure s' = merge_measure s"
  by (auto simp: flush_buffer1_def flush_buffer2_def dest: merge_send_all_measure)

lemma and_then_measure:
  assumes "and_then_merge sr f = (s', r)" and "\<And>s1 r1. sr = (s1, r1) \<Longrightarrow> merge_measure s1 \<le> n"
    and "\<And>s1 s2 r2. f s1 = (s2, r2) \<Longrightarrow> merge_measure s2 \<le> merge_measure s1"
  shows "merge_measure s' \<le> n"
proof -
  obtain s1 r1 where sr: "sr = (s1, r1)" by fastforce
  with assms(1) have "s' = s1 \<or> (\<exists>u. f s1 = (s', r))" by (cases r1) (auto simp: and_then_merge_def)
  with assms(2,3) sr show ?thesis by (metis order_trans)
qed

lemma try_flush_measure: "try_flush_barriers s = (s', r) \<Longrightarrow> merge_measure s' \<le> merge_measure s"
proof (cases "mg_pending1 s = None \<or> mg_pending2 s = None")
  case False
  then obtain b1 b2 where b: "mg_pending1 s = Some b1" "mg_pending2 s = Some b2" by auto
  assume "try_flush_barriers s = (s', r)"
  then show ?thesis
    unfolding try_flush_barriers_def b prod.case option.case
  proof (rule and_then_measure)
    show "merge_send (s\<lparr>mg_pending1 := None, mg_pending2 := None\<rparr>) (ElemBarrier b1) = (s1, r1) \<Longrightarrow>
        merge_measure s1 \<le> merge_measure s" for s1 r1
      by (simp add: merge_send_measure pending_measure)
    show "and_then_merge (flush_buffer1 s1) flush_buffer2 = (s2, r2) \<Longrightarrow> merge_measure s2 \<le> merge_measure s1" for s1 s2 r2
      by (rule and_then_measure) (auto dest: flush_measure)
  qed
qed (auto simp: try_flush_barriers_def split: option.splits)

lemma merge_iteration_measure:
  assumes "mg_open1 s \<or> mg_open2 s" and "merge_iteration pick1 s = (s', r)"
  shows "merge_measure s' < merge_measure s"
proof -
  consider (wait2) "mg_pending1 s \<noteq> None" "mg_pending2 s = None" | (wait1) "mg_pending2 s \<noteq> None" "mg_pending1 s = None"
    | (normal) "mg_pending1 s = None \<longleftrightarrow> mg_pending2 s = None"
    by (cases "mg_pending1 s"; cases "mg_pending2 s") simp_all
  then show ?thesis
  proof cases
    case wait2
    then obtain b where b: "mg_pending1 s = Some b" by auto
    show ?thesis
    proof (cases "mg_in2 s")
      case Nil
      let ?s = "s\<lparr>mg_open2 := False, mg_pending1 := None\<rparr>"
      have "merge_measure s' \<le> merge_measure ?s"
        using assms(2) wait2 b Nil
        by (intro and_then_measure [of "merge_send ?s (ElemBarrier b)" flush_buffer1 s' r])
          (auto simp: merge_iteration_def dest: flush_measure merge_send_measure)
      also have "\<dots> < merge_measure s" using wait2 by (simp add: pending_measure)
      finally show ?thesis .
    next
      case (Cons e es)
      let ?s = "s\<lparr>mg_in2 := es\<rparr>"
      have "merge_measure s' \<le> merge_measure ?s + 1"
        using assms(2) wait2 Cons
        by (intro and_then_measure [of "handle_element2 e ?s" try_flush_barriers s' r])
          (auto simp: merge_iteration_def intro: try_flush_measure handle_element2_measure [simplified])
      then show ?thesis using Cons by (simp add: merge_measure_def)
    qed
  next
    case wait1
    then obtain b where b: "mg_pending2 s = Some b" by auto
    show ?thesis
    proof (cases "mg_in1 s")
      case Nil
      let ?s = "s\<lparr>mg_open1 := False, mg_pending2 := None\<rparr>"
      have "merge_measure s' \<le> merge_measure ?s"
        using assms(2) wait1 b Nil
        by (intro and_then_measure [of "merge_send ?s (ElemBarrier b)" flush_buffer2 s' r])
          (auto simp: merge_iteration_def dest: flush_measure merge_send_measure)
      also have "\<dots> < merge_measure s" using wait1 by (simp add: pending_measure)
      finally show ?thesis .
    next
      case (Cons e es)
      let ?s = "s\<lparr>mg_in1 := es\<rparr>"
      have "merge_measure s' \<le> merge_measure ?s + 1"
        using assms(2) wait1 Cons
        by (intro and_then_measure [of "handle_element1 e ?s" try_flush_barriers s' r])
          (auto simp: merge_iteration_def intro: try_flush_measure handle_element1_measure [simplified])
      then show ?thesis using Cons by (simp add: merge_measure_def)
    qed
  next
    case normal
    show ?thesis
    proof (cases "(mg_open1 s \<and> mg_open2 s \<and> pick1) \<or> (mg_open1 s \<and> \<not> mg_open2 s)")
      case True
      show ?thesis
      proof (cases "mg_in1 s")
        case Nil
        with assms normal True show ?thesis by (auto simp: merge_iteration_def merge_measure_def)
      next
        case (Cons e es)
        with assms normal True have "handle_element1 e (s\<lparr>mg_in1 := es\<rparr>) = (s', r)" by (auto simp: merge_iteration_def)
        from handle_element1_measure [OF this] Cons show ?thesis by (simp add: merge_measure_def)
      qed
    next
      case False
      then have "mg_open2 s" using assms(1) by auto
      show ?thesis
      proof (cases "mg_in2 s")
        case Nil
        with assms normal False \<open>mg_open2 s\<close> show ?thesis by (auto simp: merge_iteration_def merge_measure_def)
      next
        case (Cons e es)
        with assms normal False have "handle_element2 e (s\<lparr>mg_in2 := es\<rparr>) = (s', r)" by (auto simp: merge_iteration_def)
        from handle_element2_measure [OF this] Cons show ?thesis by (simp add: merge_measure_def)
      qed
    qed
  qed
qed

text \<open>\<open>two_input_merge\<close> under the schedule \<open>sched\<close>.\<close>

function two_input_merge :: "(nat \<Rightarrow> bool) \<Rightarrow> ('a, 'b) merge \<Rightarrow> ('a, 'b) merge \<times> unit res" where
  "two_input_merge sched s =
     (if \<not> mg_open1 s \<and> \<not> mg_open2 s then (s, Ok ())
      else case merge_iteration (sched 0) s of
             (s', Ok _) \<Rightarrow> two_input_merge (\<lambda>n. sched (Suc n)) s'
           | (s', Err x) \<Rightarrow> (s', Err x)
           | (s', Panic p) \<Rightarrow> (s', Panic p))"
  by pat_completeness auto
termination
  by (relation "measure (\<lambda>(sched, s). merge_measure s)") (auto intro!: merge_iteration_measure [OF _ sym])

declare two_input_merge.simps [simp del]

subsection \<open>What the merger promises\<close>

text \<open>
  The contract as a step relation over what is still to be merged: the two remaining inputs, the last
  watermark seen on each, and the last one forwarded. A barrier leaves when both inputs have reached
  one, or when the other input has ended.
\<close>

type_synonym ('a, 'b) merge_view =
  "'a stream_element list \<times> 'b stream_element list \<times> event_timestamp \<times> event_timestamp \<times> event_timestamp"

definition tag_left :: "'a flume_record \<Rightarrow> ('a, 'b) either flume_record" where "tag_left = record_map Left"

definition tag_right :: "'b flume_record \<Rightarrow> ('a, 'b) either flume_record" where "tag_right = record_map Right"

inductive merge_moves :: "('a, 'b) merge_view \<Rightarrow> ('a, 'b) either stream_element list \<Rightarrow> ('a, 'b) merge_view \<Rightarrow> bool" where
  left: "merge_moves (ElemRecord r # xs, ys, w1, w2, l) [ElemRecord (tag_left r)] (xs, ys, w1, w2, l)"
| right: "merge_moves (xs, ElemRecord r # ys, w1, w2, l) [ElemRecord (tag_right r)] (xs, ys, w1, w2, l)"
| advance1: "l < min (wm_timestamp w) w2 \<Longrightarrow>
    merge_moves (ElemWatermark w # xs, ys, w1, w2, l) [ElemWatermark (Watermark (min (wm_timestamp w) w2))]
      (xs, ys, wm_timestamp w, w2, min (wm_timestamp w) w2)"
| advance2: "l < min w1 (wm_timestamp w) \<Longrightarrow>
    merge_moves (xs, ElemWatermark w # ys, w1, w2, l) [ElemWatermark (Watermark (min w1 (wm_timestamp w)))]
      (xs, ys, w1, wm_timestamp w, min w1 (wm_timestamp w))"
| hold1: "\<not> l < min (wm_timestamp w) w2 \<Longrightarrow>
    merge_moves (ElemWatermark w # xs, ys, w1, w2, l) [] (xs, ys, wm_timestamp w, w2, l)"
| hold2: "\<not> l < min w1 (wm_timestamp w) \<Longrightarrow>
    merge_moves (xs, ElemWatermark w # ys, w1, w2, l) [] (xs, ys, w1, wm_timestamp w, l)"
| both: "merge_moves (ElemBarrier b # xs, ElemBarrier b' # ys, w1, w2, l) [ElemBarrier b] (xs, ys, w1, w2, l)"
| lone1: "merge_moves (ElemBarrier b # xs, [], w1, w2, l) [ElemBarrier b] (xs, [], w1, w2, l)"
| lone2: "merge_moves ([], ElemBarrier b # ys, w1, w2, l) [ElemBarrier b] ([], ys, w1, w2, l)"
| idle: "merge_moves v [] v"

inductive merge_runs :: "('a, 'b) merge_view \<Rightarrow> ('a, 'b) either stream_element list \<Rightarrow> bool" where
  finished: "merge_runs ([], [], w1, w2, l) []"
| move: "merge_moves v d v' \<Longrightarrow> merge_runs v' d' \<Longrightarrow> merge_runs v (d @ d')"

text \<open>The view of a state: a barrier held back counts as not yet read.\<close>

definition held_back :: "checkpoint_barrier option \<Rightarrow> 'a stream_element list" where
  "held_back p = (case p of None \<Rightarrow> [] | Some b \<Rightarrow> [ElemBarrier b])"

definition view_of :: "('a, 'b) merge \<Rightarrow> ('a, 'b) merge_view" where
  "view_of s = (held_back (mg_pending1 s) @ mg_in1 s, held_back (mg_pending2 s) @ mg_in2 s, mg_wm1 s, mg_wm2 s, mg_last s)"

text \<open>The loop invariant: both buffers are always empty, and at most one barrier is held back.\<close>

definition merge_ok :: "('a, 'b) merge \<Rightarrow> bool" where
  "merge_ok s \<longleftrightarrow> mg_buffer1 s = [] \<and> mg_buffer2 s = [] \<and> mg_room s = None \<and>
     (mg_pending1 s = None \<or> mg_pending2 s = None) \<and>
     (\<not> mg_open1 s \<longrightarrow> mg_in1 s = []) \<and> (\<not> mg_open2 s \<longrightarrow> mg_in2 s = []) \<and>
     (mg_pending1 s \<noteq> None \<longrightarrow> mg_open1 s) \<and> (mg_pending2 s \<noteq> None \<longrightarrow> mg_open2 s)"

text \<open>One iteration is one move of the contract.\<close>

definition moves_to :: "('a, 'b) merge \<Rightarrow> ('a, 'b) merge \<times> unit res \<Rightarrow> bool" where
  "moves_to s res \<longleftrightarrow> (\<exists>d. snd res = Ok () \<and> merge_ok (fst res) \<and> mg_out (fst res) = mg_out s @ d \<and>
     merge_moves (view_of s) d (view_of (fst res)))"

lemma flush_empty [simp]:
  "mg_buffer1 s = [] \<Longrightarrow> flush_buffer1 s = (s\<lparr>mg_buffer1 := []\<rparr>, Ok ())"
  "mg_buffer2 s = [] \<Longrightarrow> flush_buffer2 s = (s\<lparr>mg_buffer2 := []\<rparr>, Ok ())"
  by (simp_all add: flush_buffer1_def flush_buffer2_def)

lemma merge_send_open [simp]: "mg_room s = None \<Longrightarrow> merge_send s e = (s\<lparr>mg_out := mg_out s @ [e]\<rparr>, Ok ())"
  by (simp add: merge_send_def)

lemmas moves_simps = moves_to_def merge_ok_def view_of_def held_back_def and_then_merge_def try_flush_barriers_def

lemma tagged_eq:
  "\<lparr>rec_value = Left (rec_value r), rec_timestamp = rec_timestamp r, rec_key = rec_key r\<rparr> = tag_left r"
  "\<lparr>rec_value = Right (rec_value r'), rec_timestamp = rec_timestamp r', rec_key = rec_key r'\<rparr> = tag_right r'"
  by (simp_all add: tag_left_def tag_right_def record_map_def)

lemma handle_element1_moves:
  assumes "merge_ok s" and "mg_pending1 s = None" and "mg_in1 s = e # es" and "mg_open1 s"
  shows "moves_to s (and_then_merge (handle_element1 e (s\<lparr>mg_in1 := es\<rparr>)) try_flush_barriers)"
    and "mg_pending2 s = None \<Longrightarrow> moves_to s (handle_element1 e (s\<lparr>mg_in1 := es\<rparr>))"
proof -
  show "moves_to s (and_then_merge (handle_element1 e (s\<lparr>mg_in1 := es\<rparr>)) try_flush_barriers)"
    using assms
    by (cases e; cases "mg_pending2 s") (auto simp: handle_element1_def tagged_eq moves_simps Let_def intro: merge_moves.intros)
  show "moves_to s (handle_element1 e (s\<lparr>mg_in1 := es\<rparr>))" if "mg_pending2 s = None"
    using assms that
    by (cases e) (auto simp: handle_element1_def tagged_eq moves_simps Let_def intro: merge_moves.intros)
qed

lemma handle_element2_moves:
  assumes "merge_ok s" and "mg_pending2 s = None" and "mg_in2 s = e # es" and "mg_open2 s"
  shows "moves_to s (and_then_merge (handle_element2 e (s\<lparr>mg_in2 := es\<rparr>)) try_flush_barriers)"
    and "mg_pending1 s = None \<Longrightarrow> moves_to s (handle_element2 e (s\<lparr>mg_in2 := es\<rparr>))"
proof -
  show "moves_to s (and_then_merge (handle_element2 e (s\<lparr>mg_in2 := es\<rparr>)) try_flush_barriers)"
    using assms
    by (cases e; cases "mg_pending1 s") (auto simp: handle_element2_def tagged_eq moves_simps Let_def intro: merge_moves.intros)
  show "moves_to s (handle_element2 e (s\<lparr>mg_in2 := es\<rparr>))" if "mg_pending1 s = None"
    using assms that
    by (cases e) (auto simp: handle_element2_def tagged_eq moves_simps Let_def intro: merge_moves.intros)
qed

lemma merge_iteration_moves:
  assumes ok: "merge_ok s" and "mg_open1 s \<or> mg_open2 s"
  shows "moves_to s (merge_iteration p s)"
proof -
  consider (wait2) b where "mg_pending1 s = Some b" "mg_pending2 s = None"
    | (wait1) b where "mg_pending2 s = Some b" "mg_pending1 s = None"
    | (normal) "mg_pending1 s = None" "mg_pending2 s = None"
    using ok by (cases "mg_pending1 s"; cases "mg_pending2 s") (auto simp: merge_ok_def)
  then show ?thesis
  proof cases
    case wait2
    show ?thesis
    proof (cases "mg_in2 s")
      case Nil
      with wait2 ok show ?thesis by (auto simp: merge_iteration_def moves_simps intro: merge_moves.intros)
    next
      case (Cons e es)
      then have "mg_open2 s" using ok by (auto simp: merge_ok_def)
      from handle_element2_moves(1) [OF ok wait2(2) Cons this] wait2 Cons show ?thesis by (simp add: merge_iteration_def)
    qed
  next
    case wait1
    show ?thesis
    proof (cases "mg_in1 s")
      case Nil
      with wait1 ok show ?thesis by (auto simp: merge_iteration_def moves_simps intro: merge_moves.intros)
    next
      case (Cons e es)
      then have "mg_open1 s" using ok by (auto simp: merge_ok_def)
      from handle_element1_moves(1) [OF ok wait1(2) Cons this] wait1 Cons show ?thesis by (simp add: merge_iteration_def)
    qed
  next
    case normal
    show ?thesis
    proof (cases "(mg_open1 s \<and> mg_open2 s \<and> p) \<or> (mg_open1 s \<and> \<not> mg_open2 s)")
      case True
      then have "merge_iteration p s = (case mg_in1 s of e # es \<Rightarrow> handle_element1 e (s\<lparr>mg_in1 := es\<rparr>)
          | [] \<Rightarrow> (s\<lparr>mg_open1 := False\<rparr>, Ok ()))"
        using normal by (simp add: merge_iteration_def)
      with True normal ok handle_element1_moves(2) [OF ok normal(1)] show ?thesis
        by (cases "mg_in1 s") (auto simp: moves_simps intro: merge_moves.intros)
    next
      case False
      then have eq: "merge_iteration p s = (case mg_in2 s of e # es \<Rightarrow> handle_element2 e (s\<lparr>mg_in2 := es\<rparr>)
          | [] \<Rightarrow> (s\<lparr>mg_open2 := False\<rparr>, Ok ()))"
        using normal by (auto simp: merge_iteration_def)
      from False assms(2) have "mg_open2 s" by auto
      with eq normal ok handle_element2_moves(2) [OF ok normal(2)] show ?thesis
        by (cases "mg_in2 s") (auto simp: moves_simps intro: merge_moves.intros)
    qed
  qed
qed

lemma merge_refines:
  "merge_ok s \<Longrightarrow> \<exists>s' d. two_input_merge sched s = (s', Ok ()) \<and> mg_out s' = mg_out s @ d \<and> merge_runs (view_of s) d"
proof (induction sched s rule: two_input_merge.induct)
  case (1 sched s)
  show ?case
  proof (cases "mg_open1 s \<or> mg_open2 s")
    case False
    with 1(2) show ?thesis
      by (auto simp: two_input_merge.simps [of sched s] merge_ok_def view_of_def held_back_def intro: merge_runs.finished)
  next
    case True
    obtain s1 r where it: "merge_iteration (sched 0) s = (s1, r)" by fastforce
    from merge_iteration_moves [OF 1(2) True, of "sched 0"] it obtain d where
      d: "r = Ok ()" "merge_ok s1" "mg_out s1 = mg_out s @ d" "merge_moves (view_of s) d (view_of s1)"
      by (auto simp: moves_to_def)
    from 1(1) [OF _ it [symmetric] d(1) d(2)] True obtain s' d' where
      "two_input_merge (\<lambda>n. sched (Suc n)) s1 = (s', Ok ())" "mg_out s' = mg_out s1 @ d'" "merge_runs (view_of s1) d'"
      by auto
    with d it True show ?thesis
      by (auto simp: two_input_merge.simps [of sched s] intro: merge_runs.move)
  qed
qed

lemma merge_init_refines:
  "\<exists>s. two_input_merge sched (merge_init in1 in2 None) = (s, Ok ()) \<and>
     merge_runs (in1, in2, ts_MIN, ts_MIN, ts_MIN) (mg_out s)"
  using merge_refines [of "merge_init in1 in2 None" sched]
  by (auto simp: merge_ok_def merge_init_def view_of_def held_back_def)

subsection \<open>Epochs, barriers and watermarks of the output\<close>

fun lefts :: "('a, 'b) either flume_record list \<Rightarrow> 'a flume_record list" where
  "lefts [] = []"
| "lefts (r # rs) = (case rec_value r of Left a \<Rightarrow> record_map (\<lambda>_. a) r # lefts rs | Right b \<Rightarrow> lefts rs)"

fun rights :: "('a, 'b) either flume_record list \<Rightarrow> 'b flume_record list" where
  "rights [] = []"
| "rights (r # rs) = (case rec_value r of Left a \<Rightarrow> rights rs | Right b \<Rightarrow> record_map (\<lambda>_. b) r # rights rs)"

lemma tag_sel [simp]:
  "rec_value (tag_left r) = Left (rec_value r)" "rec_timestamp (tag_left r) = rec_timestamp r"
  "rec_value (tag_right r') = Right (rec_value r')" "rec_timestamp (tag_right r') = rec_timestamp r'"
  "record_map (\<lambda>_. rec_value r) (tag_left r) = r" "record_map (\<lambda>_. rec_value r') (tag_right r') = r'"
  by (simp_all add: tag_left_def tag_right_def record_map_def)

lemma merge_runs_epochs:
  assumes "merge_runs (xs, ys, w1, w2, l) d"
  shows "lefts (epoch i d) = epoch i xs \<and> rights (epoch i d) = epoch i ys"
  using assms
proof (induction "(xs, ys, w1, w2, l)" d arbitrary: xs ys w1 w2 l i rule: merge_runs.induct)
  case (move d v' d')
  obtain xs' ys' w1' w2' l' where v': "v' = (xs', ys', w1', w2', l')" by (cases v') auto
  from move(1) v' move(3) [OF v'] show ?case
    by (cases rule: merge_moves.cases) (auto simp: epoch_record epoch_barrier split: nat.split)
qed simp

lemma merge_runs_barriers:
  assumes "merge_runs (xs, ys, w1, w2, l) d"
  shows "barriers_of d = barriers_of xs @ drop (length (barriers_of xs)) (barriers_of ys)"
  using assms
proof (induction "(xs, ys, w1, w2, l)" d arbitrary: xs ys w1 w2 l rule: merge_runs.induct)
  case (move d v' d')
  obtain xs' ys' w1' w2' l' where v': "v' = (xs', ys', w1', w2', l')" by (cases v') auto
  from move(1) v' move(3) [OF v'] show ?case
    by (cases rule: merge_moves.cases) auto
qed simp

lemma merge_runs_watermarks:
  assumes "merge_runs (xs, ys, w1, w2, l) d"
  shows "sorted_wrt (<) (l # watermarks_of d)"
    and "t \<in> set (watermarks_of d) \<Longrightarrow> \<exists>t1 t2. t = min t1 t2 \<and>
      t1 \<in> insert w1 (set (watermarks_of xs)) \<and> t2 \<in> insert w2 (set (watermarks_of ys))"
  using assms
proof (induction "(xs, ys, w1, w2, l)" d arbitrary: xs ys w1 w2 l t rule: merge_runs.induct)
  case (move d v' d')
  obtain xs' ys' w1' w2' l' where v': "v' = (xs', ys', w1', w2', l')" by (cases v') auto
  {
    case 1
    from move(1) v' move(3) [OF v'] show ?case
      by (cases rule: merge_moves.cases) (auto simp del: min_less_iff_conj intro: less_trans)
  next
    case 2
    from move(1) v' move(4) [OF v'] 2 show ?case
      by (cases rule: merge_moves.cases) (auto, (metis|blast)+)
  }
qed simp_all

lemma merge_runs_records:
  assumes "merge_runs (xs, ys, w1, w2, l) d"
  shows "rec_timestamp ` set (records_of d) \<subseteq> rec_timestamp ` (set (records_of xs)) \<union> rec_timestamp ` (set (records_of ys))"
  using assms
proof (induction "(xs, ys, w1, w2, l)" d arbitrary: xs ys w1 w2 l rule: merge_runs.induct)
  case (move d v' d')
  obtain xs' ys' w1' w2' l' where v': "v' = (xs', ys', w1', w2', l')" by (cases v') auto
  from move(1) v' move(3) [OF v'] show ?case
    by (cases rule: merge_moves.cases) auto
qed simp

definition later :: "event_timestamp \<Rightarrow> 'a stream_element list \<Rightarrow> bool" where
  "later w es \<longleftrightarrow> w = ts_MIN \<or> list_all (\<lambda>r. w < rec_timestamp r) (records_of es)"

lemma merge_runs_promise:
  assumes "merge_runs (xs, ys, w1, w2, l) d" "promise_kept xs" "promise_kept ys" "later w1 xs" "later w2 ys"
  shows "promise_kept d"
  using assms
proof (induction "(xs, ys, w1, w2, l)" d arbitrary: xs ys w1 w2 l rule: merge_runs.induct)
  case (move d v' d')
  obtain xs' ys' w1' w2' l' where v': "v' = (xs', ys', w1', w2', l')" by (cases v') auto
  from move(1) v' have later: "later w1' xs'" "later w2' ys'" "promise_kept xs'" "promise_kept ys'"
    using move(4-7) by (cases rule: merge_moves.cases; auto simp: later_def)+
  have kept: "promise_kept d'" using move(3) [OF v'] later by blast
  have recs: "w < rec_timestamp r" if r: "r \<in> set (records_of d')" and w: "w \<le> w1'" "w \<le> w2'" "ts_MIN < w" for r w
  proof -
    have "rec_timestamp r \<in> rec_timestamp ` set (records_of xs') \<union> rec_timestamp ` set (records_of ys')"
      using merge_runs_records [OF move(2) [unfolded v']] r by blast
    moreover have "w < rec_timestamp x" if "x \<in> set (records_of xs')" for x
      using later(1) w that le_less_trans [OF w(1)] by (auto simp: later_def list_all_iff)
    moreover have "w < rec_timestamp x" if "x \<in> set (records_of ys')" for x
      using later(2) w that le_less_trans [OF w(2)] by (auto simp: later_def list_all_iff)
    ultimately show ?thesis by auto
  qed
  have above: "ts_MIN < w" if "l < w" for w using that ts_MIN_le [of l] by (rule le_less_trans [rotated])
  have "list_all (\<lambda>r. w < rec_timestamp r) (records_of d')" if "l < w" "w \<le> w1'" "w \<le> w2'" for w
    using recs [OF _ that(2,3) above [OF that(1)]] by (simp add: list_all_iff)
  with move(1) v' kept show ?case
    by (cases rule: merge_moves.cases) (simp_all del: min_less_iff_conj)
qed simp

subsection \<open>Properties\<close>

text \<open>C9. Whatever the order in which the two inputs are ready, the merger returns Ok, and its output is
  a consistent cut at every checkpoint barrier: for every i, the records of an input between its
  (i-1)-th and i-th barrier come out, tagged and in order, between the same two barriers of the output. No record is
  lost, duplicated, or moved over a barrier. The barriers forwarded are those of the first input,
  followed by those the second input has in excess.\<close>

theorem merge_consistent_cut:
  "\<exists>s. two_input_merge sched (merge_init in1 in2 None) = (s, Ok ()) \<and>
     (\<forall>i. lefts (epoch i (mg_out s)) = epoch i in1 \<and> rights (epoch i (mg_out s)) = epoch i in2) \<and>
     barriers_of (mg_out s) = barriers_of in1 @ drop (length (barriers_of in1)) (barriers_of in2)"
  using merge_init_refines [of sched in1 in2] merge_runs_epochs merge_runs_barriers by blast

text \<open>C28. The watermark of the merged stream is safe. Every watermark sent is the smaller of a watermark of
  each input, the watermarks sent strictly increase, and when both inputs keep the promise of their
  watermarks (no record at or before it is still to come), so does the output, in every arrival order.\<close>

theorem merge_watermark_safe:
  assumes "promise_kept in1" and "promise_kept in2"
  shows "\<exists>s. two_input_merge sched (merge_init in1 in2 None) = (s, Ok ()) \<and> promise_kept (mg_out s) \<and>
     sorted_wrt (<) (watermarks_of (mg_out s)) \<and>
     set (watermarks_of (mg_out s)) \<subseteq>
       {min t1 t2 | t1 t2. t1 \<in> set (watermarks_of in1) \<and> t2 \<in> set (watermarks_of in2)}"
proof -
  obtain s where s: "two_input_merge sched (merge_init in1 in2 None) = (s, Ok ())"
    and runs: "merge_runs (in1, in2, ts_MIN, ts_MIN, ts_MIN) (mg_out s)"
    using merge_init_refines by blast
  have kept: "promise_kept (mg_out s)"
    using merge_runs_promise [OF runs assms] by (simp add: later_def list_all_iff)
  have sorted: "sorted_wrt (<) (ts_MIN # watermarks_of (mg_out s))" by (rule merge_runs_watermarks(1) [OF runs])
  have "\<exists>t1 t2. t = min t1 t2 \<and> t1 \<in> set (watermarks_of in1) \<and> t2 \<in> set (watermarks_of in2)"
    if "t \<in> set (watermarks_of (mg_out s))" for t
  proof -
    have "ts_MIN < t" using sorted that by auto
    with merge_runs_watermarks(2) [OF runs that] show ?thesis by (auto simp: min_less_iff_conj)
  qed
  with s kept sorted show ?thesis by auto
qed

theorem merge_watermark_safe_witness:
  "promise_kept [ElemWatermark (Watermark (EventTimestamp 5)), ElemRecord (record_new (0 :: nat) (EventTimestamp 7))] \<and>
   (\<exists>s. two_input_merge (\<lambda>n. even n)
      (merge_init [ElemWatermark (Watermark (EventTimestamp 5)), ElemRecord (record_new (0 :: nat) (EventTimestamp 7))]
        [ElemWatermark (Watermark (EventTimestamp 6)) :: nat stream_element] None) = (s, Ok ()) \<and> promise_kept (mg_out s))"
proof -
  have kept: "promise_kept [ElemWatermark (Watermark (EventTimestamp 5)), ElemRecord (record_new (0 :: nat) (EventTimestamp 7))]"
    by (simp add: ts_le_iff ts_less_iff millis_def)
  moreover have "promise_kept [ElemWatermark (Watermark (EventTimestamp 6)) :: nat stream_element]" by simp
  ultimately show ?thesis
    using merge_watermark_safe [of _ "[ElemWatermark (Watermark (EventTimestamp 6)) :: nat stream_element]" "\<lambda>n. even n"] by blast
qed

text \<open>So an input that ends without having sent a watermark holds the merged watermark back for good.\<close>

lemma merge_watermark_stalls:
  assumes "watermarks_of in1 = []"
  shows "\<exists>s. two_input_merge sched (merge_init in1 in2 None) = (s, Ok ()) \<and> watermarks_of (mg_out s) = []"
proof -
  obtain s where s: "two_input_merge sched (merge_init in1 in2 None) = (s, Ok ())"
    and runs: "merge_runs (in1, in2, ts_MIN, ts_MIN, ts_MIN) (mg_out s)"
    using merge_init_refines by blast
  have "t \<notin> set (watermarks_of (mg_out s))" for t
    using merge_runs_watermarks(1) [OF runs] merge_runs_watermarks(2) [OF runs, of t] assms
    by (auto simp: min_def leD split: if_splits)
  then have "watermarks_of (mg_out s) = []" by (cases "watermarks_of (mg_out s)") auto
  with s show ?thesis by blast
qed

end
