(* ===== verification/Dataflow.thy ===== *)
theory Dataflow
  imports Task_Executor Merge
begin

text \<open>
  The tasks of a running pipeline and the channels between them: what the futures spawned by \<open>flume-api\<close>
  (\<open>datastream.rs\<close>, \<open>connected.rs\<close>) and \<open>TaskExecutor::run\<close> do when the runtime polls them in any order. A
  step of the network is one poll of one spawned task, up to its next suspension. The values of all streams
  have one type \<open>'v\<close> and the states of all sources, closures and operators one type \<open>'s\<close>; the merged channel of a
  two-input operator carries \<open>Either\<close> and is kept apart.
\<close>

subsection \<open>Channels with their history\<close>

text \<open>
  A channel, whether its receiver still exists, and two history variables that no operation reads: everything
  the channel accepted and everything that was taken from it. Sending fails once the receiver of an mpsc
  channel is gone; the ring buffer does not notice.
\<close>

record ('a, 'n) link =
  lk_transport :: "('a, 'n) transport"
  lk_receiver :: bool
  lk_sent :: "'a stream_element list"
  lk_taken :: "'a stream_element list"

definition link_new :: "('a, 'n) transport \<Rightarrow> ('a, 'n) link" where
  "link_new ch = \<lparr>lk_transport = ch, lk_receiver = True, lk_sent = [], lk_taken = []\<rparr>"

fun is_mpsc :: "('a, 'n) transport \<Rightarrow> bool" where
  "is_mpsc (MpscChannel cap q closed) = True"
| "is_mpsc (RingChannel r) = False"

text \<open>The non-blocking send of the collectors.\<close>

definition link_try_send :: "('n \<Rightarrow> 'n) \<Rightarrow> ('a, 'n) link \<Rightarrow> 'a stream_element \<Rightarrow> ('a, 'n) link \<times> bool" where
  "link_try_send nf l e =
     (if is_mpsc (lk_transport l) \<and> \<not> lk_receiver l then (l, False)
      else case transport_send nf (lk_transport l) e of
        (t, ok) \<Rightarrow> (l\<lparr>lk_transport := t, lk_sent := (if ok then lk_sent l @ [e] else lk_sent l)\<rparr>, ok))"

text \<open>One poll of \<open>tx.send(element).await\<close>: it waits for room and fails when the receiver is gone.\<close>

datatype ('a, 'n) send_poll = SendDone "('a, 'n) link" | SendWaits | SendFails

definition link_send :: "('n \<Rightarrow> 'n) \<Rightarrow> ('a, 'n) link \<Rightarrow> 'a stream_element \<Rightarrow> ('a, 'n) send_poll" where
  "link_send nf l e =
     (if \<not> lk_receiver l then SendFails
      else case transport_send nf (lk_transport l) e of
        (t, True) \<Rightarrow> SendDone (l\<lparr>lk_transport := t, lk_sent := lk_sent l @ [e]\<rparr>)
      | (t, False) \<Rightarrow> SendWaits)"

definition link_poll :: "('a, 'n) link \<Rightarrow> ('a, 'n) link \<times> 'a stream_element poll" where
  "link_poll l =
     (case poll_recv (lk_transport l) of
        (t, ReadyElement e) \<Rightarrow> (l\<lparr>lk_transport := t, lk_taken := lk_taken l @ [e]\<rparr>, ReadyElement e)
      | (t, p) \<Rightarrow> (l\<lparr>lk_transport := t\<rparr>, p))"

definition link_drop_sender :: "('n \<Rightarrow> 'n) \<Rightarrow> ('a, 'n) link \<Rightarrow> ('a, 'n) link" where
  "link_drop_sender nf l = l\<lparr>lk_transport := transport_drop nf (lk_transport l)\<rparr>"

definition link_drop_receiver :: "('a, 'n) link \<Rightarrow> ('a, 'n) link" where
  "link_drop_receiver l = l\<lparr>lk_receiver := False\<rparr>"

subsection \<open>What is spawned\<close>

text \<open>\<open>Source<T>\<close> of \<open>flume-core/src/traits/source.rs\<close>, and a key extractor with the state of its closure.\<close>

record ('s, 'v) source_ops =
  source_next :: "'s \<Rightarrow> 's \<times> 'v stream_element option res"
  source_snapshot :: "'s \<Rightarrow> bytes res"
  source_restore :: "'s \<Rightarrow> bytes \<Rightarrow> 's \<times> unit res"

type_synonym ('s, 'v) key_extractor = "('s \<Rightarrow> 'v \<Rightarrow> bytes \<times> 's) \<times> 's"

fun apply_key :: "('s, 'v) key_extractor option \<Rightarrow> 'v stream_element \<Rightarrow> 'v stream_element \<times> ('s, 'v) key_extractor option" where
  "apply_key (Some (key_fn, s)) (ElemRecord rec) =
     (case key_fn s (rec_value rec) of (key, s') \<Rightarrow> (ElemRecord (rec\<lparr>rec_key := Some key\<rparr>), Some (key_fn, s')))"
| "apply_key key e = (e, key)"

text \<open>The loop that drains a source into a channel, the one that copies one channel into another, and the merger.
  \<open>dr_held\<close> and \<open>rl_held\<close> are the element a loop is waiting to send; \<open>mw_sent\<close> counts the completed sends of \<open>mg_out\<close>.\<close>

record ('s, 'v) drainer =
  dr_source :: "('s, 'v) source_ops"
  dr_state :: 's
  dr_key :: "('s, 'v) key_extractor option"
  dr_held :: "'v stream_element option"
  dr_out :: nat

record ('s, 'v) relay =
  rl_in :: nat
  rl_key :: "('s, 'v) key_extractor option"
  rl_held :: "'v stream_element option"
  rl_out :: nat

record 'v merger =
  mw_in1 :: nat
  mw_in2 :: nat
  mw_out :: nat
  mw_state :: "('v, 'v) merge"
  mw_sent :: nat

datatype ('v, 's, 'n) actor =
    DrainActor "('s, 'v) drainer"
  | RelayActor "('s, 'v) relay"
  | MergeActor "'v merger"
  | TaskActor "('s, ('v, 'n) link, 'v, 'v) operator" "('s, nat, nat) task"
  | PairTaskActor "('s, ('v, 'n) link, ('v, 'v) either, 'v) operator" "('s, nat, nat) task"

record ('v, 's, 'n) spawned =
  sp_name :: string
  sp_actor :: "('v, 's, 'n) actor"
  sp_result :: "unit res option"

record ('v, 's, 'n) net =
  net_links :: "('v, 'n) link list"
  net_pairs :: "(('v, 'v) either, 'n) link list"
  net_spawned :: "('v, 's, 'n) spawned list"
  net_cancelled :: bool

definition net_new :: "('v, 's, 'n) net" where
  "net_new = \<lparr>net_links = [], net_pairs = [], net_spawned = [], net_cancelled = False\<rparr>"

subsection \<open>One poll of each kind of task\<close>

text \<open>\<open>while let Some(element) = source.next().await? { tx.send(element).await ...?; }\<close>, with the key extractor of a
  connected source.\<close>

definition drain_poll where
  "drain_poll nf d links =
     (case dr_held d of
        Some e \<Rightarrow>
          (case link_send nf (links ! dr_out d) e of
             SendDone l \<Rightarrow> (d\<lparr>dr_held := None\<rparr>, links[dr_out d := l], None)
           | SendWaits \<Rightarrow> (d, links, None)
           | SendFails \<Rightarrow> (d, links, Some (Err ChannelClosed)))
      | None \<Rightarrow>
          (case source_next (dr_source d) (dr_state d) of
             (s, Ok (Some e)) \<Rightarrow>
               (case apply_key (dr_key d) e of (e', key) \<Rightarrow> (d\<lparr>dr_state := s, dr_key := key, dr_held := Some e'\<rparr>, links, None))
           | (s, Ok None) \<Rightarrow> (d\<lparr>dr_state := s\<rparr>, links, Some (Ok ()))
           | (s, Err x) \<Rightarrow> (d\<lparr>dr_state := s\<rparr>, links, Some (Err x))
           | (s, Panic p) \<Rightarrow> (d\<lparr>dr_state := s\<rparr>, links, Some (Panic p))))"

definition relay_poll where
  "relay_poll nf rl links =
     (case rl_held rl of
        Some e \<Rightarrow>
          (case link_send nf (links ! rl_out rl) e of
             SendDone l \<Rightarrow> (rl\<lparr>rl_held := None\<rparr>, links[rl_out rl := l], None)
           | SendWaits \<Rightarrow> (rl, links, None)
           | SendFails \<Rightarrow> (rl, links, Some (Err ChannelClosed)))
      | None \<Rightarrow>
          (case link_poll (links ! rl_in rl) of
             (l, ReadyElement e) \<Rightarrow>
               (case apply_key (rl_key rl) e of (e', key) \<Rightarrow> (rl\<lparr>rl_key := key, rl_held := Some e'\<rparr>, links[rl_in rl := l], None))
           | (l, ReadyClosed) \<Rightarrow> (rl, links[rl_in rl := l], Some (Ok ()))
           | (l, PollPanic p) \<Rightarrow> (rl, links[rl_in rl := l], Some (Panic p))
           | (l, PollPending) \<Rightarrow> (rl, links[rl_in rl := l], None)))"

text \<open>Which input an iteration of \<open>two_input_merge\<close> awaits; both, as \<open>pick1\<close> says, when both are open and no barrier
  is held back.\<close>

definition reads_second :: "bool \<Rightarrow> ('a, 'b) merge \<Rightarrow> bool" where
  "reads_second pick1 s =
     (if mg_pending1 s \<noteq> None \<and> mg_pending2 s = None then True
      else if mg_pending2 s \<noteq> None \<and> mg_pending1 s = None then False
      else \<not> ((mg_open1 s \<and> mg_open2 s \<and> pick1) \<or> (mg_open1 s \<and> \<not> mg_open2 s)))"

definition merge_poll where
  "merge_poll nf pick1 m links pairs =
     (let s = mw_state m; c = (if reads_second pick1 s then mw_in2 m else mw_in1 m) in
      if mw_sent m < length (mg_out s) then
        (case link_send nf (pairs ! mw_out m) (mg_out s ! mw_sent m) of
           SendDone l \<Rightarrow> (m\<lparr>mw_sent := mw_sent m + 1\<rparr>, links, pairs[mw_out m := l], None)
         | SendWaits \<Rightarrow> (m, links, pairs, None)
         | SendFails \<Rightarrow> (m, links, pairs, Some (Err ChannelClosed)))
      else if \<not> mg_open1 s \<and> \<not> mg_open2 s then (m, links, pairs, Some (Ok ()))
      else
        (case link_poll (links ! c) of
           (l, ReadyElement e) \<Rightarrow>
             (m\<lparr>mw_state := fst (merge_iteration pick1 (if reads_second pick1 s then s\<lparr>mg_in2 := [e]\<rparr> else s\<lparr>mg_in1 := [e]\<rparr>))\<rparr>,
              links[c := l], pairs, None)
         | (l, ReadyClosed) \<Rightarrow> (m\<lparr>mw_state := fst (merge_iteration pick1 s)\<rparr>, links[c := l], pairs, None)
         | (l, PollPanic p) \<Rightarrow> (m, links[c := l], pairs, Some (Panic p))
         | (l, PollPending) \<Rightarrow> (m, links[c := l], pairs, None)))"

text \<open>A task of the network holds the numbers of its channels.\<close>

definition attach :: "'i \<Rightarrow> 'c \<Rightarrow> bool \<Rightarrow> ('s, nat, nat) task \<Rightarrow> ('s, 'c, 'i) task" where
  "attach input c token t = \<lparr>task_op = task_op t, task_col = c, task_input = input, task_has_token = task_has_token t,
     task_token = token, task_draining = task_draining t, task_records = task_records t, task_result = task_result t\<rparr>"

definition detach :: "('s, nat, nat) task \<Rightarrow> ('s, 'c, 'i) task \<Rightarrow> ('s, nat, nat) task" where
  "detach t0 t = \<lparr>task_op = task_op t, task_col = task_col t0, task_input = task_input t0, task_has_token = task_has_token t,
     task_token = task_token t, task_draining = task_draining t, task_records = task_records t, task_result = task_result t\<rparr>"

definition link_collector :: "('n \<Rightarrow> 'n) \<Rightarrow> (('v, 'n) link, 'v) collector" where
  "link_collector nf = channel_collector (link_try_send nf)"

definition run_task_poll where
  "run_task_poll nf opr token input c t = task_poll opr (link_collector nf) link_poll (attach input c token t)"

fun actor_poll where
  "actor_poll nf token pick1 (DrainActor d) links pairs =
     (case drain_poll nf d links of (d', links', r) \<Rightarrow> (DrainActor d', links', pairs, r))"
| "actor_poll nf token pick1 (RelayActor rl) links pairs =
     (case relay_poll nf rl links of (rl', links', r) \<Rightarrow> (RelayActor rl', links', pairs, r))"
| "actor_poll nf token pick1 (MergeActor m) links pairs =
     (case merge_poll nf pick1 m links pairs of (m', links', pairs', r) \<Rightarrow> (MergeActor m', links', pairs', r))"
| "actor_poll nf token pick1 (TaskActor opr t) links pairs =
     (let t1 = run_task_poll nf opr token (links ! task_input t) (links ! task_col t) t
      in (TaskActor opr (detach t t1), links[task_input t := task_input t1, task_col t := task_col t1], pairs, task_result t1))"
| "actor_poll nf token pick1 (PairTaskActor opr t) links pairs =
     (let t1 = run_task_poll nf opr token (pairs ! task_input t) (links ! task_col t) t
      in (PairTaskActor opr (detach t t1), links[task_col t := task_col t1], pairs[task_input t := task_input t1], task_result t1))"

text \<open>When a future completes, its ends of the channels are dropped.\<close>

definition drop_out :: "('n \<Rightarrow> 'n) \<Rightarrow> nat \<Rightarrow> ('a, 'n) link list \<Rightarrow> ('a, 'n) link list" where
  "drop_out nf c ls = ls[c := link_drop_sender nf (ls ! c)]"

definition drop_in :: "nat \<Rightarrow> ('a, 'n) link list \<Rightarrow> ('a, 'n) link list" where
  "drop_in c ls = ls[c := link_drop_receiver (ls ! c)]"

fun release where
  "release nf (DrainActor d) links pairs = (drop_out nf (dr_out d) links, pairs)"
| "release nf (RelayActor rl) links pairs = (drop_out nf (rl_out rl) (drop_in (rl_in rl) links), pairs)"
| "release nf (MergeActor m) links pairs = (drop_in (mw_in2 m) (drop_in (mw_in1 m) links), drop_out nf (mw_out m) pairs)"
| "release nf (TaskActor opr t) links pairs = (drop_out nf (task_col t) (drop_in (task_input t) links), pairs)"
| "release nf (PairTaskActor opr t) links pairs = (drop_out nf (task_col t) links, drop_in (task_input t) pairs)"

definition spawned_poll :: "('n \<Rightarrow> 'n) \<Rightarrow> bool \<Rightarrow> nat \<Rightarrow> ('v, 's, 'n) net \<Rightarrow> ('v, 's, 'n) net" where
  "spawned_poll nf pick1 k net =
     (if \<not> k < length (net_spawned net) \<or> sp_result (net_spawned net ! k) \<noteq> None then net
      else case actor_poll nf (net_cancelled net) pick1 (sp_actor (net_spawned net ! k)) (net_links net) (net_pairs net) of
        (a, links, pairs, r) \<Rightarrow>
          (case (if r = None then (links, pairs) else release nf a links pairs) of
             (links', pairs') \<Rightarrow>
               net\<lparr>net_links := links', net_pairs := pairs',
                 net_spawned := (net_spawned net)[k := (net_spawned net ! k)\<lparr>sp_actor := a, sp_result := r\<rparr>]\<rparr>))"

end
