(* ===== verification/Dataflow_Steps.thy ===== *)
theory Dataflow_Steps
  imports Dataflow
begin

text \<open>
  What one poll of each kind of task computes, in terms of the histories of its channels: the channels are bounded FIFO
  queues, an operator that satisfies \<open>transduces\<close> emits what its transducer says, and the merger, fed one element at a
  time, makes the iterations of \<open>two_input_merge\<close> on the complete inputs.
\<close>

subsection \<open>Channels\<close>

definition lk_contents :: "('a, 'n) link \<Rightarrow> 'a stream_element list" where
  "lk_contents l = transport_contents (lk_transport l)"

definition lk_closed :: "('a, 'n) link \<Rightarrow> bool" where "lk_closed l = transport_closed (lk_transport l)"

fun transport_capacity :: "('a, 'n) transport \<Rightarrow> nat" where
  "transport_capacity (MpscChannel cap q closed) = cap"
| "transport_capacity (RingChannel r) = rb_mask r + 1"

definition lk_capacity :: "('a, 'n) link \<Rightarrow> nat" where "lk_capacity l = transport_capacity (lk_transport l)"

text \<open>The invariant of a channel: first in, first out, and never more than its capacity.\<close>

definition link_ok :: "('a, 'n) link \<Rightarrow> bool" where
  "link_ok l \<longleftrightarrow> transport_valid (lk_transport l) \<and> lk_sent l = lk_taken l @ lk_contents l \<and>
     length (lk_contents l) \<le> lk_capacity l"

definition lk_drained :: "('a, 'n) link \<Rightarrow> bool" where "lk_drained l \<longleftrightarrow> lk_closed l \<and> lk_taken l = lk_sent l"

lemma transport_send_bound:
  assumes "transport_valid t" and "length (transport_contents t) \<le> transport_capacity t" and "transport_send nf t e = (t', ok)"
  shows "length (transport_contents t') \<le> transport_capacity t'" and "transport_capacity t' = transport_capacity t"
proof -
  have "length (transport_contents t') \<le> transport_capacity t' \<and> transport_capacity t' = transport_capacity t"
  proof (cases t)
    case (RingChannel r)
    obtain r' ok' where send: "try_send nf r e = (r', ok')" by fastforce
    with assms RingChannel try_send_step [of r nf e r' ok'] show ?thesis by (auto simp: Suc_le_eq)
  qed (use assms in \<open>auto split: if_splits\<close>)
  then show "length (transport_contents t') \<le> transport_capacity t'" "transport_capacity t' = transport_capacity t" by simp_all
qed

lemma poll_recv_capacity: "transport_valid t \<Longrightarrow> poll_recv t = (t', p) \<Longrightarrow> transport_capacity t' = transport_capacity t"
proof (cases t)
  case (RingChannel r)
  assume "transport_valid t" "poll_recv t = (t', p)"
  moreover obtain r' res where "try_recv r = (r', res)" by fastforce
  ultimately show ?thesis using RingChannel try_recv_step [of r r' res] by (auto split: res.splits option.splits)
qed (auto split: list.splits)

lemma try_send_link:
  assumes "link_ok l" and "link_try_send nf l e = (l', ok)"
  shows "link_ok l'" and "lk_sent l' = (if ok then lk_sent l @ [e] else lk_sent l)" and "lk_taken l' = lk_taken l"
    and "lk_closed l' = lk_closed l" and "lk_capacity l' = lk_capacity l" and "lk_receiver l' = lk_receiver l"
proof -
  have "link_ok l' \<and> lk_sent l' = (if ok then lk_sent l @ [e] else lk_sent l) \<and> lk_taken l' = lk_taken l \<and>
    lk_closed l' = lk_closed l \<and> lk_capacity l' = lk_capacity l \<and> lk_receiver l' = lk_receiver l"
  proof (cases "is_mpsc (lk_transport l) \<and> \<not> lk_receiver l")
    case False
    obtain t ok' where send: "transport_send nf (lk_transport l) e = (t, ok')" by fastforce
    have v: "transport_valid (lk_transport l)" using assms(1) by (simp add: link_ok_def)
    from assms send False transport_send_step [OF v send] transport_send_bound [OF v _ send] show ?thesis
      by (auto simp: link_try_send_def link_ok_def lk_contents_def lk_closed_def lk_capacity_def)
  qed (use assms in \<open>auto simp: link_try_send_def\<close>)
  then show "link_ok l'" "lk_sent l' = (if ok then lk_sent l @ [e] else lk_sent l)" "lk_taken l' = lk_taken l"
    "lk_closed l' = lk_closed l" "lk_capacity l' = lk_capacity l" "lk_receiver l' = lk_receiver l" by simp_all
qed

lemma send_link:
  assumes "link_ok l" and "link_send nf l e = SendDone l'"
  shows "link_ok l'" and "lk_sent l' = lk_sent l @ [e]" and "lk_taken l' = lk_taken l"
    and "lk_closed l' = lk_closed l" and "lk_capacity l' = lk_capacity l"
proof -
  obtain t ok where send: "transport_send nf (lk_transport l) e = (t, ok)" by fastforce
  with assms(2) have "link_try_send nf l e = (l', True)"
    by (auto simp: link_send_def link_try_send_def split: if_splits bool.splits)
  note s = try_send_link [OF assms(1) this]
  show "link_ok l'" "lk_sent l' = lk_sent l @ [e]" "lk_taken l' = lk_taken l"
    "lk_closed l' = lk_closed l" "lk_capacity l' = lk_capacity l" using s by simp_all
qed

lemma poll_link:
  assumes "link_ok l" and "link_poll l = (l', p)"
  shows "link_ok l'" and "lk_sent l' = lk_sent l" and "lk_closed l' = lk_closed l" and "lk_capacity l' = lk_capacity l"
    and "case p of ReadyElement e \<Rightarrow> lk_taken l' = lk_taken l @ [e] | ReadyClosed \<Rightarrow> lk_taken l' = lk_taken l \<and> lk_drained l'
      | PollPending \<Rightarrow> lk_taken l' = lk_taken l | PollPanic _ \<Rightarrow> False"
proof -
  let ?t = "lk_transport l"
  have v: "transport_valid ?t" and sent: "lk_sent l = lk_taken l @ transport_contents ?t"
    and len: "length (transport_contents ?t) \<le> transport_capacity ?t"
    using assms(1) by (simp_all add: link_ok_def lk_contents_def lk_capacity_def)
  obtain t q where poll: "poll_recv ?t = (t, q)" by fastforce
  note cap = poll_recv_capacity [OF v poll]
  have "link_ok l' \<and> lk_sent l' = lk_sent l \<and> lk_closed l' = lk_closed l \<and> lk_capacity l' = lk_capacity l \<and>
    (case p of ReadyElement e \<Rightarrow> lk_taken l' = lk_taken l @ [e] | ReadyClosed \<Rightarrow> lk_taken l' = lk_taken l \<and> lk_drained l'
      | PollPending \<Rightarrow> lk_taken l' = lk_taken l | PollPanic _ \<Rightarrow> False)"
  proof (cases "transport_contents ?t")
    case (Cons e es)
    with transport.poll_element [OF v Cons] poll assms(2) sent len cap show ?thesis
      by (auto simp: link_poll_def link_ok_def lk_contents_def lk_closed_def lk_capacity_def)
  next
    case Nil
    with transport.poll_empty [OF v Nil] poll assms(2) sent len cap show ?thesis
      by (auto simp: link_poll_def link_ok_def lk_contents_def lk_closed_def lk_capacity_def lk_drained_def split: if_splits)
  qed
  then show "link_ok l'" "lk_sent l' = lk_sent l" "lk_closed l' = lk_closed l" "lk_capacity l' = lk_capacity l"
    "case p of ReadyElement e \<Rightarrow> lk_taken l' = lk_taken l @ [e] | ReadyClosed \<Rightarrow> lk_taken l' = lk_taken l \<and> lk_drained l'
      | PollPending \<Rightarrow> lk_taken l' = lk_taken l | PollPanic _ \<Rightarrow> False" by simp_all
qed

lemma transport_drop_capacity: "transport_capacity (transport_drop nf t) = transport_capacity t"
  by (cases t) (auto simp: drop_producer_def)

lemma drop_sender_link:
  assumes "link_ok l"
  shows "link_ok (link_drop_sender nf l)" and "lk_sent (link_drop_sender nf l) = lk_sent l"
    and "lk_taken (link_drop_sender nf l) = lk_taken l" and "lk_closed (link_drop_sender nf l)"
    and "lk_capacity (link_drop_sender nf l) = lk_capacity l"
  using assms transport.drop_laws [of "lk_transport l" nf]
  by (auto simp: link_ok_def link_drop_sender_def lk_contents_def lk_closed_def lk_capacity_def transport_drop_capacity)

lemma drop_receiver_link [simp]:
  "link_ok (link_drop_receiver l) = link_ok l" "lk_sent (link_drop_receiver l) = lk_sent l"
  "lk_taken (link_drop_receiver l) = lk_taken l" "lk_closed (link_drop_receiver l) = lk_closed l"
  "lk_capacity (link_drop_receiver l) = lk_capacity l"
  by (auto simp: link_ok_def link_drop_receiver_def lk_contents_def lk_closed_def lk_capacity_def)

text \<open>The collector of a channel, whatever else is fixed of the channel.\<close>

definition out_link :: "('v, 'n) link \<Rightarrow> ('v, 'n) link \<Rightarrow> bool" where
  "out_link l0 l \<longleftrightarrow> link_ok l \<and> lk_taken l = lk_taken l0 \<and> lk_closed l = lk_closed l0 \<and> lk_capacity l = lk_capacity l0"

lemma link_collector_laws: "collector_laws (link_collector nf) lk_sent (out_link l0)"
  unfolding link_collector_def
proof (rule channel_collector_laws)
  show "sender_laws (link_try_send nf) lk_sent (out_link l0)"
  proof
    fix ch ch' x
    show "out_link l0 ch \<Longrightarrow> link_try_send nf ch x = (ch', True) \<Longrightarrow> lk_sent ch' = lk_sent ch @ [x]"
      using try_send_link(2) [of ch nf x ch' True] by (simp add: out_link_def)
    show "out_link l0 ch \<Longrightarrow> link_try_send nf ch x = (ch', False) \<Longrightarrow> lk_sent ch' = lk_sent ch"
      using try_send_link(2) [of ch nf x ch' False] by (simp add: out_link_def)
    assume "out_link l0 ch"
    moreover obtain c ok where "link_try_send nf ch x = (c, ok)" by fastforce
    ultimately show "out_link l0 (fst (link_try_send nf ch x))"
      using try_send_link [of ch nf x c ok] by (simp add: out_link_def)
  qed
qed

interpretation link_col: collector_laws "link_collector nf" lk_sent "out_link l0"
  by (rule link_collector_laws)

subsection \<open>What each task computes\<close>

text \<open>
  The contract of an operator: what a successful step emits, and the state it leaves, do not depend on the collector.
  \<open>f\<close> maps the state and an element to the next state and the elements emitted.
\<close>

definition transduces :: "('s, ('v, 'n) link, 'i, 'v) operator \<Rightarrow> ('s \<Rightarrow> 'i stream_element \<Rightarrow> 's \<times> 'v stream_element list) \<Rightarrow> bool" where
  "transduces opr f \<longleftrightarrow> (\<forall>col inv c e s s' c' r. collector_laws col lk_sent inv \<longrightarrow> inv c \<longrightarrow>
     operator_step opr col e s c = (s', c', r) \<longrightarrow>
     inv c' \<and> (r = Ok () \<longrightarrow> s' = fst (f s e) \<and> lk_sent c' = lk_sent c @ snd (f s e)))"

fun run_transducer :: "('s \<Rightarrow> 'i stream_element \<Rightarrow> 's \<times> 'o stream_element list) \<Rightarrow> 's \<Rightarrow> 'i stream_element list \<Rightarrow>
    's \<times> 'o stream_element list" where
  "run_transducer f s [] = (s, [])"
| "run_transducer f s (e # es) =
     (case f s e of (s1, ys) \<Rightarrow> (case run_transducer f s1 es of (s2, zs) \<Rightarrow> (s2, ys @ zs)))"

lemma run_transducer_snoc:
  "run_transducer f s es = (s1, ys) \<Longrightarrow> run_transducer f s (es @ [e]) = (fst (f s1 e), ys @ snd (f s1 e))"
  by (induction es arbitrary: s ys) (auto split: prod.splits)

definition elementwise_step :: "('s \<Rightarrow> 'i flume_record \<Rightarrow> 'o flume_record list \<times> 's) \<Rightarrow> 's \<Rightarrow> 'i stream_element \<Rightarrow>
    's \<times> 'o stream_element list" where
  "elementwise_step expand s e = prod.swap (elementwise expand s [e])"

text \<open>Every operator of the elementwise contract satisfies it.\<close>

lemma elementwise_transduces:
  assumes "elementwise_operator opr expand"
  shows "transduces opr (elementwise_step expand)"
proof -
  have "inv c' \<and> (r = Ok () \<longrightarrow> s' = fst (elementwise_step expand s e) \<and> lk_sent c' = lk_sent c @ snd (elementwise_step expand s e))"
    if "collector_laws col lk_sent inv" "inv c" "operator_step opr col e s c = (s', c', r)" for col inv c e s s' c' r
  proof -
    have "elementwise_into opr expand col lk_sent inv" by (intro elementwise_into.intro assms that(1))
    from elementwise_into.step_emits [OF this that(2,3)] show ?thesis by (simp add: elementwise_step_def)
  qed
  then show ?thesis unfolding transduces_def by blast
qed
text \<open>What a source delivers until it ends, with the keys its drainer attaches, and the same for a relayed stream.\<close>

inductive drains :: "('s \<Rightarrow> 's \<times> 'v stream_element option res) \<Rightarrow> ('s, 'v) key_extractor option \<Rightarrow> 's \<Rightarrow> 'v stream_element list \<Rightarrow> bool"
  for src where
  ended: "src s = (s', Ok None) \<Longrightarrow> drains src key s []"
| delivered: "src s = (s', Ok (Some e)) \<Longrightarrow> apply_key key e = (e', key') \<Longrightarrow> drains src key' s' es \<Longrightarrow> drains src key s (e' # es)"

fun key_elements :: "('s, 'v) key_extractor option \<Rightarrow> 'v stream_element list \<Rightarrow> 'v stream_element list \<times> ('s, 'v) key_extractor option" where
  "key_elements key [] = ([], key)"
| "key_elements key (e # es) =
     (case apply_key key e of (e', key') \<Rightarrow> (case key_elements key' es of (es', key'') \<Rightarrow> (e' # es', key'')))"

lemma key_elements_snoc:
  "key_elements key es = (es', key1) \<Longrightarrow> apply_key key1 e = (e', key2) \<Longrightarrow> key_elements key (es @ [e]) = (es' @ [e'], key2)"
  by (induction es arbitrary: key es') (auto split: prod.splits)

lemma key_elements_None [simp]: "key_elements None es = (es, None)"
  by (induction es) (auto split: prod.splits)

text \<open>An iteration of the merger depends on its inputs only through the element it reads.\<close>

definition merge_steps :: "('a, 'b) merge \<Rightarrow> ('a, 'b) merge \<Rightarrow> bool" where
  "merge_steps s s' \<longleftrightarrow> (mg_open1 s \<or> mg_open2 s) \<and> (\<exists>pick1. merge_iteration pick1 s = (s', Ok ()))"

definition set_inputs :: "'a stream_element list \<Rightarrow> 'b stream_element list \<Rightarrow> ('a, 'b) merge \<Rightarrow> ('a, 'b) merge" where
  "set_inputs f1 f2 s = s\<lparr>mg_in1 := f1, mg_in2 := f2\<rparr>"

definition on_inputs where "on_inputs f1 f2 sr = (set_inputs f1 f2 (fst sr), snd sr)"

lemma set_inputs_sel [simp]:
  "mg_in1 (set_inputs f1 f2 s) = f1" "mg_in2 (set_inputs f1 f2 s) = f2" "mg_open1 (set_inputs f1 f2 s) = mg_open1 s"
  "mg_open2 (set_inputs f1 f2 s) = mg_open2 s" "mg_pending1 (set_inputs f1 f2 s) = mg_pending1 s"
  "mg_pending2 (set_inputs f1 f2 s) = mg_pending2 s" "mg_out (set_inputs f1 f2 s) = mg_out s" "mg_room (set_inputs f1 f2 s) = mg_room s"
  "mg_buffer1 (set_inputs f1 f2 s) = mg_buffer1 s" "mg_buffer2 (set_inputs f1 f2 s) = mg_buffer2 s"
  "set_inputs g1 g2 (set_inputs f1 f2 s) = set_inputs g1 g2 s"
  "(set_inputs f1 f2 s)\<lparr>mg_in1 := g1\<rparr> = set_inputs g1 f2 s" "(set_inputs f1 f2 s)\<lparr>mg_in2 := g2\<rparr> = set_inputs f1 g2 s"
  "set_inputs f1 f2 (s\<lparr>mg_in1 := g1\<rparr>) = set_inputs f1 f2 s" "set_inputs f1 f2 (s\<lparr>mg_in2 := g2\<rparr>) = set_inputs f1 f2 s"
  by (simp_all add: set_inputs_def)

lemma set_inputs_updates:
  "(set_inputs f1 f2 s)\<lparr>mg_pending1 := x\<rparr> = set_inputs f1 f2 (s\<lparr>mg_pending1 := x\<rparr>)"
  "(set_inputs f1 f2 s)\<lparr>mg_pending2 := x\<rparr> = set_inputs f1 f2 (s\<lparr>mg_pending2 := x\<rparr>)"
  "(set_inputs f1 f2 s)\<lparr>mg_buffer1 := b\<rparr> = set_inputs f1 f2 (s\<lparr>mg_buffer1 := b\<rparr>)"
  "(set_inputs f1 f2 s)\<lparr>mg_buffer2 := b\<rparr> = set_inputs f1 f2 (s\<lparr>mg_buffer2 := b\<rparr>)"
  "(set_inputs f1 f2 s)\<lparr>mg_open1 := c\<rparr> = set_inputs f1 f2 (s\<lparr>mg_open1 := c\<rparr>)"
  "(set_inputs f1 f2 s)\<lparr>mg_open2 := c\<rparr> = set_inputs f1 f2 (s\<lparr>mg_open2 := c\<rparr>)"
  "(set_inputs f1 f2 s)\<lparr>mg_out := d\<rparr> = set_inputs f1 f2 (s\<lparr>mg_out := d\<rparr>)"
  by (simp_all add: set_inputs_def)

lemma set_inputs_same: "mg_in1 s = f1 \<Longrightarrow> mg_in2 s = f2 \<Longrightarrow> set_inputs f1 f2 s = s"
  by (auto simp: set_inputs_def)

text \<open>Without a limit on its output, a helper of the merger succeeds and extends the output.\<close>

definition unlimited :: "('a, 'b) merge \<Rightarrow> ('a, 'b) merge \<times> unit res \<Rightarrow> bool" where
  "unlimited s sr \<longleftrightarrow> snd sr = Ok () \<and> mg_room (fst sr) = None \<and> (\<exists>d. mg_out (fst sr) = mg_out s @ d) \<and>
     mg_open1 (fst sr) = mg_open1 s \<and> mg_open2 (fst sr) = mg_open2 s \<and> mg_in1 (fst sr) = mg_in1 s \<and> mg_in2 (fst sr) = mg_in2 s"

lemma merge_send_room: "mg_room s = None \<Longrightarrow> merge_send s e = (s\<lparr>mg_out := mg_out s @ [e]\<rparr>, Ok ())"
  by (simp add: merge_send_def)

lemma merge_send_all_room: "mg_room s = None \<Longrightarrow> merge_send_all s es = (s\<lparr>mg_out := mg_out s @ es\<rparr>, Ok ())"
  by (induction es arbitrary: s) (auto simp: merge_send_room)

lemma handle_element1_room:
  assumes "mg_room s = None"
  shows "unlimited s (handle_element1 e s)" and "handle_element1 e (set_inputs f1 f2 s) = on_inputs f1 f2 (handle_element1 e s)"
  using assms by (cases e; auto simp: handle_element1_def unlimited_def merge_send_room Let_def on_inputs_def set_inputs_def)+

lemma handle_element2_room:
  assumes "mg_room s = None"
  shows "unlimited s (handle_element2 e s)" and "handle_element2 e (set_inputs f1 f2 s) = on_inputs f1 f2 (handle_element2 e s)"
  using assms by (cases e; auto simp: handle_element2_def unlimited_def merge_send_room Let_def on_inputs_def set_inputs_def)+

lemma try_flush_barriers_room:
  assumes "mg_room s = None"
  shows "unlimited s (try_flush_barriers s)" and "try_flush_barriers (set_inputs f1 f2 s) = on_inputs f1 f2 (try_flush_barriers s)"
  using assms by (auto simp: try_flush_barriers_def flush_buffer1_def flush_buffer2_def and_then_merge_def merge_send_room
      merge_send_all_room unlimited_def on_inputs_def set_inputs_def split: option.splits)

lemma unlimited_then:
  assumes "unlimited s sr" and "\<And>s'. mg_room s' = None \<Longrightarrow> unlimited s' (f s')" and
    "\<And>s'. mg_room s' = None \<Longrightarrow> f (set_inputs f1 f2 s') = on_inputs f1 f2 (f s')"
  shows "unlimited s (and_then_merge sr f)" and "and_then_merge (on_inputs f1 f2 sr) f = on_inputs f1 f2 (and_then_merge sr f)"
proof -
  obtain s1 where sr: "sr = (s1, Ok ())" and room: "mg_room s1 = None" using assms(1) by (cases sr) (auto simp: unlimited_def)
  show "unlimited s (and_then_merge sr f)" using assms(1) assms(2) [OF room] by (auto simp: sr unlimited_def and_then_merge_def)
  show "and_then_merge (on_inputs f1 f2 sr) f = on_inputs f1 f2 (and_then_merge sr f)"
    using assms(3) [OF room] by (simp add: sr and_then_merge_def) (simp add: on_inputs_def)
qed

lemma iteration_first:
  assumes "\<not> reads_second pick1 s" and "mg_in1 s = e # es"
  shows "merge_iteration pick1 s =
    (if mg_pending2 s \<noteq> None \<and> mg_pending1 s = None then and_then_merge (handle_element1 e (s\<lparr>mg_in1 := es\<rparr>)) try_flush_barriers
     else handle_element1 e (s\<lparr>mg_in1 := es\<rparr>))"
  using assms by (auto simp: merge_iteration_def reads_second_def split: if_splits)

lemma iteration_second:
  assumes "reads_second pick1 s" and "mg_in2 s = e # es"
  shows "merge_iteration pick1 s =
    (if mg_pending1 s \<noteq> None \<and> mg_pending2 s = None then and_then_merge (handle_element2 e (s\<lparr>mg_in2 := es\<rparr>)) try_flush_barriers
     else handle_element2 e (s\<lparr>mg_in2 := es\<rparr>))"
  using assms by (auto simp: merge_iteration_def reads_second_def split: if_splits)

lemma reads_second_inputs [simp]:
  "reads_second pick1 (set_inputs f1 f2 s) = reads_second pick1 s"
  "reads_second pick1 (s\<lparr>mg_in1 := f1\<rparr>) = reads_second pick1 s" "reads_second pick1 (s\<lparr>mg_in2 := f2\<rparr>) = reads_second pick1 s"
  by (simp_all add: reads_second_def)

text \<open>Reading one element, and seeing the end, of the input that is awaited, whatever else the inputs still hold.\<close>

definition between_reads :: "('a, 'b) merge \<Rightarrow> bool" where
  "between_reads s \<longleftrightarrow> mg_in1 s = [] \<and> mg_in2 s = [] \<and> mg_room s = None"

lemma between_reads_updates:
  assumes "between_reads s"
  shows "s\<lparr>mg_in1 := es\<rparr> = set_inputs es [] s" and "s\<lparr>mg_in2 := fs\<rparr> = set_inputs [] fs s" and "set_inputs [] [] s = s"
  using assms by (auto simp: between_reads_def set_inputs_def)

lemma merge_feed1:
  assumes "\<not> reads_second pick1 s" and "between_reads s" and "s' = fst (merge_iteration pick1 (s\<lparr>mg_in1 := [e]\<rparr>))"
  shows "merge_iteration pick1 (set_inputs (e # f1) f2 s) = (set_inputs f1 f2 s', Ok ())" and "unlimited s (s', Ok ())"
proof -
  have room: "mg_room s = None" using assms(2) by (simp add: between_reads_def)
  note h = handle_element1_room [OF room, of e]
  let ?h = "if mg_pending2 s \<noteq> None \<and> mg_pending1 s = None then and_then_merge (handle_element1 e s) try_flush_barriers else handle_element1 e s"
  have all: "merge_iteration pick1 (set_inputs (e # g1) g2 s) = on_inputs g1 g2 ?h" for g1 g2
    using assms(1) iteration_first [of pick1 "set_inputs (e # g1) g2 s" e g1] h(2) [of g1 g2]
      unlimited_then(2) [OF h(1), of try_flush_barriers g1 g2, OF try_flush_barriers_room] by auto
  have u: "unlimited s ?h"
    using h(1) unlimited_then(1) [OF h(1), of try_flush_barriers, OF try_flush_barriers_room] by auto
  have "fst ?h = set_inputs [] [] (fst ?h)"
    using u assms(2) set_inputs_same [of "fst ?h" "[]" "[]"] by (auto simp: unlimited_def between_reads_def)
  with assms(2,3) all [of "[]" "[]"] have s': "s' = fst ?h" by (simp add: between_reads_updates on_inputs_def)
  show "merge_iteration pick1 (set_inputs (e # f1) f2 s) = (set_inputs f1 f2 s', Ok ())"
    using all [of f1 f2] u s' by (simp add: on_inputs_def unlimited_def)
  show "unlimited s (s', Ok ())" using u s' by (simp add: unlimited_def)
qed

lemma merge_feed2:
  assumes "reads_second pick1 s" and "between_reads s" and "s' = fst (merge_iteration pick1 (s\<lparr>mg_in2 := [e]\<rparr>))"
  shows "merge_iteration pick1 (set_inputs f1 (e # f2) s) = (set_inputs f1 f2 s', Ok ())" and "unlimited s (s', Ok ())"
proof -
  have room: "mg_room s = None" using assms(2) by (simp add: between_reads_def)
  note h = handle_element2_room [OF room, of e]
  let ?h = "if mg_pending1 s \<noteq> None \<and> mg_pending2 s = None then and_then_merge (handle_element2 e s) try_flush_barriers else handle_element2 e s"
  have all: "merge_iteration pick1 (set_inputs g1 (e # g2) s) = on_inputs g1 g2 ?h" for g1 g2
    using assms(1) iteration_second [of pick1 "set_inputs g1 (e # g2) s" e g2] h(2) [of g1 g2]
      unlimited_then(2) [OF h(1), of try_flush_barriers g1 g2, OF try_flush_barriers_room] by auto
  have u: "unlimited s ?h"
    using h(1) unlimited_then(1) [OF h(1), of try_flush_barriers, OF try_flush_barriers_room] by auto
  have "fst ?h = set_inputs [] [] (fst ?h)"
    using u assms(2) set_inputs_same [of "fst ?h" "[]" "[]"] by (auto simp: unlimited_def between_reads_def)
  with assms(2,3) all [of "[]" "[]"] have s': "s' = fst ?h" by (simp add: between_reads_updates on_inputs_def)
  show "merge_iteration pick1 (set_inputs f1 (e # f2) s) = (set_inputs f1 f2 s', Ok ())"
    using all [of f1 f2] u s' by (simp add: on_inputs_def unlimited_def)
  show "unlimited s (s', Ok ())" using u s' by (simp add: unlimited_def)
qed

lemma iteration_first_end:
  assumes "\<not> reads_second pick1 s" and "mg_in1 s = []"
  shows "merge_iteration pick1 s =
    (case (mg_pending1 s, mg_pending2 s) of
       (None, Some b) \<Rightarrow> and_then_merge (merge_send (s\<lparr>mg_open1 := False, mg_pending2 := None\<rparr>) (ElemBarrier b)) flush_buffer2
     | _ \<Rightarrow> (s\<lparr>mg_open1 := False\<rparr>, Ok ()))"
  using assms by (cases "mg_pending1 s"; cases "mg_pending2 s") (auto simp: merge_iteration_def reads_second_def Let_def split: if_splits)

lemma iteration_second_end:
  assumes "reads_second pick1 s" and "mg_in2 s = []"
  shows "merge_iteration pick1 s =
    (case (mg_pending2 s, mg_pending1 s) of
       (None, Some b) \<Rightarrow> and_then_merge (merge_send (s\<lparr>mg_open2 := False, mg_pending1 := None\<rparr>) (ElemBarrier b)) flush_buffer1
     | _ \<Rightarrow> (s\<lparr>mg_open2 := False\<rparr>, Ok ()))"
  using assms by (cases "mg_pending1 s"; cases "mg_pending2 s") (auto simp: merge_iteration_def reads_second_def Let_def split: if_splits)

lemma merge_close1:
  assumes "\<not> reads_second pick1 s" and "between_reads s" and "s' = fst (merge_iteration pick1 s)"
  shows "merge_iteration pick1 (set_inputs [] f2 s) = (set_inputs [] f2 s', Ok ())" and "between_reads s'"
    and "\<exists>d. mg_out s' = mg_out s @ d" and "\<not> mg_open1 s'" and "mg_open2 s' = mg_open2 s"
proof -
  have s: "mg_in1 s = []" "mg_in2 s = []" "mg_room s = None" using assms(2) by (simp_all add: between_reads_def)
  note i = iteration_first_end [OF assms(1) s(1)] iteration_first_end [of pick1 "set_inputs [] f2 s"]
  show "merge_iteration pick1 (set_inputs [] f2 s) = (set_inputs [] f2 s', Ok ())" "between_reads s'"
    "\<exists>d. mg_out s' = mg_out s @ d" "\<not> mg_open1 s'" "mg_open2 s' = mg_open2 s"
    unfolding assms(3) using s assms(1)
    by (auto simp: i between_reads_def set_inputs_updates flush_buffer2_def and_then_merge_def merge_send_room merge_send_all_room
        split: option.splits)
qed

lemma merge_close2:
  assumes "reads_second pick1 s" and "between_reads s" and "s' = fst (merge_iteration pick1 s)"
  shows "merge_iteration pick1 (set_inputs f1 [] s) = (set_inputs f1 [] s', Ok ())" and "between_reads s'"
    and "\<exists>d. mg_out s' = mg_out s @ d" and "\<not> mg_open2 s'" and "mg_open1 s' = mg_open1 s"
proof -
  have s: "mg_in1 s = []" "mg_in2 s = []" "mg_room s = None" using assms(2) by (simp_all add: between_reads_def)
  note i = iteration_second_end [OF assms(1) s(2)] iteration_second_end [of pick1 "set_inputs f1 [] s"]
  show "merge_iteration pick1 (set_inputs f1 [] s) = (set_inputs f1 [] s', Ok ())" "between_reads s'"
    "\<exists>d. mg_out s' = mg_out s @ d" "\<not> mg_open2 s'" "mg_open1 s' = mg_open1 s"
    unfolding assms(3) using s assms(1)
    by (auto simp: i between_reads_def set_inputs_updates flush_buffer1_def and_then_merge_def merge_send_room merge_send_all_room
        split: option.splits)
qed

end
