(* ===== verification/Dataflow_Invariant.thy ===== *)
theory Dataflow_Invariant
  imports Dataflow_Steps
begin

text \<open>
  The invariant of a running network. It relates, for each task that has not failed, what it took from its input
  channels to what it put into its output channel; a poll of one task leaves the history of every other task's
  channels alone, so the invariant holds for every order of polls.
\<close>

subsection \<open>The invariant of one task\<close>

definition fine :: "unit res option \<Rightarrow> bool" where "fine r \<longleftrightarrow> r = None \<or> r = Some (Ok ())"

lemma fine_simps [simp]: "fine None" "fine (Some (Ok ()))" "\<not> fine (Some (Err e))" "\<not> fine (Some (Panic p))"
  by (simp_all add: fine_def)

text \<open>
  \<open>d0\<close> is the drainer as it was spawned: any way in which its source could still end completes the stream that was
  sent to one of the whole source.
\<close>

abbreviation held :: "'a option \<Rightarrow> 'a list" where "held x \<equiv> (case x of None \<Rightarrow> [] | Some e \<Rightarrow> [e])"

definition drainer_inv where
  "drainer_inv d0 d r links \<longleftrightarrow> dr_source d = dr_source d0 \<and> dr_out d = dr_out d0 \<and>
     (r = None \<longrightarrow> (\<forall>es. drains (source_next (dr_source d)) (dr_key d) (dr_state d) es \<longrightarrow>
       drains (source_next (dr_source d)) (dr_key d0) (dr_state d0) (lk_sent (links ! dr_out d0) @ held (dr_held d) @ es))) \<and>
     (r = Some (Ok ()) \<longrightarrow> drains (source_next (dr_source d)) (dr_key d0) (dr_state d0) (lk_sent (links ! dr_out d0)))"

definition relay_inv where
  "relay_inv r0 rl r links \<longleftrightarrow> rl_in rl = rl_in r0 \<and> rl_out rl = rl_out r0 \<and>
     (fine r \<longrightarrow> key_elements (rl_key r0) (lk_taken (links ! rl_in r0)) = (lk_sent (links ! rl_out r0) @ held (rl_held rl), rl_key rl)) \<and>
     (r = Some (Ok ()) \<longrightarrow> rl_held rl = None \<and> lk_drained (links ! rl_in r0))"

text \<open>The merger has made iterations of the complete merge, whatever its open inputs still deliver.\<close>

definition merger_inv where
  "merger_inv m0 m r links pairs \<longleftrightarrow> mw_in1 m = mw_in1 m0 \<and> mw_in2 m = mw_in2 m0 \<and> mw_out m = mw_out m0 \<and>
     between_reads (mw_state m) \<and> mw_sent m \<le> length (mg_out (mw_state m)) \<and>
     lk_sent (pairs ! mw_out m0) = take (mw_sent m) (mg_out (mw_state m)) \<and>
     (\<not> mg_open1 (mw_state m) \<longrightarrow> lk_drained (links ! mw_in1 m0)) \<and>
     (\<not> mg_open2 (mw_state m) \<longrightarrow> lk_drained (links ! mw_in2 m0)) \<and>
     (\<forall>f1 f2. (\<not> mg_open1 (mw_state m) \<longrightarrow> f1 = []) \<and> (\<not> mg_open2 (mw_state m) \<longrightarrow> f2 = []) \<longrightarrow>
       merge_steps\<^sup>*\<^sup>* (merge_init (lk_taken (links ! mw_in1 m0) @ f1) (lk_taken (links ! mw_in2 m0) @ f2) None)
         (set_inputs f1 f2 (mw_state m))) \<and>
     (r = Some (Ok ()) \<longrightarrow> mw_sent m = length (mg_out (mw_state m)) \<and> \<not> mg_open1 (mw_state m) \<and> \<not> mg_open2 (mw_state m))"

definition task_inv where
  "task_inv opr t0 t r input output \<longleftrightarrow> task_input t = task_input t0 \<and> task_col t = task_col t0 \<and> task_result t = r \<and>
     (\<forall>f. transduces opr f \<longrightarrow> fine r \<longrightarrow> run_transducer f (task_op t0) (lk_taken input) = (task_op t, lk_sent output)) \<and>
     (r = Some (Ok ()) \<longrightarrow> lk_drained input)"

fun actor_inv where
  "actor_inv (DrainActor d0) (DrainActor d) r links pairs = drainer_inv d0 d r links"
| "actor_inv (RelayActor r0) (RelayActor rl) r links pairs = relay_inv r0 rl r links"
| "actor_inv (MergeActor m0) (MergeActor m) r links pairs = merger_inv m0 m r links pairs"
| "actor_inv (TaskActor opr0 t0) (TaskActor opr t) r links pairs =
     (opr = opr0 \<and> task_inv opr t0 t r (links ! task_input t0) (links ! task_col t0))"
| "actor_inv (PairTaskActor opr0 t0) (PairTaskActor opr t) r links pairs =
     (opr = opr0 \<and> task_inv opr t0 t r (pairs ! task_input t0) (links ! task_col t0))"
| "actor_inv _ _ r links pairs = False"

subsection \<open>A poll keeps the invariant of the task it polls\<close>

text \<open>What may change in a list of channels when \<open>R\<close> are read from and \<open>W\<close> are written to.\<close>

definition keeps :: "nat set \<Rightarrow> nat set \<Rightarrow> ('a, 'n) link list \<Rightarrow> ('a, 'n) link list \<Rightarrow> bool" where
  "keeps R W ls ls' \<longleftrightarrow> length ls' = length ls \<and> (\<forall>c<length ls. link_ok (ls' ! c) \<and> lk_capacity (ls' ! c) = lk_capacity (ls ! c) \<and>
     lk_closed (ls' ! c) = lk_closed (ls ! c) \<and> (c \<notin> R \<longrightarrow> lk_taken (ls' ! c) = lk_taken (ls ! c)) \<and>
     (c \<notin> W \<longrightarrow> lk_sent (ls' ! c) = lk_sent (ls ! c)))"

definition links_ok :: "('a, 'n) link list \<Rightarrow> bool" where "links_ok ls \<longleftrightarrow> (\<forall>c<length ls. link_ok (ls ! c))"

lemma keeps_refl: "links_ok ls \<Longrightarrow> keeps R W ls ls"
  by (simp add: keeps_def links_ok_def)

lemma keeps_read:
  assumes "links_ok ls" and "link_ok l" and "lk_capacity l = lk_capacity (ls ! c)" and "lk_closed l = lk_closed (ls ! c)"
    and "lk_sent l = lk_sent (ls ! c)" and "c \<in> R"
  shows "keeps R W ls (ls[c := l])"
  using assms by (cases "c < length ls") (auto simp: keeps_def links_ok_def nth_list_update list_update_beyond)

lemma keeps_write:
  assumes "links_ok ls" and "link_ok l" and "lk_capacity l = lk_capacity (ls ! c)" and "lk_closed l = lk_closed (ls ! c)"
    and "lk_taken l = lk_taken (ls ! c)" and "c \<in> W"
  shows "keeps R W ls (ls[c := l])"
  using assms by (cases "c < length ls") (auto simp: keeps_def links_ok_def nth_list_update list_update_beyond)

lemma keeps_links_ok: "keeps R W ls ls' \<Longrightarrow> links_ok ls'"
  by (simp add: keeps_def links_ok_def)

lemma drain_poll_inv:
  assumes ok: "links_ok links" and range: "dr_out d0 < length links" and inv: "drainer_inv d0 d None links"
    and step: "drain_poll nf d links = (d', links', r)"
  shows "drainer_inv d0 d' r links'" and "keeps {} {dr_out d0} links links'"
proof -
  have out: "dr_out d = dr_out d0" and lk: "link_ok (links ! dr_out d0)" using inv ok range by (simp_all add: drainer_inv_def links_ok_def)
  have "drainer_inv d0 d' r links' \<and> keeps {} {dr_out d0} links links'"
  proof (cases "dr_held d")
    case (Some e)
    then show ?thesis
    proof (cases "link_send nf (links ! dr_out d0) e")
      case (SendDone l)
      note sent = send_link [OF lk SendDone]
      have "keeps {} {dr_out d0} links (links[dr_out d0 := l])" by (rule keeps_write [OF ok]) (use sent in simp_all)
      with SendDone Some step inv sent range out show ?thesis by (auto simp: drain_poll_def drainer_inv_def)
    qed (use Some step inv out keeps_refl [OF ok] in \<open>auto simp: drain_poll_def drainer_inv_def\<close>)
  next
    case None
    obtain s x where nx: "source_next (dr_source d) (dr_state d) = (s, x)" by fastforce
    show ?thesis
    proof (cases x)
      case (Ok y)
      show ?thesis
      proof (cases y)
        case None2: None
        with nx Ok have "drains (source_next (dr_source d)) (dr_key d) (dr_state d) []" by (auto intro: drains.ended)
        with None None2 Ok nx step inv out keeps_refl [OF ok] show ?thesis by (auto simp: drain_poll_def drainer_inv_def)
      next
        case (Some e)
        obtain e' key where key: "apply_key (dr_key d) e = (e', key)" by fastforce
        with nx Ok Some have "drains (source_next (dr_source d)) (dr_key d) (dr_state d) (e' # es)"
          if "drains (source_next (dr_source d)) key s es" for es using that by (auto intro: drains.delivered)
        with None Some Ok nx key step inv out keeps_refl [OF ok] show ?thesis by (auto simp: drain_poll_def drainer_inv_def)
      qed
    qed (use None nx step inv out keeps_refl [OF ok] in \<open>auto simp: drain_poll_def drainer_inv_def\<close>)
  qed
  then show "drainer_inv d0 d' r links'" "keeps {} {dr_out d0} links links'" by simp_all
qed

lemma relay_poll_inv:
  assumes ok: "links_ok links" and range: "rl_in r0 < length links" "rl_out r0 < length links" "rl_in r0 \<noteq> rl_out r0"
    and inv: "relay_inv r0 rl None links" and step: "relay_poll nf rl links = (rl', links', r)"
  shows "relay_inv r0 rl' r links'" and "keeps {rl_in r0} {rl_out r0} links links'"
proof -
  have ports: "rl_in rl = rl_in r0" "rl_out rl = rl_out r0" and lk: "link_ok (links ! rl_in r0)" "link_ok (links ! rl_out r0)"
    using inv ok range by (simp_all add: relay_inv_def links_ok_def)
  have "relay_inv r0 rl' r links' \<and> keeps {rl_in r0} {rl_out r0} links links'"
  proof (cases "rl_held rl")
    case (Some e)
    show ?thesis
    proof (cases "link_send nf (links ! rl_out r0) e")
      case (SendDone l)
      note sent = send_link [OF lk(2) SendDone]
      have "keeps {rl_in r0} {rl_out r0} links (links[rl_out r0 := l])" by (rule keeps_write [OF ok]) (use sent in simp_all)
      with SendDone Some step inv sent range ports show ?thesis by (auto simp: relay_poll_def relay_inv_def)
    qed (use Some step inv ports keeps_refl [OF ok] in \<open>auto simp: relay_poll_def relay_inv_def\<close>)
  next
    case None
    obtain l p where poll: "link_poll (links ! rl_in r0) = (l, p)" by fastforce
    note got = poll_link [OF lk(1) poll]
    have kept: "keeps {rl_in r0} {rl_out r0} links (links[rl_in r0 := l])" by (rule keeps_read [OF ok]) (use got in simp_all)
    show ?thesis
    proof (cases p)
      case (ReadyElement e)
      obtain e' key where key: "apply_key (rl_key rl) e = (e', key)" by fastforce
      have "key_elements (rl_key r0) (lk_taken (links ! rl_in r0)) = (lk_sent (links ! rl_out r0), rl_key rl)"
        using inv None by (simp add: relay_inv_def)
      from key_elements_snoc [OF this key] ReadyElement None poll key got step inv range ports kept show ?thesis
        by (auto simp: relay_poll_def relay_inv_def)
    qed (use None poll got step inv range ports kept in \<open>auto simp: relay_poll_def relay_inv_def\<close>)
  qed
  then show "relay_inv r0 rl' r links'" "keeps {rl_in r0} {rl_out r0} links links'" by simp_all
qed

lemma poll_drained:
  assumes "link_ok l" and "lk_drained l" and "link_poll l = (l', ReadyElement e)"
  shows False
  using poll_link [OF assms(1,3)] assms(2) by (auto simp: link_ok_def lk_drained_def)

lemma merge_steps_to:
  "merge_steps\<^sup>*\<^sup>* s0 s \<Longrightarrow> mg_open1 s \<or> mg_open2 s \<Longrightarrow> merge_iteration pick1 s = (s', Ok ()) \<Longrightarrow> merge_steps\<^sup>*\<^sup>* s0 s'"
  by (erule rtranclp.rtrancl_into_rtrancl) (auto simp: merge_steps_def)

lemma take_extended: "n \<le> length xs \<Longrightarrow> \<exists>d. ys = xs @ d \<Longrightarrow> n \<le> length ys \<and> take n ys = take n xs"
  by auto

lemma merger_sends_inv:
  assumes ok: "links_ok pairs" and range: "mw_out m0 < length pairs" and inv: "merger_inv m0 m None links pairs"
    and more: "mw_sent m < length (mg_out (mw_state m))" and sent: "link_send nf (pairs ! mw_out m0) (mg_out (mw_state m) ! mw_sent m) = SendDone l"
  shows "merger_inv m0 (m\<lparr>mw_sent := mw_sent m + 1\<rparr>) None links (pairs[mw_out m0 := l])"
    and "keeps {} {mw_out m0} pairs (pairs[mw_out m0 := l])"
proof -
  have lk: "link_ok (pairs ! mw_out m0)" using ok range by (simp add: links_ok_def)
  note l = send_link [OF lk sent]
  show "keeps {} {mw_out m0} pairs (pairs[mw_out m0 := l])" by (rule keeps_write [OF ok]) (use l in simp_all)
  show "merger_inv m0 (m\<lparr>mw_sent := mw_sent m + 1\<rparr>) None links (pairs[mw_out m0 := l])"
    using inv range more l(2) by (simp add: merger_inv_def take_Suc_conv_app_nth)
qed

lemma merger_reads_inv:
  assumes ok: "links_ok links" and range: "mw_in1 m0 < length links" "mw_in2 m0 < length links" "mw_in1 m0 \<noteq> mw_in2 m0"
    and inv: "merger_inv m0 m None links pairs" and live: "mg_open1 (mw_state m) \<or> mg_open2 (mw_state m)"
    and c: "c = (if reads_second pick1 (mw_state m) then mw_in2 m0 else mw_in1 m0)" and poll: "link_poll (links ! c) = (l, p)"
    and s': "s' = (case p of
        ReadyElement e \<Rightarrow> fst (merge_iteration pick1 (if reads_second pick1 (mw_state m) then (mw_state m)\<lparr>mg_in2 := [e]\<rparr> else (mw_state m)\<lparr>mg_in1 := [e]\<rparr>))
      | ReadyClosed \<Rightarrow> fst (merge_iteration pick1 (mw_state m)) | _ \<Rightarrow> mw_state m)"
  shows "merger_inv m0 (m\<lparr>mw_state := s'\<rparr>) None (links[c := l]) pairs"
proof -
  let ?s = "mw_state m" and ?L = "links[c := l]"
  have b: "between_reads ?s" and n: "mw_sent m \<le> length (mg_out ?s)"
    and reached: "\<And>f1 f2. (\<not> mg_open1 ?s \<longrightarrow> f1 = []) \<Longrightarrow> (\<not> mg_open2 ?s \<longrightarrow> f2 = []) \<Longrightarrow>
       merge_steps\<^sup>*\<^sup>* (merge_init (lk_taken (links ! mw_in1 m0) @ f1) (lk_taken (links ! mw_in2 m0) @ f2) None) (set_inputs f1 f2 ?s)"
    using inv by (auto simp: merger_inv_def)
  have crange: "c < length links" using c range by simp
  have lk: "link_ok (links ! c)" using ok crange by (simp add: links_ok_def)
  note got = poll_link [OF lk poll]
  have drained: "lk_drained (?L ! k)" if "lk_drained (links ! k)" "p = ReadyClosed \<or> p = PollPending \<or> k \<noteq> c" for k
    using that got crange by (cases "k = c") (auto simp: lk_drained_def)
  have out_eq: "lk_sent (pairs ! mw_out m0) = take (mw_sent m) (mg_out ?s)" using inv by (simp add: merger_inv_def)
  show ?thesis
  proof (cases p)
    case (ReadyElement e)
    have tk: "lk_taken (?L ! c) = lk_taken (links ! c) @ [e]" using got(5) ReadyElement crange by simp
    show ?thesis
    proof (cases "reads_second pick1 ?s")
      case True
      with ReadyElement s' have "s' = fst (merge_iteration pick1 (?s\<lparr>mg_in2 := [e]\<rparr>))" by simp
      note f = merge_feed2 [OF True b this]
      have open2: "mg_open2 ?s" using poll_drained [OF lk _] poll ReadyElement inv True c by (auto simp: merger_inv_def)
      have "merge_steps\<^sup>*\<^sup>* (merge_init (lk_taken (?L ! mw_in1 m0) @ f1) (lk_taken (?L ! mw_in2 m0) @ f2) None) (set_inputs f1 f2 s')"
        if "\<not> mg_open1 ?s \<longrightarrow> f1 = []" for f1 f2
        using merge_steps_to [OF reached [of f1 "e # f2"] _ f(1)] that open2 tk c True range by simp
      with f(2) b n out_eq inv drained open2 c True range take_extended [OF n, of "mg_out s'"] show ?thesis
        by (auto simp: merger_inv_def unlimited_def between_reads_def)
    next
      case False
      with ReadyElement s' have "s' = fst (merge_iteration pick1 (?s\<lparr>mg_in1 := [e]\<rparr>))" by simp
      note f = merge_feed1 [OF False b this]
      have open1: "mg_open1 ?s" using poll_drained [OF lk _] poll ReadyElement inv False c by (auto simp: merger_inv_def)
      have "merge_steps\<^sup>*\<^sup>* (merge_init (lk_taken (?L ! mw_in1 m0) @ f1) (lk_taken (?L ! mw_in2 m0) @ f2) None) (set_inputs f1 f2 s')"
        if "\<not> mg_open2 ?s \<longrightarrow> f2 = []" for f1 f2
        using merge_steps_to [OF reached [of "e # f1" f2] _ f(1)] that open1 tk c False range by simp
      with f(2) b n out_eq inv drained open1 c False range take_extended [OF n, of "mg_out s'"] show ?thesis
        by (auto simp: merger_inv_def unlimited_def between_reads_def)
    qed
  next
    case ReadyClosed
    have tk: "lk_taken (?L ! k) = lk_taken (links ! k)" for k using got(5) ReadyClosed crange by (cases "k = c") auto
    have d: "lk_drained (?L ! c)" using got(5) ReadyClosed crange by simp
    show ?thesis
    proof (cases "reads_second pick1 ?s")
      case True
      with ReadyClosed s' have "s' = fst (merge_iteration pick1 ?s)" by simp
      note f = merge_close2 [OF True b this]
      have "merge_steps\<^sup>*\<^sup>* (merge_init (lk_taken (?L ! mw_in1 m0) @ f1) (lk_taken (?L ! mw_in2 m0) @ []) None) (set_inputs f1 [] s')"
        if "\<not> mg_open1 ?s \<longrightarrow> f1 = []" for f1
        using merge_steps_to [OF reached [of f1 "[]"] _ f(1)] that live tk by simp
      with f(2-5) n out_eq inv drained ReadyClosed d c True range take_extended [OF n f(3)] show ?thesis
        by (auto simp: merger_inv_def)
    next
      case False
      with ReadyClosed s' have "s' = fst (merge_iteration pick1 ?s)" by simp
      note f = merge_close1 [OF False b this]
      have "merge_steps\<^sup>*\<^sup>* (merge_init (lk_taken (?L ! mw_in1 m0) @ []) (lk_taken (?L ! mw_in2 m0) @ f2) None) (set_inputs [] f2 s')"
        if "\<not> mg_open2 ?s \<longrightarrow> f2 = []" for f2
        using merge_steps_to [OF reached [of "[]" f2] _ f(1)] that live tk by simp
      with f(2-5) n out_eq inv drained ReadyClosed d c False range take_extended [OF n f(3)] show ?thesis
        by (auto simp: merger_inv_def)
    qed
  next
    case PollPending
    have tk: "lk_taken (?L ! k) = lk_taken (links ! k)" for k using got(5) PollPending crange by (cases "k = c") auto
    from PollPending s' inv drained tk show ?thesis by (auto simp: merger_inv_def)
  qed (use got(5) in auto)
qed

lemma merge_poll_inv:
  assumes ok: "links_ok links" "links_ok pairs"
    and range: "mw_in1 m0 < length links" "mw_in2 m0 < length links" "mw_in1 m0 \<noteq> mw_in2 m0" "mw_out m0 < length pairs"
    and inv: "merger_inv m0 m None links pairs" and step: "merge_poll nf pick1 m links pairs = (m', links', pairs', r)"
  shows "merger_inv m0 m' r links' pairs'" and "keeps {mw_in1 m0, mw_in2 m0} {} links links'" and "keeps {} {mw_out m0} pairs pairs'"
proof -
  have ports: "mw_in1 m = mw_in1 m0" "mw_in2 m = mw_in2 m0" "mw_out m = mw_out m0" "mw_sent m \<le> length (mg_out (mw_state m))"
    using inv by (simp_all add: merger_inv_def)
  note same = keeps_refl [OF ok(1)] keeps_refl [OF ok(2)]
  define c where "c = (if reads_second pick1 (mw_state m) then mw_in2 m0 else mw_in1 m0)"
  obtain l p where poll: "link_poll (links ! c) = (l, p)" by fastforce
  have c: "c < length links" "c \<in> {mw_in1 m0, mw_in2 m0}" using range by (simp_all add: c_def)
  then have lk: "link_ok (links ! c)" using ok(1) by (simp add: links_ok_def)
  note got = poll_link [OF lk poll]
  have kept: "keeps {mw_in1 m0, mw_in2 m0} {} links (links[c := l])" by (rule keeps_read [OF ok(1)]) (use got c in simp_all)
  note reads = merger_reads_inv [OF ok(1) range(1-3) inv _ c_def poll refl]
  have "merger_inv m0 m' r links' pairs' \<and> keeps {mw_in1 m0, mw_in2 m0} {} links links' \<and> keeps {} {mw_out m0} pairs pairs'"
  proof (cases "mw_sent m < length (mg_out (mw_state m))")
    case True
    show ?thesis
    proof (cases "link_send nf (pairs ! mw_out m0) (mg_out (mw_state m) ! mw_sent m)")
      case (SendDone l')
      from merger_sends_inv [OF ok(2) range(4) inv True SendDone] SendDone True step ports same show ?thesis
        by (auto simp: merge_poll_def Let_def)
    qed (use True step ports same inv in \<open>auto simp: merge_poll_def Let_def merger_inv_def\<close>)
  next
    case False
    show ?thesis
    proof (cases "\<not> mg_open1 (mw_state m) \<and> \<not> mg_open2 (mw_state m)")
      case True
      with False step inv same ports show ?thesis by (auto simp: merge_poll_def Let_def merger_inv_def)
    next
      case live: False
      then have "mg_open1 (mw_state m) \<or> mg_open2 (mw_state m)" by blast
      note inv' = reads [OF this]
      have cases: "merge_poll nf pick1 m links pairs = (case p of
            ReadyElement e \<Rightarrow> (m\<lparr>mw_state := fst (merge_iteration pick1 (if reads_second pick1 (mw_state m) then (mw_state m)\<lparr>mg_in2 := [e]\<rparr>
              else (mw_state m)\<lparr>mg_in1 := [e]\<rparr>))\<rparr>, links[c := l], pairs, None)
          | ReadyClosed \<Rightarrow> (m\<lparr>mw_state := fst (merge_iteration pick1 (mw_state m))\<rparr>, links[c := l], pairs, None)
          | PollPanic q \<Rightarrow> (m, links[c := l], pairs, Some (Panic q))
          | PollPending \<Rightarrow> (m, links[c := l], pairs, None))"
        using False live poll ports by (simp only: merge_poll_def Let_def c_def [symmetric] if_False split: poll.split) simp
      show ?thesis using step inv' kept same(2) got(5) unfolding cases by (cases p) simp_all
    qed
  qed
  then show "merger_inv m0 m' r links' pairs'" "keeps {mw_in1 m0, mw_in2 m0} {} links links'" "keeps {} {mw_out m0} pairs pairs'" by simp_all
qed

lemma run_task_poll_inv:
  assumes ok: "link_ok input" "link_ok output" and op: "transduces opr f0"
    and inv: "task_inv opr t0 t None input output" and step: "t1 = run_task_poll nf opr token input output t"
  shows "task_inv opr t0 (detach t t1) (task_result t1) (task_input t1) (task_col t1)"
    and "link_ok (task_input t1)" and "lk_capacity (task_input t1) = lk_capacity input" and "lk_closed (task_input t1) = lk_closed input"
    and "lk_sent (task_input t1) = lk_sent input" and "out_link output (task_col t1)"
proof -
  let ?t = "attach input output token t"
  have t: "task_result t = None" "task_input t = task_input t0" "task_col t = task_col t0"
    and run: "\<And>f. transduces opr f \<Longrightarrow> run_transducer f (task_op t0) (lk_taken input) = (task_op t, lk_sent output)"
    using inv by (auto simp: task_inv_def)
  have out: "out_link output output" using ok(2) by (simp add: out_link_def)
  obtain l p where poll: "link_poll input = (l, p)" by fastforce
  note got = poll_link [OF ok(1) poll]
  have "task_inv opr t0 (detach t t1) (task_result t1) (task_input t1) (task_col t1) \<and> link_ok (task_input t1) \<and>
    lk_capacity (task_input t1) = lk_capacity input \<and> lk_closed (task_input t1) = lk_closed input \<and>
    lk_sent (task_input t1) = lk_sent input \<and> out_link output (task_col t1)"
  proof (cases p)
    case (ReadyElement e)
    obtain op' c' r where os: "operator_step opr (link_collector nf) e (task_op t) output = (op', c', r)"
      using prod_cases3 by blast
    have tr: "out_link output c' \<and> (r = Ok () \<longrightarrow> op' = fst (f (task_op t) e) \<and> lk_sent c' = lk_sent output @ snd (f (task_op t) e))"
      if "transduces opr f" for f
      using that link_collector_laws out os unfolding transduces_def by blast
    have "t1 = dispatch opr (link_collector nf) e (?t\<lparr>task_input := l\<rparr>)"
      using step ReadyElement poll t by (simp add: run_task_poll_def task_poll_def attach_def)
    with os have t1: "task_op t1 = op'" "task_col t1 = c'" "task_input t1 = l" "task_result t1 = (case r of Ok _ \<Rightarrow> None | _ \<Rightarrow> Some r)"
      by (simp_all add: dispatch_step attach_def)
    have "run_transducer f (task_op t0) (lk_taken l) = (op', lk_sent c')" if "transduces opr f" "r = Ok ()" for f
      using run_transducer_snoc [OF run [OF that(1)], of e] tr [OF that(1)] that(2) got(5) ReadyElement by simp
    with t1 t got tr [OF op] show ?thesis by (cases r) (auto simp: task_inv_def detach_def)
  qed (use step poll t got out run in \<open>auto simp: run_task_poll_def task_poll_def attach_def detach_def task_inv_def\<close>)
  then show "task_inv opr t0 (detach t t1) (task_result t1) (task_input t1) (task_col t1)" "link_ok (task_input t1)"
    "lk_capacity (task_input t1) = lk_capacity input" "lk_closed (task_input t1) = lk_closed input"
    "lk_sent (task_input t1) = lk_sent input" "out_link output (task_col t1)" by simp_all
qed

subsection \<open>The ends of the channels\<close>

fun link_ins :: "('v, 's, 'n) actor \<Rightarrow> nat list" where
  "link_ins (DrainActor d) = []"
| "link_ins (RelayActor rl) = [rl_in rl]"
| "link_ins (MergeActor m) = [mw_in1 m, mw_in2 m]"
| "link_ins (TaskActor opr t) = [task_input t]"
| "link_ins (PairTaskActor opr t) = []"

fun link_outs :: "('v, 's, 'n) actor \<Rightarrow> nat list" where
  "link_outs (DrainActor d) = [dr_out d]"
| "link_outs (RelayActor rl) = [rl_out rl]"
| "link_outs (MergeActor m) = []"
| "link_outs (TaskActor opr t) = [task_col t]"
| "link_outs (PairTaskActor opr t) = [task_col t]"

fun pair_ins :: "('v, 's, 'n) actor \<Rightarrow> nat list" where
  "pair_ins (PairTaskActor opr t) = [task_input t]"
| "pair_ins a = []"

fun pair_outs :: "('v, 's, 'n) actor \<Rightarrow> nat list" where
  "pair_outs (MergeActor m) = [mw_out m]"
| "pair_outs a = []"

fun well_behaved :: "('v, 's, 'n) actor \<Rightarrow> bool" where
  "well_behaved (TaskActor opr t) \<longleftrightarrow> (\<exists>f. transduces opr f)"
| "well_behaved (PairTaskActor opr t) \<longleftrightarrow> (\<exists>f. transduces opr f)"
| "well_behaved a \<longleftrightarrow> True"

definition ports_ok :: "('v, 's, 'n) actor \<Rightarrow> nat \<Rightarrow> nat \<Rightarrow> bool" where
  "ports_ok a n m \<longleftrightarrow> distinct (link_ins a @ link_outs a) \<and> (\<forall>c\<in>set (link_ins a @ link_outs a). c < n) \<and>
     (\<forall>c\<in>set (pair_ins a @ pair_outs a). c < m)"

lemma actor_inv_ports:
  assumes "actor_inv a0 a r links pairs"
  shows "link_ins a = link_ins a0" and "link_outs a = link_outs a0" and "pair_ins a = pair_ins a0" and "pair_outs a = pair_outs a0"
  using assms by (cases a0; cases a; simp add: drainer_inv_def relay_inv_def merger_inv_def task_inv_def)+

lemma keeps_set: "c < length ls \<Longrightarrow> keeps R W ls ls' \<Longrightarrow> link_ok (ls' ! c)"
  by (simp add: keeps_def)

text \<open>A task reads one channel and writes another one.\<close>

lemma keeps_read_write:
  assumes "links_ok ls" and "i \<noteq> j" and "link_ok l" and "lk_capacity l = lk_capacity (ls ! i)" and "lk_closed l = lk_closed (ls ! i)"
    and "lk_sent l = lk_sent (ls ! i)" and "out_link (ls ! j) l'"
  shows "keeps {i} {j} ls (ls[i := l, j := l'])"
  using assms by (cases "i < length ls"; cases "j < length ls")
    (auto simp: keeps_def links_ok_def nth_list_update list_update_beyond out_link_def)

lemma actor_poll_inv:
  assumes ok: "links_ok links" "links_ok pairs" and ports: "ports_ok a0 (length links) (length pairs)" and beh: "well_behaved a0"
    and inv: "actor_inv a0 a None links pairs" and step: "actor_poll nf token pick1 a links pairs = (a', links', pairs', r)"
  shows "actor_inv a0 a' r links' pairs' \<and> keeps (set (link_ins a0)) (set (link_outs a0)) links links' \<and>
    keeps (set (pair_ins a0)) (set (pair_outs a0)) pairs pairs'"
proof (cases a0)
  case (DrainActor d0)
  then obtain d where "a = DrainActor d" using inv by (cases a) auto
  with DrainActor drain_poll_inv [OF ok(1), of d0 d nf] inv step ports keeps_refl [OF ok(2)] show ?thesis
    by (auto simp: ports_ok_def split: prod.splits)
next
  case (RelayActor r0)
  then obtain rl where "a = RelayActor rl" using inv by (cases a) auto
  with RelayActor relay_poll_inv [OF ok(1), of r0 rl nf] inv step ports keeps_refl [OF ok(2)] show ?thesis
    by (auto simp: ports_ok_def split: prod.splits)
next
  case (MergeActor m0)
  then obtain m where "a = MergeActor m" using inv by (cases a) auto
  with MergeActor merge_poll_inv [OF ok, of m0 m nf pick1] inv step ports show ?thesis
    by (auto simp: ports_ok_def split: prod.splits)
next
  case (TaskActor opr t0)
  then obtain t where a: "a = TaskActor opr t" using inv by (cases a) auto
  with inv TaskActor have t: "task_inv opr t0 t None (links ! task_input t0) (links ! task_col t0)"
    "task_input t = task_input t0" "task_col t = task_col t0" by (auto simp: task_inv_def)
  from beh TaskActor obtain f0 where f0: "transduces opr f0" by auto
  have rg: "task_input t0 < length links" "task_col t0 < length links" "task_input t0 \<noteq> task_col t0"
    using ports TaskActor by (auto simp: ports_ok_def)
  define t1 where "t1 = run_task_poll nf opr token (links ! task_input t0) (links ! task_col t0) t"
  have lk: "link_ok (links ! task_input t0)" "link_ok (links ! task_col t0)" using ok(1) rg by (simp_all add: links_ok_def)
  note p = run_task_poll_inv [OF lk f0 t(1) t1_def]
  from step a t(2,3) have "a' = TaskActor opr (detach t t1)" "links' = links[task_input t0 := task_input t1, task_col t0 := task_col t1]"
    "pairs' = pairs" "r = task_result t1" by (auto simp: t1_def Let_def)
  with p(1) rg keeps_read_write [OF ok(1) rg(3) p(2,3,4,5,6)] keeps_refl [OF ok(2)] TaskActor show ?thesis by simp
next
  case (PairTaskActor opr t0)
  then obtain t where a: "a = PairTaskActor opr t" using inv by (cases a) auto
  with inv PairTaskActor have t: "task_inv opr t0 t None (pairs ! task_input t0) (links ! task_col t0)"
    "task_input t = task_input t0" "task_col t = task_col t0" by (auto simp: task_inv_def)
  from beh PairTaskActor obtain f0 where f0: "transduces opr f0" by auto
  have rg: "task_input t0 < length pairs" "task_col t0 < length links" using ports PairTaskActor by (auto simp: ports_ok_def)
  define t1 where "t1 = run_task_poll nf opr token (pairs ! task_input t0) (links ! task_col t0) t"
  have lk: "link_ok (pairs ! task_input t0)" "link_ok (links ! task_col t0)" using ok rg by (simp_all add: links_ok_def)
  note p = run_task_poll_inv [OF lk f0 t(1) t1_def]
  have k: "keeps {} {task_col t0} links (links[task_col t0 := task_col t1])"
    by (rule keeps_write [OF ok(1)]) (use p(6) in \<open>simp_all add: out_link_def\<close>)
  have k2: "keeps {task_input t0} {} pairs (pairs[task_input t0 := task_input t1])"
    by (rule keeps_read [OF ok(2)]) (use p in simp_all)
  from step a t(2,3) have "a' = PairTaskActor opr (detach t t1)" "links' = links[task_col t0 := task_col t1]"
    "pairs' = pairs[task_input t0 := task_input t1]" "r = task_result t1" by (auto simp: t1_def Let_def)
  with p(1) rg k k2 PairTaskActor show ?thesis by simp
qed

text \<open>The ends a completed future drops.\<close>

definition released :: "nat set \<Rightarrow> ('a, 'n) link list \<Rightarrow> ('a, 'n) link list \<Rightarrow> bool" where
  "released W ls ls' \<longleftrightarrow> length ls' = length ls \<and> (\<forall>c<length ls. link_ok (ls' ! c) \<and> lk_capacity (ls' ! c) = lk_capacity (ls ! c) \<and>
     lk_taken (ls' ! c) = lk_taken (ls ! c) \<and> lk_sent (ls' ! c) = lk_sent (ls ! c) \<and>
     (lk_closed (ls' ! c) \<longleftrightarrow> lk_closed (ls ! c) \<or> c \<in> W))"

lemma released_drop_out: "links_ok ls \<Longrightarrow> released {c} ls (drop_out nf c ls)"
  using drop_sender_link [of "ls ! c" nf] by (cases "c < length ls") (auto simp: released_def drop_out_def links_ok_def nth_list_update list_update_beyond)

lemma released_drop_in: "links_ok ls \<Longrightarrow> released {} ls (drop_in c ls)"
  by (cases "c < length ls") (auto simp: released_def drop_in_def links_ok_def nth_list_update list_update_beyond)

lemma released_refl: "links_ok ls \<Longrightarrow> released {} ls ls"
  by (simp add: released_def links_ok_def)

lemma released_trans: "released W1 ls ls' \<Longrightarrow> released W2 ls' ls'' \<Longrightarrow> released (W1 \<union> W2) ls ls''"
  by (auto simp: released_def)

lemma released_links_ok: "released W ls ls' \<Longrightarrow> links_ok ls'"
  by (simp add: released_def links_ok_def)

lemma release_released:
  assumes "links_ok links" and "links_ok pairs" and "release nf a links pairs = (links', pairs')"
  shows "released (set (link_outs a)) links links'" and "released (set (pair_outs a)) pairs pairs'"
proof -
  note step = released_trans [OF released_drop_in released_drop_out [OF released_links_ok [OF released_drop_in]], simplified]
  note two = released_trans [OF released_drop_in released_drop_in [OF released_links_ok [OF released_drop_in]], simplified]
  show "released (set (link_outs a)) links links'"
    using assms by (cases a) (auto intro: released_drop_out step two)
  show "released (set (pair_outs a)) pairs pairs'"
    using assms by (cases a) (auto intro: released_drop_out released_drop_in released_refl)
qed

subsection \<open>The invariant of the network\<close>

text \<open>Every channel has one sender and one receiver, and a task only receives from a channel of an earlier one.\<close>

definition wired :: "('v, 's, 'n) spawned list \<Rightarrow> nat \<Rightarrow> nat \<Rightarrow> bool" where
  "wired sps n m \<longleftrightarrow>
     (\<forall>k<length sps. ports_ok (sp_actor (sps ! k)) n m) \<and>
     (\<forall>j<length sps. \<forall>k<length sps. j \<noteq> k \<longrightarrow>
        set (link_ins (sp_actor (sps ! j))) \<inter> set (link_ins (sp_actor (sps ! k))) = {} \<and>
        set (link_outs (sp_actor (sps ! j))) \<inter> set (link_outs (sp_actor (sps ! k))) = {} \<and>
        set (pair_ins (sp_actor (sps ! j))) \<inter> set (pair_ins (sp_actor (sps ! k))) = {} \<and>
        set (pair_outs (sp_actor (sps ! j))) \<inter> set (pair_outs (sp_actor (sps ! k))) = {}) \<and>
     (\<forall>k<length sps.
        (\<forall>c\<in>set (link_ins (sp_actor (sps ! k))). \<exists>j<k. c \<in> set (link_outs (sp_actor (sps ! j)))) \<and>
        (\<forall>c\<in>set (pair_ins (sp_actor (sps ! k))). \<exists>j<k. c \<in> set (pair_outs (sp_actor (sps ! j)))))"

definition net_inv :: "('v, 's, 'n) net \<Rightarrow> ('v, 's, 'n) net \<Rightarrow> bool" where
  "net_inv net0 net \<longleftrightarrow>
     length (net_links net) = length (net_links net0) \<and> length (net_pairs net) = length (net_pairs net0) \<and>
     map sp_name (net_spawned net) = map sp_name (net_spawned net0) \<and>
     links_ok (net_links net) \<and> links_ok (net_pairs net) \<and>
     map lk_capacity (net_links net) = map lk_capacity (net_links net0) \<and> map lk_capacity (net_pairs net) = map lk_capacity (net_pairs net0) \<and>
     (\<forall>k<length (net_spawned net0). let a0 = sp_actor (net_spawned net0 ! k); sp = net_spawned net ! k in
        actor_inv a0 (sp_actor sp) (sp_result sp) (net_links net) (net_pairs net) \<and>
        (\<forall>c\<in>set (link_outs a0). lk_closed (net_links net ! c) \<longleftrightarrow> sp_result sp \<noteq> None) \<and>
        (\<forall>c\<in>set (pair_outs a0). lk_closed (net_pairs net ! c) \<longleftrightarrow> sp_result sp \<noteq> None))"

lemma actor_inv_frame:
  assumes "actor_inv a0 a r links pairs"
    and "\<And>c. c \<in> set (link_ins a0) \<Longrightarrow> lk_taken (links' ! c) = lk_taken (links ! c) \<and> (lk_drained (links ! c) \<longrightarrow> lk_drained (links' ! c))"
    and "\<And>c. c \<in> set (pair_ins a0) \<Longrightarrow> lk_taken (pairs' ! c) = lk_taken (pairs ! c) \<and> (lk_drained (pairs ! c) \<longrightarrow> lk_drained (pairs' ! c))"
    and "\<And>c. c \<in> set (link_outs a0) \<Longrightarrow> lk_sent (links' ! c) = lk_sent (links ! c)"
    and "\<And>c. c \<in> set (pair_outs a0) \<Longrightarrow> lk_sent (pairs' ! c) = lk_sent (pairs ! c)"
  shows "actor_inv a0 a r links' pairs'"
  using assms by (cases a0; cases a; simp add: drainer_inv_def relay_inv_def merger_inv_def task_inv_def)

text \<open>A poll, with what it releases: only the history of the polled task's channels changes, and its output is closed
  exactly when it has ended.\<close>

definition touches :: "nat set \<Rightarrow> nat set \<Rightarrow> bool \<Rightarrow> ('a, 'n) link list \<Rightarrow> ('a, 'n) link list \<Rightarrow> bool" where
  "touches R W ended ls ls' \<longleftrightarrow> length ls' = length ls \<and> links_ok ls' \<and> map lk_capacity ls' = map lk_capacity ls \<and>
     (\<forall>c<length ls. (c \<notin> R \<longrightarrow> lk_taken (ls' ! c) = lk_taken (ls ! c)) \<and> (c \<notin> W \<longrightarrow> lk_sent (ls' ! c) = lk_sent (ls ! c)) \<and>
       (lk_closed (ls' ! c) \<longleftrightarrow> lk_closed (ls ! c) \<or> ended \<and> c \<in> W))"

lemma touches_kept: "keeps R W ls ls' \<Longrightarrow> touches R W False ls ls'"
  by (auto simp: touches_def keeps_def links_ok_def intro: nth_equalityI)

lemma touches_released: "keeps R W ls ls1 \<Longrightarrow> released W ls1 ls' \<Longrightarrow> touches R W True ls ls'"
  by (auto simp: touches_def keeps_def released_def links_ok_def intro: nth_equalityI)

lemma touches_drained:
  assumes "touches R W ended ls ls'" and "c < length ls" and "c \<notin> R" and "c \<in> W \<Longrightarrow> \<not> lk_closed (ls ! c)"
  shows "lk_taken (ls' ! c) = lk_taken (ls ! c) \<and> (lk_drained (ls ! c) \<longrightarrow> lk_drained (ls' ! c))"
  using assms by (auto simp: touches_def lk_drained_def)

definition net_ready :: "('v, 's, 'n) net \<Rightarrow> bool" where
  "net_ready net \<longleftrightarrow> wired (net_spawned net) (length (net_links net)) (length (net_pairs net)) \<and>
     (\<forall>sp\<in>set (net_spawned net). well_behaved (sp_actor sp))"

lemma net_inv_sizes:
  assumes "net_inv net0 net"
  shows "length (net_spawned net) = length (net_spawned net0)" and "length (net_links net) = length (net_links net0)"
    and "length (net_pairs net) = length (net_pairs net0)" and "links_ok (net_links net)" and "links_ok (net_pairs net)"
  using assms map_eq_imp_length_eq by (auto simp: net_inv_def)

lemma net_inv_each:
  assumes "net_inv net0 net" and "j < length (net_spawned net0)"
  shows "actor_inv (sp_actor (net_spawned net0 ! j)) (sp_actor (net_spawned net ! j)) (sp_result (net_spawned net ! j)) (net_links net) (net_pairs net)"
    and "\<forall>c\<in>set (link_outs (sp_actor (net_spawned net0 ! j))). lk_closed (net_links net ! c) \<longleftrightarrow> sp_result (net_spawned net ! j) \<noteq> None"
    and "\<forall>c\<in>set (pair_outs (sp_actor (net_spawned net0 ! j))). lk_closed (net_pairs net ! c) \<longleftrightarrow> sp_result (net_spawned net ! j) \<noteq> None"
  using assms by (auto simp: net_inv_def Let_def)

lemma wired_ports: "wired sps n m \<Longrightarrow> j < length sps \<Longrightarrow> ports_ok (sp_actor (sps ! j)) n m"
  by (simp add: wired_def)

lemma wired_apart:
  assumes "wired sps n m" and "j < length sps" and "k < length sps" and "j \<noteq> k"
  shows "set (link_ins (sp_actor (sps ! j))) \<inter> set (link_ins (sp_actor (sps ! k))) = {}"
    and "set (link_outs (sp_actor (sps ! j))) \<inter> set (link_outs (sp_actor (sps ! k))) = {}"
    and "set (pair_ins (sp_actor (sps ! j))) \<inter> set (pair_ins (sp_actor (sps ! k))) = {}"
    and "set (pair_outs (sp_actor (sps ! j))) \<inter> set (pair_outs (sp_actor (sps ! k))) = {}"
  using assms unfolding wired_def by blast+

text \<open>The effect of polling a running task.\<close>

lemma spawned_poll_effect:
  assumes ready: "net_ready net0" and inv: "net_inv net0 net" and k: "k < length (net_spawned net0)" and running: "sp_result (net_spawned net ! k) = None"
  shows "\<exists>a r L P. spawned_poll nf pick1 k net = net\<lparr>net_links := L, net_pairs := P,
      net_spawned := (net_spawned net)[k := (net_spawned net ! k)\<lparr>sp_actor := a, sp_result := r\<rparr>]\<rparr> \<and>
    actor_inv (sp_actor (net_spawned net0 ! k)) a r L P \<and>
    touches (set (link_ins (sp_actor (net_spawned net0 ! k)))) (set (link_outs (sp_actor (net_spawned net0 ! k)))) (r \<noteq> None) (net_links net) L \<and>
    touches (set (pair_ins (sp_actor (net_spawned net0 ! k)))) (set (pair_outs (sp_actor (net_spawned net0 ! k)))) (r \<noteq> None) (net_pairs net) P"
proof -
  let ?L = "net_links net" and ?P = "net_pairs net" and ?b = "sp_actor (net_spawned net0 ! k)"
  note n = net_inv_sizes [OF inv]
  have ports: "ports_ok ?b (length ?L) (length ?P)" using ready k n wired_ports by (auto simp: net_ready_def)
  have beh: "well_behaved ?b" using ready k by (simp add: net_ready_def)
  obtain a L1 P1 r where poll: "actor_poll nf (net_cancelled net) pick1 (sp_actor (net_spawned net ! k)) ?L ?P = (a, L1, P1, r)"
    by (metis surj_pair)
  obtain L2 P2 where rel: "(if r = None then (L1, P1) else release nf a L1 P1) = (L2, P2)" by fastforce
  have net': "spawned_poll nf pick1 k net = net\<lparr>net_links := L2, net_pairs := P2,
      net_spawned := (net_spawned net)[k := (net_spawned net ! k)\<lparr>sp_actor := a, sp_result := r\<rparr>]\<rparr>"
    using running k n(1) poll rel by (simp add: spawned_poll_def)
  from actor_poll_inv [OF n(4,5) ports beh _ poll] net_inv_each(1) [OF inv k] running
  have a: "actor_inv ?b a r L1 P1" and kept: "keeps (set (link_ins ?b)) (set (link_outs ?b)) ?L L1"
    "keeps (set (pair_ins ?b)) (set (pair_outs ?b)) ?P P1" by auto
  note same_ports = actor_inv_ports [OF a]
  have ok1: "links_ok L1" "links_ok P1" using kept keeps_links_ok by blast+
  have touched: "touches (set (link_ins ?b)) (set (link_outs ?b)) (r \<noteq> None) ?L L2"
    "touches (set (pair_ins ?b)) (set (pair_outs ?b)) (r \<noteq> None) ?P P2"
    using kept rel release_released [OF ok1, of nf a L2 P2] touches_kept touches_released same_ports by (auto split: if_splits)
  have "released {} L1 L2 \<or> released (set (link_outs a)) L1 L2" "released {} P1 P2 \<or> released (set (pair_outs a)) P1 P2"
    using rel release_released [OF ok1, of nf a L2 P2] released_refl ok1 by (auto split: if_splits)
  moreover from this kept have "lk_taken (L2 ! c) = lk_taken (L1 ! c) \<and> lk_sent (L2 ! c) = lk_sent (L1 ! c) \<and>
      (lk_drained (L1 ! c) \<longrightarrow> lk_drained (L2 ! c))" if "c < length ?L" for c
    using that by (auto simp: keeps_def released_def lk_drained_def)
  moreover from calculation kept have "lk_taken (P2 ! d) = lk_taken (P1 ! d) \<and> lk_sent (P2 ! d) = lk_sent (P1 ! d) \<and>
      (lk_drained (P1 ! d) \<longrightarrow> lk_drained (P2 ! d))" if "d < length ?P" for d
    using that by (auto simp: keeps_def released_def lk_drained_def)
  ultimately have "actor_inv ?b a r L2 P2"
    by (intro actor_inv_frame [OF a]) (use ports in \<open>auto simp: ports_ok_def\<close>)
  with net' touched show ?thesis by blast
qed

lemma spawned_poll_inv:
  assumes ready: "net_ready net0" and inv: "net_inv net0 net"
  shows "net_inv net0 (spawned_poll nf pick1 k net)"
proof (cases "k < length (net_spawned net0) \<and> sp_result (net_spawned net ! k) = None")
  case True
  then have k: "k < length (net_spawned net0)" "sp_result (net_spawned net ! k) = None" by simp_all
  let ?L = "net_links net" and ?P = "net_pairs net" and ?A = "\<lambda>j. sp_actor (net_spawned net0 ! j)"
  note n = net_inv_sizes [OF inv] and each = net_inv_each [OF inv]
  from spawned_poll_effect [OF ready inv k] obtain a r L2 P2 where
    net': "spawned_poll nf pick1 k net = net\<lparr>net_links := L2, net_pairs := P2,
      net_spawned := (net_spawned net)[k := (net_spawned net ! k)\<lparr>sp_actor := a, sp_result := r\<rparr>]\<rparr>"
    and inv_k: "actor_inv (?A k) a r L2 P2"
    and touched: "touches (set (link_ins (?A k))) (set (link_outs (?A k))) (r \<noteq> None) ?L L2"
      "touches (set (pair_ins (?A k))) (set (pair_outs (?A k))) (r \<noteq> None) ?P P2" by blast
  have wired: "wired (net_spawned net0) (length ?L) (length ?P)" using ready n by (simp add: net_ready_def)
  note ports = wired_ports [OF wired] and apart = wired_apart [OF wired _ k(1)]
  have inv_j: "actor_inv (?A j) (sp_actor (net_spawned net ! j)) (sp_result (net_spawned net ! j)) L2 P2"
    if j: "j < length (net_spawned net0)" "j \<noteq> k" for j
  proof (rule actor_inv_frame [OF each(1) [OF j(1)]])
    show "lk_taken (L2 ! c) = lk_taken (?L ! c) \<and> (lk_drained (?L ! c) \<longrightarrow> lk_drained (L2 ! c))" if "c \<in> set (link_ins (?A j))" for c
      using that apart(1) [OF j] ports [OF j(1)] each(2) [OF k(1)] k(2)
      by (intro touches_drained [OF touched(1)]) (auto simp: ports_ok_def)
    show "lk_taken (P2 ! c) = lk_taken (?P ! c) \<and> (lk_drained (?P ! c) \<longrightarrow> lk_drained (P2 ! c))" if "c \<in> set (pair_ins (?A j))" for c
      using that apart(3) [OF j] ports [OF j(1)] each(3) [OF k(1)] k(2)
      by (intro touches_drained [OF touched(2)]) (auto simp: ports_ok_def)
    show "lk_sent (L2 ! c) = lk_sent (?L ! c)" if "c \<in> set (link_outs (?A j))" for c
      using that apart(2) [OF j] ports [OF j(1)] touched(1) by (auto simp: ports_ok_def touches_def)
    show "lk_sent (P2 ! c) = lk_sent (?P ! c)" if "c \<in> set (pair_outs (?A j))" for c
      using that apart(4) [OF j] ports [OF j(1)] touched(2) by (auto simp: ports_ok_def touches_def)
  qed
  have closed_j: "(\<forall>c\<in>set (link_outs (?A j)). lk_closed (L2 ! c) \<longleftrightarrow> sp_result (net_spawned net ! j) \<noteq> None) \<and>
    (\<forall>c\<in>set (pair_outs (?A j)). lk_closed (P2 ! c) \<longleftrightarrow> sp_result (net_spawned net ! j) \<noteq> None)"
    if j: "j < length (net_spawned net0)" "j \<noteq> k" for j
    using each(2,3) [OF j(1)] apart(2,4) [OF j] ports [OF j(1)] touched by (auto simp: ports_ok_def touches_def)
  have closed_k: "(\<forall>c\<in>set (link_outs (?A k)). lk_closed (L2 ! c) \<longleftrightarrow> r \<noteq> None) \<and>
    (\<forall>c\<in>set (pair_outs (?A k)). lk_closed (P2 ! c) \<longleftrightarrow> r \<noteq> None)"
    using each(2,3) [OF k(1)] k(2) ports [OF k(1)] touched by (auto simp: ports_ok_def touches_def)
  have names: "map sp_name ((net_spawned net)[k := (net_spawned net ! k)\<lparr>sp_actor := a, sp_result := r\<rparr>]) = map sp_name (net_spawned net0)"
    using inv k(1) n(1) by (simp add: net_inv_def map_update) (metis list_update_id nth_map)
  show ?thesis
    unfolding net' using inv names touched n inv_k inv_j closed_j closed_k k
    by (auto simp: net_inv_def touches_def nth_list_update Let_def)
qed (use inv net_inv_sizes(1) [OF inv] in \<open>auto simp: spawned_poll_def\<close>)

text \<open>A channel that no task reads belongs to the sink, which may read it, and drop its receiver.\<close>

lemma spawned_poll_unread:
  assumes ready: "net_ready net0" and inv: "net_inv net0 net" and c: "c < length (net_links net0)"
    and unread: "\<forall>sp\<in>set (net_spawned net0). c \<notin> set (link_ins (sp_actor sp))"
  shows "lk_taken (net_links (spawned_poll nf pick1 k net) ! c) = lk_taken (net_links net ! c) \<and>
    (lk_drained (net_links net ! c) \<longrightarrow> lk_drained (net_links (spawned_poll nf pick1 k net) ! c))"
proof (cases "k < length (net_spawned net0) \<and> sp_result (net_spawned net ! k) = None")
  case True
  then have k: "k < length (net_spawned net0)" "sp_result (net_spawned net ! k) = None" by simp_all
  let ?b = "sp_actor (net_spawned net0 ! k)"
  from spawned_poll_effect [OF ready inv k] obtain a r L2 P2 where
    net': "spawned_poll nf pick1 k net = net\<lparr>net_links := L2, net_pairs := P2,
      net_spawned := (net_spawned net)[k := (net_spawned net ! k)\<lparr>sp_actor := a, sp_result := r\<rparr>]\<rparr>"
    and touched: "touches (set (link_ins ?b)) (set (link_outs ?b)) (r \<noteq> None) (net_links net) L2" by blast
  have "c \<notin> set (link_ins ?b)" using unread k by simp
  moreover have "\<not> lk_closed (net_links net ! c)" if "c \<in> set (link_outs ?b)" using that net_inv_each(2) [OF inv k(1)] k(2) by simp
  moreover have "c < length (net_links net)" using c net_inv_sizes(2) [OF inv] by simp
  ultimately show ?thesis using touches_drained [OF touched] net' by simp
qed (use net_inv_sizes(1) [OF inv] in \<open>auto simp: spawned_poll_def\<close>)

lemma net_inv_read:
  assumes inv: "net_inv net0 net" and unread: "\<forall>sp\<in>set (net_spawned net0). c \<notin> set (link_ins (sp_actor sp))"
    and wired: "wired (net_spawned net0) (length (net_links net0)) (length (net_pairs net0))"
    and l: "link_ok l" "lk_sent l = lk_sent (net_links net ! c)" "lk_closed l = lk_closed (net_links net ! c)"
      "lk_capacity l = lk_capacity (net_links net ! c)"
  shows "net_inv net0 (net\<lparr>net_links := (net_links net)[c := l]\<rparr>)"
proof (cases "c < length (net_links net)")
  case True
  note n = net_inv_sizes [OF inv]
  have same: "lk_sent ((net_links net)[c := l] ! d) = lk_sent (net_links net ! d)" "lk_closed ((net_links net)[c := l] ! d) = lk_closed (net_links net ! d)" for d
    using l True by (auto simp: nth_list_update)
  have "actor_inv (sp_actor (net_spawned net0 ! j)) (sp_actor (net_spawned net ! j)) (sp_result (net_spawned net ! j)) ((net_links net)[c := l]) (net_pairs net)"
    if j: "j < length (net_spawned net0)" for j
  proof -
    have "(net_links net)[c := l] ! d = net_links net ! d" if "d \<in> set (link_ins (sp_actor (net_spawned net0 ! j)))" for d
      using that unread j by (cases "d = c") auto
    with same show ?thesis by (intro actor_inv_frame [OF net_inv_each(1) [OF inv j]]) auto
  qed
  moreover have "map lk_capacity ((net_links net)[c := l]) = map lk_capacity (net_links net)"
    using l(4) True by (simp add: map_update) (metis list_update_id nth_map)
  moreover have "links_ok ((net_links net)[c := l])" using n(4) l(1) True by (auto simp: links_ok_def nth_list_update)
  ultimately show ?thesis using inv same by (simp add: net_inv_def Let_def)
qed (use inv in \<open>simp add: list_update_beyond\<close>)

subsection \<open>Networks before their first poll\<close>

fun fresh_actor :: "('v, 's, 'n) actor \<Rightarrow> bool" where
  "fresh_actor (DrainActor d) \<longleftrightarrow> dr_held d = None"
| "fresh_actor (RelayActor rl) \<longleftrightarrow> rl_held rl = None"
| "fresh_actor (MergeActor m) \<longleftrightarrow> mw_state m = merge_init [] [] None \<and> mw_sent m = 0"
| "fresh_actor (TaskActor opr t) \<longleftrightarrow> task_result t = None"
| "fresh_actor (PairTaskActor opr t) \<longleftrightarrow> task_result t = None"

definition fresh_link :: "('a, 'n) link \<Rightarrow> bool" where
  "fresh_link l \<longleftrightarrow> link_ok l \<and> lk_sent l = [] \<and> lk_taken l = [] \<and> \<not> lk_closed l"

definition fresh_net :: "('v, 's, 'n) net \<Rightarrow> bool" where
  "fresh_net net \<longleftrightarrow> (\<forall>l\<in>set (net_links net). fresh_link l) \<and> (\<forall>l\<in>set (net_pairs net). fresh_link l) \<and>
     (\<forall>sp\<in>set (net_spawned net). fresh_actor (sp_actor sp) \<and> sp_result sp = None) \<and>
     wired (net_spawned net) (length (net_links net)) (length (net_pairs net))"

lemma merge_init_inputs: "merge_init f1 f2 None = set_inputs f1 f2 (merge_init [] [] None)"
  by (simp add: merge_init_def set_inputs_def)

lemma merge_init_sel [simp]:
  "mg_open1 (merge_init xs ys room)" "mg_open2 (merge_init xs ys room)" "mg_out (merge_init xs ys room) = []"
  by (simp_all add: merge_init_def)

lemma between_reads_init: "between_reads (merge_init [] [] None)"
  by (simp add: merge_init_def between_reads_def)

lemma fresh_actor_inv:
  assumes "fresh_actor a" and "ports_ok a (length links) (length pairs)" and "\<forall>l\<in>set links. fresh_link l" and "\<forall>l\<in>set pairs. fresh_link l"
  shows "actor_inv a a None links pairs"
proof -
  have l: "lk_sent (links ! c) = [] \<and> lk_taken (links ! c) = []" if "c < length links" for c
    using assms(3) that by (simp add: fresh_link_def)
  have p: "lk_sent (pairs ! c) = [] \<and> lk_taken (pairs ! c) = []" if "c < length pairs" for c
    using assms(4) that by (simp add: fresh_link_def)
  show ?thesis
  proof (cases a)
    case (MergeActor m)
    with assms(1,2) l p between_reads_init show ?thesis
      by (simp add: merger_inv_def ports_ok_def merge_init_inputs [symmetric])
  qed (use assms(1,2) l p in \<open>auto simp: drainer_inv_def relay_inv_def task_inv_def ports_ok_def\<close>)
qed

lemma fresh_net_inv:
  assumes "fresh_net net"
  shows "net_inv net net"
proof -
  have "links_ok (net_links net)" "links_ok (net_pairs net)"
    using assms by (auto simp: fresh_net_def links_ok_def fresh_link_def)
  moreover have "actor_inv (sp_actor (net_spawned net ! k)) (sp_actor (net_spawned net ! k)) None (net_links net) (net_pairs net)"
    if "k < length (net_spawned net)" for k
    using assms that by (intro fresh_actor_inv) (auto simp: fresh_net_def wired_def)
  moreover have "\<not> lk_closed (net_links net ! c)" if "k < length (net_spawned net)" "c \<in> set (link_outs (sp_actor (net_spawned net ! k)))" for k c
    using assms that by (auto simp: fresh_net_def wired_def ports_ok_def fresh_link_def)
  moreover have "\<not> lk_closed (net_pairs net ! c)" if "k < length (net_spawned net)" "c \<in> set (pair_outs (sp_actor (net_spawned net ! k)))" for k c
    using assms that by (auto simp: fresh_net_def wired_def ports_ok_def fresh_link_def)
  ultimately show ?thesis using assms by (auto simp: net_inv_def fresh_net_def Let_def)
qed

subsection \<open>What a network that ends well has computed\<close>

text \<open>The streams a channel may carry, read off the network as it was built.\<close>

inductive stream_of :: "('v, 's, 'n) spawned list \<Rightarrow> nat \<Rightarrow> 'v stream_element list \<Rightarrow> bool" for sps where
  from_source: "k < length sps \<Longrightarrow> sp_actor (sps ! k) = DrainActor d \<Longrightarrow>
    drains (source_next (dr_source d)) (dr_key d) (dr_state d) es \<Longrightarrow> stream_of sps (dr_out d) es"
| relayed: "k < length sps \<Longrightarrow> sp_actor (sps ! k) = RelayActor rl \<Longrightarrow> stream_of sps (rl_in rl) xs \<Longrightarrow>
    stream_of sps (rl_out rl) (fst (key_elements (rl_key rl) xs))"
| transformed: "k < length sps \<Longrightarrow> sp_actor (sps ! k) = TaskActor opr t \<Longrightarrow> stream_of sps (task_input t) xs \<Longrightarrow>
    (\<And>f. transduces opr f \<Longrightarrow> snd (run_transducer f (task_op t) xs) = es) \<Longrightarrow> stream_of sps (task_col t) es"
| merged: "k < length sps \<Longrightarrow> sp_actor (sps ! k) = PairTaskActor opr t \<Longrightarrow>
    j < length sps \<Longrightarrow> sp_actor (sps ! j) = MergeActor m \<Longrightarrow> mw_out m = task_input t \<Longrightarrow>
    stream_of sps (mw_in1 m) xs \<Longrightarrow> stream_of sps (mw_in2 m) ys \<Longrightarrow> two_input_merge sched (merge_init xs ys None) = (s, Ok ()) \<Longrightarrow>
    (\<And>f. transduces opr f \<Longrightarrow> snd (run_transducer f (task_op t) (mg_out s)) = es) \<Longrightarrow> stream_of sps (task_col t) es"

lemma two_input_merge_step:
  "two_input_merge sched s =
     (if \<not> mg_open1 s \<and> \<not> mg_open2 s then (s, Ok ())
      else case merge_iteration (sched 0) s of
             (s', Ok _) \<Rightarrow> two_input_merge (\<lambda>n. sched (Suc n)) s' | (s', Err x) \<Rightarrow> (s', Err x) | (s', Panic p) \<Rightarrow> (s', Panic p))"
  by (rule two_input_merge.simps)

lemma merge_steps_run:
  assumes "merge_steps\<^sup>*\<^sup>* s s'" and "\<not> mg_open1 s'" and "\<not> mg_open2 s'"
  shows "\<exists>sched. two_input_merge sched s = (s', Ok ())"
  using assms
proof (induction rule: converse_rtranclp_induct)
  case base
  then show ?case by (auto simp: two_input_merge_step)
next
  case (step s s1)
  then obtain sched where "two_input_merge sched s1 = (s', Ok ())" by blast
  moreover obtain pick1 where "mg_open1 s \<or> mg_open2 s" "merge_iteration pick1 s = (s1, Ok ())"
    using step.hyps(1) by (auto simp: merge_steps_def)
  ultimately have "two_input_merge (case_nat pick1 sched) s = (s', Ok ())"
    by (subst two_input_merge_step) auto
  then show ?case by blast
qed

lemma finished_streams:
  assumes ready: "net_ready net0" and inv: "net_inv net0 net"
    and ended: "\<forall>k<length (net_spawned net0). sp_result (net_spawned net ! k) = Some (Ok ())"
  shows "k < length (net_spawned net0) \<Longrightarrow>
    (\<forall>c\<in>set (link_outs (sp_actor (net_spawned net0 ! k))). stream_of (net_spawned net0) c (lk_sent (net_links net ! c))) \<and>
    (\<forall>m. sp_actor (net_spawned net0 ! k) = MergeActor m \<longrightarrow> (\<exists>xs ys sched s. stream_of (net_spawned net0) (mw_in1 m) xs \<and>
       stream_of (net_spawned net0) (mw_in2 m) ys \<and> two_input_merge sched (merge_init xs ys None) = (s, Ok ()) \<and>
       lk_sent (net_pairs net ! mw_out m) = mg_out s))"
proof (induction k rule: less_induct)
  case (less k)
  let ?sps = "net_spawned net0" and ?L = "net_links net" and ?P = "net_pairs net"
  let ?first = "sp_actor (?sps ! k)" and ?now = "sp_actor (net_spawned net ! k)"
  have ai: "actor_inv ?first ?now (Some (Ok ())) ?L ?P"
    using inv less.prems ended unfolding net_inv_def Let_def by metis
  have wired: "wired ?sps (length (net_links net0)) (length (net_pairs net0))" using ready by (simp add: net_ready_def)
  have earlier: "\<exists>j<k. c \<in> set (link_outs (sp_actor (?sps ! j)))" if "c \<in> set (link_ins ?first)" for c
    using wired less.prems that unfolding wired_def by blast
  have source: "stream_of ?sps c (lk_sent (?L ! c))" if c: "c \<in> set (link_ins ?first)" for c
  proof -
    from earlier [OF c] obtain j where "j < k" "c \<in> set (link_outs (sp_actor (?sps ! j)))" by blast
    with less.IH [of j] less.prems show ?thesis by auto
  qed
  have wb: "well_behaved ?first" using ready less.prems by (simp add: net_ready_def)
  show ?case
  proof (cases ?first)
    case (DrainActor d0)
    then obtain d where "?now = DrainActor d" using ai by (cases ?now) auto
    with DrainActor ai have "drains (source_next (dr_source d0)) (dr_key d0) (dr_state d0) (lk_sent (?L ! dr_out d0))"
      by (auto simp: drainer_inv_def)
    from from_source [OF less.prems DrainActor this] DrainActor show ?thesis by simp
  next
    case (RelayActor r0)
    then obtain rl where "?now = RelayActor rl" using ai by (cases ?now) auto
    with RelayActor ai have "key_elements (rl_key r0) (lk_sent (?L ! rl_in r0)) = (lk_sent (?L ! rl_out r0), rl_key rl)"
      by (auto simp: relay_inv_def lk_drained_def)
    with relayed [OF less.prems RelayActor source [of "rl_in r0"]] RelayActor show ?thesis by simp
  next
    case (MergeActor m0)
    then obtain m where "?now = MergeActor m" using ai by (cases ?now) auto
    with MergeActor ai have m: "merger_inv m0 m (Some (Ok ())) ?L ?P" by simp
    let ?s = "set_inputs [] [] (mw_state m)"
    from m have d: "lk_drained (?L ! mw_in1 m0)" "lk_drained (?L ! mw_in2 m0)" "\<not> mg_open1 ?s" "\<not> mg_open2 ?s"
      and sent: "lk_sent (?P ! mw_out m0) = mg_out ?s" by (auto simp: merger_inv_def)
    have "merge_steps\<^sup>*\<^sup>* (merge_init (lk_sent (?L ! mw_in1 m0)) (lk_sent (?L ! mw_in2 m0)) None) ?s"
      using m d by (auto simp: merger_inv_def lk_drained_def)
    with merge_steps_run d(3,4) obtain sched where
      run: "two_input_merge sched (merge_init (lk_sent (?L ! mw_in1 m0)) (lk_sent (?L ! mw_in2 m0)) None) = (?s, Ok ())" by blast
    have "stream_of ?sps (mw_in1 m0) (lk_sent (?L ! mw_in1 m0))" "stream_of ?sps (mw_in2 m0) (lk_sent (?L ! mw_in2 m0))"
      using source MergeActor by simp_all
    with run sent have "\<exists>xs ys sched s. stream_of ?sps (mw_in1 m0) xs \<and> stream_of ?sps (mw_in2 m0) ys \<and>
       two_input_merge sched (merge_init xs ys None) = (s, Ok ()) \<and> lk_sent (?P ! mw_out m0) = mg_out s" by blast
    with MergeActor show ?thesis by simp
  next
    case (TaskActor opr t0)
    then obtain t where "?now = TaskActor opr t" using ai by (cases ?now) auto
    then have "run_transducer f (task_op t0) (lk_sent (?L ! task_input t0)) = (task_op t, lk_sent (?L ! task_col t0))"
      if "transduces opr f" for f using that ai TaskActor by (auto simp: task_inv_def lk_drained_def)
    with transformed [OF less.prems TaskActor source [of "task_input t0"]] TaskActor show ?thesis by simp
  next
    case (PairTaskActor opr t0)
    then obtain t where "?now = PairTaskActor opr t" using ai by (cases ?now) auto
    then have run: "run_transducer f (task_op t0) (lk_sent (?P ! task_input t0)) = (task_op t, lk_sent (?L ! task_col t0))"
      if "transduces opr f" for f using that ai PairTaskActor by (auto simp: task_inv_def lk_drained_def)
    have "\<exists>j<k. task_input t0 \<in> set (pair_outs (sp_actor (?sps ! j)))"
      using wired less.prems PairTaskActor unfolding wired_def by fastforce
    then obtain j where j: "j < k" "task_input t0 \<in> set (pair_outs (sp_actor (?sps ! j)))" by blast
    then obtain m where m: "sp_actor (?sps ! j) = MergeActor m" "mw_out m = task_input t0" by (cases "sp_actor (?sps ! j)") auto
    have "j < length ?sps" using j less.prems by simp
    with less.IH [OF j(1)] m obtain xs ys sched s where in12: "stream_of ?sps (mw_in1 m) xs" "stream_of ?sps (mw_in2 m) ys"
      "two_input_merge sched (merge_init xs ys None) = (s, Ok ())" "lk_sent (?P ! task_input t0) = mg_out s" by metis
    with merged [OF less.prems PairTaskActor \<open>j < length ?sps\<close> m in12(1-3)] run PairTaskActor show ?thesis by simp
  qed
qed

end
