(* ===== verification/Logical_Graph.thy ===== *)
theory Logical_Graph
  imports Flume_Prelude
begin

text \<open>
  \<open>flume-runtime/src/dag.rs\<close>: the logical graph of a pipeline and its topological order (Kahn's
  algorithm). Indexing a vector out of range and decrementing a zero in-degree are panics.
\<close>

subsection \<open>The graph\<close>

type_synonym node_id = nat

datatype node_kind = SourceNode | OperatorNode | SinkNode

datatype partition_strategy = ForwardStrategy | HashStrategy | BroadcastStrategy | RebalanceStrategy

record logical_node =
  node_ident :: node_id
  node_name :: string
  node_kind_of :: node_kind
  node_parallelism :: nat

record logical_edge =
  edge_from :: node_id
  edge_to :: node_id
  edge_strategy :: partition_strategy

record logical_graph =
  nodes :: "logical_node list"
  edges :: "logical_edge list"

definition graph_new :: logical_graph where "graph_new = \<lparr>nodes = [], edges = []\<rparr>"

definition add_node :: "logical_graph \<Rightarrow> string \<Rightarrow> node_kind \<Rightarrow> nat \<Rightarrow> logical_graph \<times> node_id" where
  "add_node g name kind p =
     (let i = length (nodes g)
      in (g\<lparr>nodes := nodes g @ [\<lparr>node_ident = i, node_name = name, node_kind_of = kind, node_parallelism = p\<rparr>]\<rparr>, i))"

definition add_edge :: "logical_graph \<Rightarrow> node_id \<Rightarrow> node_id \<Rightarrow> partition_strategy \<Rightarrow> logical_graph" where
  "add_edge g a b st = g\<lparr>edges := edges g @ [\<lparr>edge_from = a, edge_to = b, edge_strategy = st\<rparr>]\<rparr>"

subsection \<open>Topological order\<close>

fun count_edges :: "logical_edge list \<Rightarrow> nat list list \<Rightarrow> nat list \<Rightarrow> (nat list list \<times> nat list) res" where
  "count_edges [] adjacency in_degree = Ok (adjacency, in_degree)"
| "count_edges (e # es) adjacency in_degree =
     (if edge_from e < length adjacency \<and> edge_to e < length in_degree
      then count_edges es (adjacency[edge_from e := adjacency ! edge_from e @ [edge_to e]])
             (in_degree[edge_to e := in_degree ! edge_to e + 1])
      else Panic ''index out of bounds'')"

text \<open>The inner loop: one decrement per outgoing edge; a node whose last incoming edge goes is queued.\<close>

fun relax :: "nat list \<Rightarrow> nat list \<Rightarrow> node_id list \<Rightarrow> (nat list \<times> node_id list) res" where
  "relax [] in_degree queue = Ok (in_degree, queue)"
| "relax (m # ms) in_degree queue =
     (if \<not> m < length in_degree then Panic ''index out of bounds''
      else if in_degree ! m = 0 then Panic ''attempt to subtract with overflow''
      else (let in_degree' = in_degree[m := in_degree ! m - 1]
            in relax ms in_degree' (if in_degree' ! m = 0 then queue @ [m] else queue)))"

definition positive_degrees :: "nat list \<Rightarrow> nat" where
  "positive_degrees ds = sum_list (map (\<lambda>d. if 0 < d then 1 else 0) ds)"

lemma positive_degrees_update:
  "m < length ds \<Longrightarrow> positive_degrees (ds[m := x]) + (if 0 < ds ! m then 1 else 0) =
     positive_degrees ds + (if 0 < x then 1 else 0)"
  unfolding positive_degrees_def by (rule sum_list_map_update)

lemma relax_measure:
  "relax ms ds q = Ok (ds', q') \<Longrightarrow> length q' + positive_degrees ds' \<le> length q + positive_degrees ds"
proof (induction ms ds q rule: relax.induct)
  case (2 m ms ds q)
  let ?ds = "ds[m := ds ! m - 1]" and ?q = "if ds ! m - 1 = 0 then q @ [m] else q"
  from 2(2) have m: "m < length ds" "0 < ds ! m" by (auto split: if_splits)
  with 2(2) have "relax ms ?ds ?q = Ok (ds', q')" by (simp add: Let_def)
  with 2(1) [of ?ds] m have "length q' + positive_degrees ds' \<le> length ?q + positive_degrees ?ds" by simp
  with positive_degrees_update [OF m(1), of "ds ! m - 1"] m(2) show ?case by (auto split: if_splits)
qed simp

function kahn :: "nat list list \<Rightarrow> node_id list \<Rightarrow> nat list \<Rightarrow> node_id list \<Rightarrow> node_id list res" where
  "kahn adjacency [] in_degree order = Ok order"
| "kahn adjacency (node # queue) in_degree order =
     (if \<not> node < length adjacency then Panic ''index out of bounds''
      else case relax (adjacency ! node) in_degree queue of
             Ok (in_degree', queue') \<Rightarrow> kahn adjacency queue' in_degree' (order @ [node])
           | Err e \<Rightarrow> Err e
           | Panic p \<Rightarrow> Panic p)"
  by pat_completeness auto
termination
  by (relation "measure (\<lambda>(_, q, ds, _). length q + positive_degrees ds)")
    (auto simp: less_Suc_eq_le dest: relax_measure)

definition topological_order :: "logical_graph \<Rightarrow> node_id list option res" where
  "topological_order g =
     (let n = length (nodes g) in
      bind_res (count_edges (edges g) (replicate n []) (replicate n 0)) (\<lambda>(adjacency, in_degree).
      bind_res (kahn adjacency (filter (\<lambda>i. in_degree ! i = 0) [0..<n]) in_degree []) (\<lambda>order.
        Ok (if length order = n then Some order else None))))"

subsection \<open>What the algorithm computes\<close>

definition edges_in_range :: "logical_graph \<Rightarrow> bool" where
  "edges_in_range g \<longleftrightarrow> list_all (\<lambda>e. edge_from e < length (nodes g) \<and> edge_to e < length (nodes g)) (edges g)"

definition edge_relation :: "logical_graph \<Rightarrow> (node_id \<times> node_id) set" where
  "edge_relation g = (\<lambda>e. (edge_from e, edge_to e)) ` set (edges g)"

text \<open>The targets of the edges out of a node, and the number of edges into \<open>m\<close> from nodes outside \<open>S\<close>.\<close>

definition targets :: "logical_edge list \<Rightarrow> node_id \<Rightarrow> nat list" where
  "targets es u = map edge_to (filter (\<lambda>e. edge_from e = u) es)"

definition pending_edges :: "logical_edge list \<Rightarrow> node_id set \<Rightarrow> node_id \<Rightarrow> nat" where
  "pending_edges es S m = length (filter (\<lambda>e. edge_to e = m \<and> edge_from e \<notin> S) es)"

lemma count_edges_exact:
  assumes "list_all (\<lambda>e. edge_from e < n \<and> edge_to e < n) es" and "length adj = n" and "length deg = n"
  shows "count_edges es adj deg =
    Ok (map (\<lambda>u. adj ! u @ targets es u) [0..<n], map (\<lambda>m. deg ! m + pending_edges es {} m) [0..<n])"
  using assms
proof (induction es adj deg rule: count_edges.induct)
  case (1 adj deg)
  then show ?case by (auto simp: targets_def pending_edges_def intro: nth_equalityI)
next
  case (2 e es adj deg)
  then have "count_edges (e # es) adj deg = Ok
    (map (\<lambda>u. adj[edge_from e := adj ! edge_from e @ [edge_to e]] ! u @ targets es u) [0..<n],
     map (\<lambda>m. deg[edge_to e := deg ! edge_to e + 1] ! m + pending_edges es {} m) [0..<n])"
    by simp
  with 2(3,4) show ?case by (auto simp: targets_def pending_edges_def nth_list_update)
qed

lemma relax_exact:
  assumes "\<And>m. m \<in> set ms \<Longrightarrow> m < length ds" and "\<And>m. m < length ds \<Longrightarrow> count_list ms m \<le> ds ! m"
  shows "\<exists>new. relax ms ds q = Ok (map (\<lambda>m. ds ! m - count_list ms m) [0..<length ds], q @ new) \<and>
    distinct new \<and> set new = {m. m < length ds \<and> 0 < count_list ms m \<and> ds ! m = count_list ms m}"
  using assms
proof (induction ms arbitrary: ds q)
  case Nil
  have "map (\<lambda>m. ds ! m) [0..<length ds] = ds" by (simp add: map_nth)
  then show ?case by auto
next
  case (Cons m ms)
  from Cons.prems have m: "m < length ds" by simp
  with Cons.prems(2) [of m] have pos: "0 < ds ! m" by auto
  let ?ds = "ds[m := ds ! m - 1]" and ?q = "if ds ! m - 1 = 0 then q @ [m] else q"
  have le: "count_list ms k \<le> ?ds ! k" if "k < length ?ds" for k
    using Cons.prems(2) [of k] that m by (cases "k = m") auto
  from Cons.IH [of ?ds ?q] Cons.prems(1) le obtain new where
    new: "relax ms ?ds ?q = Ok (map (\<lambda>k. ?ds ! k - count_list ms k) [0..<length ?ds], ?q @ new)" "distinct new"
      "set new = {k. k < length ?ds \<and> 0 < count_list ms k \<and> ?ds ! k = count_list ms k}"
    by auto
  have degs: "map (\<lambda>k. ?ds ! k - count_list ms k) [0..<length ?ds] = map (\<lambda>k. ds ! k - count_list (m # ms) k) [0..<length ds]"
    using m by (auto simp: nth_list_update)
  have step: "relax (m # ms) ds q = relax ms ?ds ?q" using m pos by (simp add: Let_def)
  have mem: "k \<in> set new \<longleftrightarrow> k < length ds \<and> 0 < count_list ms k \<and> ?ds ! k = count_list ms k" for k
    unfolding new(3) by simp
  show ?case
  proof (cases "ds ! m = 1")
    case True
    then have zero: "count_list ms m = 0" using Cons.prems(2) [OF m] by simp
    have "k \<in> set (m # new) \<longleftrightarrow> k < length ds \<and> 0 < count_list (m # ms) k \<and> ds ! k = count_list (m # ms) k" for k
      using m True zero mem [of k] by (cases "k = m") simp_all
    then have "set (m # new) = {k. k < length ds \<and> 0 < count_list (m # ms) k \<and> ds ! k = count_list (m # ms) k}" by blast
    moreover have "m \<notin> set new" using mem [of m] zero by simp
    ultimately show ?thesis using new step degs True by (intro exI [of _ "m # new"]) simp
  next
    case False
    have "k \<in> set new \<longleftrightarrow> k < length ds \<and> 0 < count_list (m # ms) k \<and> ds ! k = count_list (m # ms) k" for k
      using m pos False mem [of k] by (cases "k = m") auto
    then have "set new = {k. k < length ds \<and> 0 < count_list (m # ms) k \<and> ds ! k = count_list (m # ms) k}" by blast
    with new step degs False pos show ?thesis by (intro exI [of _ new]) simp
  qed
qed

lemma pending_split:
  "u \<notin> S \<Longrightarrow> pending_edges es S m = pending_edges es (insert u S) m + count_list (targets es u) m"
  by (induction es) (auto simp: pending_edges_def targets_def)

lemma pending_zero: "pending_edges es S m = 0 \<longleftrightarrow> (\<forall>e\<in>set es. edge_to e = m \<longrightarrow> edge_from e \<in> S)"
  by (auto simp: pending_edges_def filter_empty_conv)

text \<open>The loop invariant.\<close>

definition predecessors_first :: "logical_edge list \<Rightarrow> node_id list \<Rightarrow> bool" where
  "predecessors_first es order \<longleftrightarrow>
     (\<forall>j<length order. \<forall>e\<in>set es. edge_to e = order ! j \<longrightarrow> edge_from e \<in> set (take j order))"

definition kahn_inv :: "logical_edge list \<Rightarrow> nat \<Rightarrow> node_id list \<Rightarrow> nat list \<Rightarrow> node_id list \<Rightarrow> bool" where
  "kahn_inv es n queue deg order \<longleftrightarrow>
     deg = map (pending_edges es (set order)) [0..<n] \<and> distinct (order @ queue) \<and>
     set (order @ queue) = {m. m < n \<and> pending_edges es (set order) m = 0} \<and> predecessors_first es order"

lemma kahn_step:
  assumes inv: "kahn_inv es n (node # queue) deg order" and range: "list_all (\<lambda>e. edge_from e < n \<and> edge_to e < n) es"
  shows "\<exists>deg' queue'. relax (targets es node) deg queue = Ok (deg', queue') \<and> kahn_inv es n queue' deg' (order @ [node])"
proof -
  let ?S = "set order"
  have deg: "deg = map (pending_edges es ?S) [0..<n]" and dist: "distinct (order @ node # queue)"
    and all: "set (order @ node # queue) = {m. m < n \<and> pending_edges es ?S m = 0}" and first: "predecessors_first es order"
    using inv by (simp_all add: kahn_inv_def)
  have node: "node \<notin> ?S" using dist by simp
  note split = pending_split [OF node, of es]
  have "m < length deg" if "m \<in> set (targets es node)" for m
    using that range deg by (auto simp: targets_def list_all_iff)
  moreover have "count_list (targets es node) m \<le> deg ! m" if "m < length deg" for m
    using that split [of m] deg by simp
  ultimately obtain new where
    relax: "relax (targets es node) deg queue = Ok (map (\<lambda>m. deg ! m - count_list (targets es node) m) [0..<length deg], queue @ new)"
    and new: "distinct new" "set new = {m. m < length deg \<and> 0 < count_list (targets es node) m \<and> deg ! m = count_list (targets es node) m}"
    using relax_exact [of "targets es node" deg queue] by blast
  have deg': "map (\<lambda>m. deg ! m - count_list (targets es node) m) [0..<length deg] =
      map (pending_edges es (insert node ?S)) [0..<n]"
    using deg split by auto
  have mem: "m \<in> set new \<longleftrightarrow> m < n \<and> pending_edges es ?S m > 0 \<and> pending_edges es (insert node ?S) m = 0" for m
    unfolding new(2) using deg split [of m] by (cases "m < n") auto
  have "distinct ((order @ [node]) @ queue @ new)"
  proof -
    have "m \<notin> set (order @ node # queue)" if "m \<in> set new" for m unfolding all using mem [of m] that by simp
    with dist new(1) show ?thesis by auto
  qed
  moreover have "set ((order @ [node]) @ queue @ new) = {m. m < n \<and> pending_edges es (set (order @ [node])) m = 0}"
  proof -
    have "m \<in> set (order @ node # queue) \<or> m \<in> set new \<longleftrightarrow> m < n \<and> pending_edges es (insert node ?S) m = 0" for m
      unfolding all mem using split [of m] by auto
    then show ?thesis by auto
  qed
  moreover have "predecessors_first es (order @ [node])"
  proof -
    have "pending_edges es ?S node = 0" using all by auto
    with first show ?thesis by (auto simp: predecessors_first_def pending_zero nth_append less_Suc_eq)
  qed
  ultimately have "kahn_inv es n (queue @ new) (map (pending_edges es (insert node ?S)) [0..<n]) (order @ [node])"
    by (simp add: kahn_inv_def)
  with relax deg' show ?thesis by auto
qed

lemma kahn_run:
  assumes "list_all (\<lambda>e. edge_from e < n \<and> edge_to e < n) es"
  shows "adj = map (targets es) [0..<n] \<Longrightarrow> kahn_inv es n queue deg order \<Longrightarrow>
    \<exists>order' deg'. kahn adj queue deg order = Ok order' \<and> kahn_inv es n [] deg' order'"
proof (induction adj queue deg order rule: kahn.induct)
  case (2 adj node queue deg order)
  from kahn_step [OF 2(3) assms] obtain deg' queue' where
    step: "relax (targets es node) deg queue = Ok (deg', queue')" "kahn_inv es n queue' deg' (order @ [node])"
    by blast
  have "node < n" using 2(3) by (auto simp: kahn_inv_def)
  with 2(2) step 2(1) [of "(deg', queue')" deg' queue'] show ?case by auto
qed auto

lemma first_position:
  "u \<in> set (take j xs) \<Longrightarrow> length (takeWhile (\<lambda>x. x \<noteq> u) xs) < j"
  by (induction xs arbitrary: j) (auto simp: take_Cons split: nat.splits)

lemma predecessors_first_acyclic:
  assumes "predecessors_first es order" and "\<And>e. e \<in> set es \<Longrightarrow> edge_to e \<in> set order"
  shows "acyclic ((\<lambda>e. (edge_from e, edge_to e)) ` set es)"
proof -
  define pos where "pos u = length (takeWhile (\<lambda>x. x \<noteq> u) order)" for u
  have "pos (edge_from e) < pos (edge_to e)" if e: "e \<in> set es" for e
  proof -
    have p: "pos (edge_to e) < length order"
      using first_position [of "edge_to e" "length order" order] assms(2) [OF e] by (simp add: pos_def)
    then have "order ! pos (edge_to e) = edge_to e"
      using nth_length_takeWhile [of "\<lambda>x. x \<noteq> edge_to e" order] by (simp add: pos_def)
    with assms(1) p e have "edge_from e \<in> set (take (pos (edge_to e)) order)"
      unfolding predecessors_first_def by metis
    then show ?thesis unfolding pos_def [of "edge_from e"] by (rule first_position)
  qed
  then have "acyclic (((\<lambda>e. (edge_from e, edge_to e)) ` set es)\<inverse>)"
    by (intro acyclicI_order [of _ pos]) auto
  then show ?thesis by (simp add: acyclic_converse)
qed

lemma acyclic_complete:
  assumes "kahn_inv es n [] deg order" and "list_all (\<lambda>e. edge_from e < n \<and> edge_to e < n) es"
    and "acyclic ((\<lambda>e. (edge_from e, edge_to e)) ` set es)"
  shows "set order = {..<n}"
proof (rule ccontr)
  assume "set order \<noteq> {..<n}"
  with assms(1) obtain x where x: "x \<in> {..<n} - set order" by (auto simp: kahn_inv_def)
  have wf: "wf ((\<lambda>e. (edge_from e, edge_to e)) ` set es)"
    using assms(3) by (intro finite_acyclic_wf) auto
  obtain z where z: "z \<in> {..<n} - set order"
    "\<And>y. (y, z) \<in> (\<lambda>e. (edge_from e, edge_to e)) ` set es \<Longrightarrow> y \<notin> {..<n} - set order"
    using wfE_min [OF wf x] by blast
  have "edge_from e \<in> set order" if "e \<in> set es" "edge_to e = z" for e
    using z(2) [of "edge_from e"] that assms(2) by (auto simp: list_all_iff)
  then have "pending_edges es (set order) z = 0" by (auto simp: pending_zero)
  with z(1) assms(1) show False by (auto simp: kahn_inv_def)
qed

lemma topological_order_exact:
  assumes "edges_in_range g"
  shows "if acyclic (edge_relation g)
    then \<exists>order. topological_order g = Ok (Some order) \<and> distinct order \<and> set order = {..<length (nodes g)} \<and>
      predecessors_first (edges g) order
    else topological_order g = Ok None"
proof -
  let ?n = "length (nodes g)" and ?es = "edges g"
  have range: "list_all (\<lambda>e. edge_from e < ?n \<and> edge_to e < ?n) ?es" using assms by (simp add: edges_in_range_def)
  let ?adj = "map (targets ?es) [0..<?n]" and ?deg = "map (pending_edges ?es {}) [0..<?n]"
  have adj: "map (\<lambda>u. replicate ?n [] ! u @ targets ?es u) [0..<?n] = ?adj"
    and deg: "map (\<lambda>m. replicate ?n 0 ! m + pending_edges ?es {} m) [0..<?n] = ?deg" by auto
  have counted: "count_edges ?es (replicate ?n []) (replicate ?n 0) = Ok (?adj, ?deg)"
    using count_edges_exact [OF range, of "replicate ?n []" "replicate ?n 0"] unfolding adj deg by simp
  let ?queue = "filter (\<lambda>i. ?deg ! i = 0) [0..<?n]"
  have "kahn_inv ?es ?n ?queue ?deg []" by (auto simp: kahn_inv_def predecessors_first_def)
  from kahn_run [OF range refl this] obtain order deg' where
    run: "kahn ?adj ?queue ?deg [] = Ok order" and inv: "kahn_inv ?es ?n [] deg' order" by blast
  have result: "topological_order g = Ok (if length order = ?n then Some order else None)"
    by (simp add: topological_order_def Let_def counted run)
  have dist: "distinct order" and sub: "set order \<subseteq> {..<?n}" and first: "predecessors_first ?es order"
    using inv by (auto simp: kahn_inv_def)
  show ?thesis
  proof (cases "acyclic (edge_relation g)")
    case True
    with acyclic_complete [OF inv range] have all: "set order = {..<?n}" by (simp add: edge_relation_def)
    then have "length order = ?n" using distinct_card [OF dist] by simp
    with result dist first all True show ?thesis by simp
  next
    case False
    have "length order \<noteq> ?n"
    proof
      assume "length order = ?n"
      with sub distinct_card [OF dist] have "set order = {..<?n}" by (simp add: card_subset_eq)
      with range predecessors_first_acyclic [OF first] False show False
        by (auto simp: edge_relation_def list_all_iff)
    qed
    with result False show ?thesis by simp
  qed
qed

subsection \<open>Properties\<close>

text \<open>C17. The topological order is correct and complete. For a graph whose edges connect existing nodes, the
  computation never panics; when the graph is acyclic it returns every node exactly once with the start of
  every edge before its end, and when it has a cycle it returns None.\<close>

theorem topological_order_correct:
  assumes "edges_in_range g"
  shows "if acyclic (edge_relation g)
    then \<exists>order. topological_order g = Ok (Some order) \<and> distinct order \<and> set order = {..<length (nodes g)} \<and>
      predecessors_first (edges g) order
    else topological_order g = Ok None"
  by (rule topological_order_exact [OF assms])

definition diamond :: logical_graph where
  "diamond =
     (let n = (\<lambda>i. \<lparr>node_ident = i, node_name = ''n'', node_kind_of = OperatorNode, node_parallelism = 1\<rparr>);
          e = (\<lambda>a b. \<lparr>edge_from = a, edge_to = b, edge_strategy = HashStrategy\<rparr>)
      in \<lparr>nodes = [n 0, n 1, n 2, n 3], edges = [e 0 1, e 0 2, e 1 3, e 2 3]\<rparr>)"

theorem topological_order_correct_witness:
  "edges_in_range diamond \<and> topological_order diamond = Ok (Some [0, 1, 2, 3]) \<and> acyclic (edge_relation diamond)"
proof -
  have range: "edges_in_range diamond" by code_simp
  have run: "topological_order diamond = Ok (Some [0, 1, 2, 3])" by code_simp
  from topological_order_correct [OF range] run have "acyclic (edge_relation diamond)"
    by (simp split: if_splits)
  with range run show ?thesis by blast
qed

end
