(* ===== verification/Windows.thy ===== *)
theory Windows
  imports Stream_Types
begin

text \<open>
  \<open>flume-core/src/window.rs\<close>: windows, the tumbling and sliding assigners, triggers and aggregate
  functions. The loop of the sliding assigner is characterised by the list of all windows
  \<open>[k * slide, k * slide + size)\<close> that contain the timestamp, in increasing order.
\<close>

record window =
  win_start :: event_timestamp
  win_end :: event_timestamp

definition window_new :: "event_timestamp \<Rightarrow> event_timestamp \<Rightarrow> window" where
  "window_new s e = \<lparr>win_start = s, win_end = e\<rparr>"

definition window_contains :: "window \<Rightarrow> event_timestamp \<Rightarrow> bool" where
  "window_contains w t \<longleftrightarrow> t \<ge> win_start w \<and> t < win_end w"

text \<open>A \<open>Box<dyn WindowAssigner>\<close>: its one method.\<close>

type_synonym window_assigner = "event_timestamp \<Rightarrow> window list res"

subsection \<open>Tumbling windows\<close>

definition tumbling_assign :: "u64 \<Rightarrow> window_assigner" where
  "tumbling_assign size_ms timestamp =
     (let ts = as_millis timestamp in
      bind_res (checked_div ts size_ms) (\<lambda>q.
      bind_res (checked_mul q size_ms) (\<lambda>start.
      bind_res (checked_add start size_ms) (\<lambda>end_ms.
      Ok [window_new (EventTimestamp start) (EventTimestamp end_ms)]))))"

definition tumbling_new :: "duration \<Rightarrow> window_assigner" where
  "tumbling_new size_d = tumbling_assign (duration_ms size_d)"

subsection \<open>Sliding windows\<close>

text \<open>
  The backwards walk. The branch for \<open>slide_ms = 0\<close> is not reached: \<open>sliding_assign\<close> divides by
  \<open>slide_ms\<close> first.
\<close>

function sliding_loop :: "u64 \<Rightarrow> u64 \<Rightarrow> u64 \<Rightarrow> u64 \<Rightarrow> window list \<Rightarrow> window list res" where
  "sliding_loop size_ms slide_ms ts start windows =
     (if slide_ms = 0 then Panic ''unreachable'' else
      bind_res (checked_add start size_ms) (\<lambda>end_ms.
      let windows' = (if ts < end_ms
            then windows @ [window_new (EventTimestamp start) (EventTimestamp end_ms)] else windows) in
      if start < slide_ms then Ok windows'
      else let start' = start - slide_ms in
        bind_res (checked_add start' size_ms) (\<lambda>end_ms'.
        if end_ms' \<le> ts then Ok windows'
        else sliding_loop size_ms slide_ms ts start' windows')))"
  by pat_completeness auto
termination
  by (relation "measure (\<lambda>(size_ms, slide_ms, ts, start, windows). unat start)")
    (auto simp: word_less_nat_alt unat_sub word_le_nat_alt linorder_not_less
      intro!: diff_less simp flip: word_neq_0_conv unat_gt_0)

declare sliding_loop.simps [simp del]

definition sliding_assign :: "u64 \<Rightarrow> u64 \<Rightarrow> window_assigner" where
  "sliding_assign size_ms slide_ms timestamp =
     (let ts = as_millis timestamp in
      bind_res (checked_div ts slide_ms) (\<lambda>q.
      bind_res (checked_mul q slide_ms) (\<lambda>last_start.
      bind_res (sliding_loop size_ms slide_ms ts last_start []) (\<lambda>windows.
      Ok (rev windows)))))"

definition sliding_new :: "duration \<Rightarrow> duration \<Rightarrow> window_assigner" where
  "sliding_new size_d slide_d = sliding_assign (duration_ms size_d) (duration_ms slide_d)"

subsection \<open>Triggers and aggregates\<close>

datatype trigger_result = Continue | Fire | Purge | FireAndPurge

text \<open>A \<open>Box<dyn Trigger>\<close> with state \<open>'tr\<close>; both methods may change the state.\<close>

record 'tr trigger =
  on_element :: "'tr \<Rightarrow> event_timestamp \<Rightarrow> window \<Rightarrow> trigger_result \<times> 'tr"
  on_event_time :: "'tr \<Rightarrow> event_timestamp \<Rightarrow> window \<Rightarrow> trigger_result \<times> 'tr"

definition event_time_trigger :: "unit trigger" where
  "event_time_trigger = \<lparr>
     on_element = (\<lambda>s timestamp w. (Continue, s)),
     on_event_time = (\<lambda>s wm w. (if wm \<ge> win_end w then FireAndPurge else Continue, s))\<rparr>"

record ('i, 'acc, 'o) aggregate_function =
  create_accumulator :: 'acc
  add_value :: "'acc \<Rightarrow> 'i \<Rightarrow> 'acc"
  get_result :: "'acc \<Rightarrow> 'o"
  merge_acc :: "'acc \<Rightarrow> 'acc \<Rightarrow> 'acc"

text \<open>The aggregate the tests of the repository use: a running sum.\<close>

definition sum_aggregate :: "(int, int, int) aggregate_function" where
  "sum_aggregate = \<lparr>create_accumulator = 0, add_value = (+), get_result = (\<lambda>acc. acc), merge_acc = (+)\<rparr>"

subsection \<open>The windows of a timestamp\<close>

text \<open>The \<open>k\<close>-th window of a sliding assigner, and the windows that contain \<open>t\<close>.\<close>

definition nth_window :: "nat \<Rightarrow> nat \<Rightarrow> nat \<Rightarrow> window" where
  "nth_window sz slide k =
     window_new (EventTimestamp (word_of_nat (k * slide))) (EventTimestamp (word_of_nat (k * slide + sz)))"

definition windows_of :: "nat \<Rightarrow> nat \<Rightarrow> nat \<Rightarrow> window list" where
  "windows_of sz slide t =
     map (nth_window sz slide) (filter (\<lambda>k. t < k * slide + sz) [0..<Suc (t div slide)])"

lemma unat_u64_eqI: "unat x = n \<Longrightarrow> x = word_of_nat n" for x :: u64
  by auto

lemma tumbling_assign_eq:
  "tumbling_assign sz t =
     (if sz = 0 then Panic ''attempt to divide by zero''
      else if millis t div unat sz * unat sz + unat sz < 2 ^ 64
      then Ok [nth_window (unat sz) (unat sz) (millis t div unat sz)]
      else Panic ''attempt to add with overflow'')"
proof (cases "sz = 0")
  case True
  then show ?thesis by (simp add: tumbling_assign_def checked_div_def)
next
  case False
  let ?s = "as_millis t div sz * sz"
  have s: "unat ?s = millis t div unat sz * unat sz"
    unfolding millis_def by (rule unat_u64_mult_div)
  have start: "?s = word_of_nat (millis t div unat sz * unat sz)"
    using s by (rule unat_u64_eqI)
  have eq: "tumbling_assign sz t =
      bind_res (checked_add ?s sz) (\<lambda>e. Ok [window_new (EventTimestamp ?s) (EventTimestamp e)])"
    using False by (simp add: tumbling_assign_def checked_div_def checked_div_mul Let_def)
  show ?thesis
  proof (cases "unat ?s + unat sz < 2 ^ 64")
    case True
    have "?s + sz = word_of_nat (millis t div unat sz * unat sz + unat sz)"
      using start by simp
    then show ?thesis
      using True False s start unfolding eq
      by (simp add: checked_add_def nth_window_def mult.commute)
  next
    case over: False
    then show ?thesis using False s unfolding eq by (simp add: checked_add_def)
  qed
qed

lemma sliding_loop_eq:
  assumes "slide \<noteq> 0" and "unat start = k * unat slide" and "k * unat slide + unat sz < 2 ^ 64"
  shows "sliding_loop sz slide ts start acc =
    Ok (acc @ map (nth_window (unat sz) (unat slide))
      (rev (filter (\<lambda>j. unat ts < j * unat slide + unat sz) [0..<Suc k])))"
  using assms
proof (induction k arbitrary: start acc)
  case 0
  then have "start = 0" by (simp add: unat_eq_0)
  with 0 show ?case
    by (subst sliding_loop.simps)
      (auto simp: checked_add_def nth_window_def word_less_nat_alt unat_gt_0 Let_def)
next
  case (Suc k)
  let ?sl = "unat slide" and ?sz = "unat sz"
  have sl: "0 < ?sl" using Suc.prems(1) by (simp add: unat_gt_0)
  have nosmall: "\<not> start < slide" using Suc.prems(2) by (simp add: word_less_nat_alt)
  then have s': "unat (start - slide) = k * ?sl"
    using Suc.prems(2) by (simp add: unat_sub word_le_nat_alt linorder_not_less)
  have b': "k * ?sl + ?sz < 2 ^ 64" using Suc.prems(3) by simp
  have e: "unat (start + sz) = Suc k * ?sl + ?sz"
    using Suc.prems by (simp add: unat_add_no_overflow)
  have e': "unat (start - slide + sz) = k * ?sl + ?sz"
    using s' b' by (simp add: unat_add_no_overflow)
  have win: "window_new (EventTimestamp start) (EventTimestamp (start + sz)) = nth_window ?sz ?sl (Suc k)"
    using unat_u64_eqI [OF Suc.prems(2)] unat_u64_eqI [OF e] by (simp add: nth_window_def)
  note IH = Suc.IH [OF Suc.prems(1) s' b']
  have stop: "filter (\<lambda>j. unat ts < j * ?sl + ?sz) [0..<Suc k] = []"
    if "k * ?sl + ?sz \<le> unat ts"
  proof -
    have "j * ?sl + ?sz \<le> unat ts" if "j < Suc k" for j
      using \<open>k * ?sl + ?sz \<le> unat ts\<close> mult_le_mono1 [of j k ?sl] that by linarith
    then show ?thesis by (auto simp: filter_empty_conv linorder_not_less simp del: upt_Suc)
  qed
  have ca: "checked_add start sz = Ok (start + sz)"
    "checked_add (start - slide) sz = Ok (start - slide + sz)"
    using Suc.prems(2,3) s' b' by (simp_all add: checked_add_def)
  have split: "[0..<Suc (Suc k)] = [0..<Suc k] @ [Suc k]" by simp
  show ?case
  proof (cases "start - slide + sz \<le> ts")
    case True
    then have "k * ?sl + ?sz \<le> unat ts" using e' by (simp add: word_le_nat_alt)
    from stop [OF this] True show ?thesis
      using Suc.prems(1) nosmall ca win e
      unfolding split
      by (subst sliding_loop.simps) (simp add: word_less_nat_alt Let_def del: upt_Suc)
  next
    case False
    then show ?thesis
      using Suc.prems(1) nosmall ca win e
      unfolding split
      by (subst sliding_loop.simps) (simp add: word_less_nat_alt Let_def IH del: upt_Suc)
  qed
qed

lemma sliding_assign_eq:
  "sliding_assign sz slide t =
     (if slide = 0 then Panic ''attempt to divide by zero''
      else if millis t div unat slide * unat slide + unat sz < 2 ^ 64
      then Ok (windows_of (unat sz) (unat slide) (millis t))
      else Panic ''attempt to add with overflow'')"
proof (cases "slide = 0")
  case True
  then show ?thesis by (simp add: sliding_assign_def checked_div_def)
next
  case False
  let ?s = "as_millis t div slide * slide"
  have s: "unat ?s = millis t div unat slide * unat slide"
    unfolding millis_def by (rule unat_u64_mult_div)
  have eq: "sliding_assign sz slide t =
      bind_res (sliding_loop sz slide (as_millis t) ?s []) (\<lambda>ws. Ok (rev ws))"
    using False by (simp add: sliding_assign_def checked_div_def checked_div_mul Let_def)
  show ?thesis
  proof (cases "millis t div unat slide * unat slide + unat sz < 2 ^ 64")
    case True
    with False show ?thesis
      unfolding eq sliding_loop_eq [OF False s True]
      by (simp add: windows_of_def rev_map millis_def)
  next
    case over: False
    with False s show ?thesis
      unfolding eq by (subst sliding_loop.simps) (simp add: checked_add_def)
  qed
qed

lemma nth_window_contains:
  "k * slide + sz < 2 ^ 64 \<Longrightarrow>
   window_contains (nth_window sz slide k) t \<longleftrightarrow> k * slide \<le> millis t \<and> millis t < k * slide + sz"
  by (simp add: window_contains_def nth_window_def window_new_def ts_simps unat_of_nat_u64
      del: of_nat_mult of_nat_add)

text \<open>The windows of a timestamp, described without the loop: aligned to \<open>slide\<close>, \<open>sz\<close> long, and
  containing it.\<close>

lemma set_windows_of:
  assumes "0 < slide" and "millis t + sz < 2 ^ 64"
  shows "w \<in> set (windows_of sz slide (millis t)) \<longleftrightarrow>
    window_contains w t \<and> slide dvd millis (win_start w) \<and>
    millis (win_end w) = millis (win_start w) + sz"
proof -
  have bound: "k * slide + sz < 2 ^ 64" if "k \<le> millis t div slide" for k
  proof -
    have "k * slide \<le> millis t"
      using that assms(1) by (simp add: less_eq_div_iff_mult_less_eq)
    then show ?thesis using assms(2) by linarith
  qed
  show ?thesis
  proof
    assume "w \<in> set (windows_of sz slide (millis t))"
    then obtain k where k: "k \<le> millis t div slide" "millis t < k * slide + sz"
      and w: "w = nth_window sz slide k"
      by (auto simp: windows_of_def less_Suc_eq_le simp del: upt_Suc)
    have "k * slide \<le> millis t" using k(1) assms(1) by (simp add: less_eq_div_iff_mult_less_eq)
    moreover have "millis (win_start w) = k * slide" "millis (win_end w) = k * slide + sz"
      using bound [OF k(1)] by (simp_all add: w nth_window_def window_new_def ts_simps unat_of_nat_u64
          del: of_nat_mult of_nat_add)
    ultimately show "window_contains w t \<and> slide dvd millis (win_start w) \<and>
        millis (win_end w) = millis (win_start w) + sz"
      using k(2) by (simp add: window_contains_def ts_simps)
  next
    assume a: "window_contains w t \<and> slide dvd millis (win_start w) \<and>
        millis (win_end w) = millis (win_start w) + sz"
    then obtain k where k: "millis (win_start w) = k * slide" by (metis dvd_def mult.commute)
    with a have in_w: "k * slide \<le> millis t" "millis t < k * slide + sz"
      by (simp_all add: window_contains_def ts_simps)
    then have le: "k \<le> millis t div slide" using assms(1) by (simp add: less_eq_div_iff_mult_less_eq)
    have "win_start w = EventTimestamp (word_of_nat (k * slide))"
      "win_end w = EventTimestamp (word_of_nat (k * slide + sz))"
      using a k bound [OF le]
      by (simp_all add: ts_eq_iff ts_simps unat_of_nat_u64 del: of_nat_mult of_nat_add)
    then have "w = nth_window sz slide k" by (simp add: nth_window_def window_new_def)
    then show "w \<in> set (windows_of sz slide (millis t))"
      using in_w le by (auto simp: windows_of_def less_Suc_eq_le simp del: upt_Suc)
  qed
qed

lemma sorted_windows_of:
  assumes "0 < slide" and "millis t + sz < 2 ^ 64"
  shows "sorted_wrt (\<lambda>v w. win_start v < win_start w) (windows_of sz slide (millis t))"
proof -
  let ?ks = "filter (\<lambda>k. millis t < k * slide + sz) [0..<Suc (millis t div slide)]"
  have "sorted_wrt (<) ?ks" by (intro sorted_wrt_filter) (simp del: upt_Suc)
  moreover have "win_start (nth_window sz slide j) < win_start (nth_window sz slide k)"
    if "j \<in> set ?ks" "k \<in> set ?ks" "j < k" for j k
  proof -
    have "k * slide \<le> millis t"
      using that(2) assms(1) by (auto simp: less_Suc_eq_le less_eq_div_iff_mult_less_eq simp del: upt_Suc)
    moreover from that(3) assms(1) have "j * slide < k * slide" by simp
    ultimately have "j * slide < 2 ^ 64" "k * slide < 2 ^ 64" "j * slide < k * slide"
      using millis_bound [of t] by linarith+
    then show ?thesis
      by (simp add: nth_window_def window_new_def ts_simps unat_of_nat_u64 del: of_nat_mult)
  qed
  ultimately show ?thesis
    unfolding windows_of_def sorted_wrt_map by (rule sorted_wrt_mono_rel [rotated]) simp
qed

subsection \<open>Properties\<close>

text \<open>C36. The sliding assigner returns, for a timestamp whose windows end before the largest
  timestamp, exactly the windows that contain it, are as long as the window size and start at a
  multiple of the slide; each once, in increasing order.\<close>

theorem sliding_assign_exact:
  assumes "slide \<noteq> 0" and "millis t + unat sz < 2 ^ 64"
  shows "\<exists>ws. sliding_assign sz slide t = Ok ws \<and>
    (\<forall>w. w \<in> set ws \<longleftrightarrow> window_contains w t \<and> unat slide dvd millis (win_start w) \<and>
       millis (win_end w) = millis (win_start w) + unat sz) \<and>
    sorted_wrt (\<lambda>v w. win_start v < win_start w) ws"
proof -
  have sl: "0 < unat slide" using assms(1) by (simp add: unat_gt_0)
  have "millis t div unat slide * unat slide + unat sz < 2 ^ 64"
    using assms(2) div_times_less_eq_dividend [of "millis t" "unat slide"] by linarith
  with assms(1) have "sliding_assign sz slide t = Ok (windows_of (unat sz) (unat slide) (millis t))"
    unfolding sliding_assign_eq by simp
  then show ?thesis
    using set_windows_of [OF sl assms(2)] sorted_windows_of [OF sl assms(2)] by blast
qed

theorem sliding_assign_exact_witness:
  "\<exists>ws. sliding_assign 10 5 (EventTimestamp 12) = Ok ws \<and>
     window_new (EventTimestamp 5) (EventTimestamp 15) \<in> set ws \<and>
     window_new (EventTimestamp 10) (EventTimestamp 20) \<in> set ws \<and>
     window_new (EventTimestamp 0) (EventTimestamp 10) \<notin> set ws"
  using sliding_assign_exact [of 5 "EventTimestamp 12" 10]
  by (auto simp: ts_simps window_contains_def window_new_def)

text \<open>A tumbling assigner is the sliding assigner whose slide is its size, on every input, the
  panics for a zero size and for a window end past the largest timestamp included.\<close>

lemma tumbling_is_sliding: "tumbling_new d t = sliding_new d d t"
proof -
  let ?n = "unat (duration_ms d)"
  have "filter (\<lambda>k. millis t < k * ?n + ?n) [0..<Suc (millis t div ?n)] = [millis t div ?n]"
    if "0 < ?n"
  proof -
    have "millis t < k * ?n + ?n \<longleftrightarrow> millis t div ?n \<le> k" for k
      using div_less_iff_less_mult [OF that, of "millis t" "Suc k"] by (simp add: less_Suc_eq_le add.commute)
    then show ?thesis by (auto simp: filter_empty_conv)
  qed
  then show ?thesis
    unfolding tumbling_new_def sliding_new_def tumbling_assign_eq sliding_assign_eq
    by (auto simp: windows_of_def unat_gt_0 simp del: upt_Suc)
qed

end
