(* ===== verification/Windowed.thy ===== *)
theory Windowed
  imports Windows Basic_Operators "HOL-Library.Multiset"
begin

text \<open>
  What the three windowed operators share (\<open>flume-core/src/operator/window.rs\<close> and
  \<open>operator/join.rs\<close>): per-(key, window) state in a hash map, the pool of key buffers, the
  evaluation of the trigger at a watermark and the removal of purged windows. The code repeats these
  pieces verbatim in each operator.

  The locale \<open>windowed_operator\<close> is their contract: a record updates the state of its windows, a
  watermark emits what the due windows hold, forwards itself and forgets them. Inside it the result
  of a whole run is proved once: every (key, window) that closes emits exactly once. The order in
  which a hash map is visited is any list with \<open>iterates m ks\<close>.
\<close>

subsection \<open>Shared operations\<close>

record window_key =
  wk_key :: bytes
  wk_window :: window

definition KEY_POOL_CAP :: nat where "KEY_POOL_CAP = 1024"

text \<open>\<open>pool_get\<close> pops a buffer and clears it; \<open>Vec::pop\<close> takes the last.\<close>

definition pool_get :: "bytes list \<Rightarrow> bytes \<times> bytes list" where
  "pool_get pool = (if pool = [] then ([], []) else ([], butlast pool))"

definition pool_put :: "bytes list \<Rightarrow> bytes \<Rightarrow> bytes list" where
  "pool_put pool buf = (if length pool < KEY_POOL_CAP then pool @ [buf] else pool)"

definition record_key_or_pool :: "'a flume_record \<Rightarrow> bytes list \<Rightarrow> bytes \<times> bytes list" where
  "record_key_or_pool rec pool = (case rec_key rec of Some k \<Rightarrow> (k, pool) | None \<Rightarrow> pool_get pool)"

text \<open>The loop over the active windows: the ones to fire, the ones to purge, the trigger after it.\<close>

fun evaluate_trigger :: "'tr trigger \<Rightarrow> 'tr \<Rightarrow> event_timestamp \<Rightarrow> window_key list \<Rightarrow>
    window_key list \<times> window_key list \<times> 'tr" where
  "evaluate_trigger tr s wm [] = ([], [], s)"
| "evaluate_trigger tr s wm (wk # wks) =
     (let (result, s') = on_event_time tr s wm (wk_window wk);
          (to_fire, to_purge, s'') = evaluate_trigger tr s' wm wks
      in (case result of
            Fire \<Rightarrow> (wk # to_fire, to_purge, s'')
          | Purge \<Rightarrow> (to_fire, wk # to_purge, s'')
          | FireAndPurge \<Rightarrow> (wk # to_fire, wk # to_purge, s'')
          | Continue \<Rightarrow> (to_fire, to_purge, s'')))"

fun purge_windows :: "(window_key \<rightharpoonup> 'v) \<Rightarrow> bytes list \<Rightarrow> window_key list \<Rightarrow>
    (window_key \<rightharpoonup> 'v) \<times> bytes list" where
  "purge_windows m pool [] = (m, pool)"
| "purge_windows m pool (wk # wks) =
     (case m wk of
        Some _ \<Rightarrow> purge_windows (m(wk := None)) (pool_put pool (wk_key wk)) wks
      | None \<Rightarrow> purge_windows m pool wks)"

subsection \<open>Their behaviour under the event-time trigger\<close>

lemma fst_pool_get [simp]: "fst (pool_get pool) = []"
  by (simp add: pool_get_def)

definition record_key :: "'a flume_record \<Rightarrow> bytes" where
  "record_key rec = (case rec_key rec of Some k \<Rightarrow> k | None \<Rightarrow> [])"

lemma fst_record_key_or_pool [simp]: "fst (record_key_or_pool rec pool) = record_key rec"
  by (simp add: record_key_or_pool_def record_key_def split: option.split)

lemma pool_put_bound: "length pool \<le> KEY_POOL_CAP \<Longrightarrow> length (pool_put pool buf) \<le> KEY_POOL_CAP"
  by (simp add: pool_put_def)

lemma pool_get_bound: "length (snd (pool_get pool)) \<le> length pool"
  by (simp add: pool_get_def)

lemma purge_windows_map: "fst (purge_windows m pool wks) k = (if k \<in> set wks then None else m k)"
  by (induction wks arbitrary: m pool) (auto split: option.split)

lemma purge_windows_bound: "length pool \<le> KEY_POOL_CAP \<Longrightarrow> length (snd (purge_windows m pool wks)) \<le> KEY_POOL_CAP"
  by (induction m pool wks rule: purge_windows.induct) (auto split: option.split simp: pool_put_bound)

lemma evaluate_event_time_trigger [simp]:
  "evaluate_trigger event_time_trigger s wm wks =
     (filter (\<lambda>wk. win_end (wk_window wk) \<le> wm) wks, filter (\<lambda>wk. win_end (wk_window wk) \<le> wm) wks, s)"
  by (induction wks arbitrary: s) (auto simp: event_time_trigger_def)

lemma checked_sub_one: "0 < millis t \<Longrightarrow> checked_sub (as_millis t) 1 = Ok (as_millis (ts_sub t 1))"
  by (simp add: checked_sub_def ts_sub_def duration_ms_def saturating_sub_def word_le_nat_alt millis_def
      flip: unat_gt_0)

text \<open>The windows due at a watermark, in visiting order, and what is left after them.\<close>

definition due_windows :: "event_timestamp \<Rightarrow> window_key list \<Rightarrow> window_key list" where
  "due_windows wm ks = filter (\<lambda>wk. win_end (wk_window wk) \<le> wm) ks"

subsection \<open>Whole runs\<close>

text \<open>The specification of a run: the values assigned to a window key, whether a watermark has
  passed its end, and the absence of late records.\<close>

definition key_windows :: "window_assigner \<Rightarrow> 'i flume_record \<Rightarrow> window_key set" where
  "key_windows assigner r =
     {wk. wk_key wk = record_key r \<and> (\<exists>ws. assigner (rec_timestamp r) = Ok ws \<and> wk_window wk \<in> set ws)}"

definition records_for :: "window_assigner \<Rightarrow> 'i stream_element list \<Rightarrow> window_key \<Rightarrow> 'i flume_record list" where
  "records_for assigner es wk = filter (\<lambda>r. wk \<in> key_windows assigner r) (records_of es)"

definition passed :: "'i stream_element list \<Rightarrow> window_key \<Rightarrow> bool" where
  "passed es wk \<longleftrightarrow> (\<exists>w. ElemWatermark w \<in> set es \<and> win_end (wk_window wk) \<le> wm_timestamp w)"

definition no_late :: "window_assigner \<Rightarrow> 'i stream_element list \<Rightarrow> bool" where
  "no_late assigner es \<longleftrightarrow>
     (\<forall>pre r post. es = pre @ ElemRecord r # post \<longrightarrow> (\<forall>wk\<in>key_windows assigner r. \<not> passed pre wk))"

definition assigns_ok :: "window_assigner \<Rightarrow> 'i stream_element list \<Rightarrow> bool" where
  "assigns_ok assigner es \<longleftrightarrow>
     (\<forall>r. ElemRecord r \<in> set es \<longrightarrow>
        (\<exists>ws. assigner (rec_timestamp r) = Ok ws \<and> distinct ws \<and> (\<forall>w\<in>set ws. 0 < millis (win_end w))))"

lemma no_late_snoc: "no_late assigner (es @ [e]) \<Longrightarrow> no_late assigner es"
  unfolding no_late_def by (metis append.assoc append_Cons)

lemma no_late_last: "no_late assigner (es @ [ElemRecord r]) \<Longrightarrow> wk \<in> key_windows assigner r \<Longrightarrow> \<not> passed es wk"
  unfolding no_late_def by blast

lemma passed_snoc:
  "passed (es @ [ElemRecord r]) wk = passed es wk"
  "passed (es @ [ElemBarrier b]) wk = passed es wk"
  "passed (es @ [ElemWatermark w]) wk \<longleftrightarrow> passed es wk \<or> win_end (wk_window wk) \<le> wm_timestamp w"
  by (auto simp: passed_def)

lemma records_for_snoc:
  "records_for assigner (es @ [ElemRecord r]) wk =
     records_for assigner es wk @ (if wk \<in> key_windows assigner r then [r] else [])"
  "records_for assigner (es @ [ElemBarrier b]) wk = records_for assigner es wk"
  "records_for assigner (es @ [ElemWatermark w]) wk = records_for assigner es wk"
  by (auto simp: records_for_def)

lemma finite_key_windows: "finite (key_windows assigner r)"
proof (cases "assigner (rec_timestamp r)")
  case (Ok ws)
  then have "key_windows assigner r \<subseteq> (\<lambda>w. \<lparr>wk_key = record_key r, wk_window = w\<rparr>) ` set ws"
    by (auto simp: key_windows_def image_iff) (metis window_key.surjective old.unit.exhaust)
  then show ?thesis by (rule finite_subset) simp
qed (simp_all add: key_windows_def)

lemma finite_records_for: "finite {wk. records_for assigner es wk \<noteq> []}"
proof (rule finite_subset)
  show "{wk. records_for assigner es wk \<noteq> []} \<subseteq> (\<Union>r\<in>set (records_of es). key_windows assigner r)"
    by (auto simp: records_for_def filter_empty_conv)
qed (simp add: finite_key_windows)

lemma set_records_of: "r \<in> set (records_of es) \<longleftrightarrow> ElemRecord r \<in> set es"
  by (induction es rule: records_of.induct) auto

lemma window_ends_positive:
  assumes "assigns_ok assigner es" and "records_for assigner es wk \<noteq> []"
  shows "0 < millis (win_end (wk_window wk))"
proof -
  from assms(2) obtain r where "ElemRecord r \<in> set es" "wk \<in> key_windows assigner r"
    by (auto simp: records_for_def filter_empty_conv set_records_of)
  then show ?thesis using assms(1) by (fastforce simp: assigns_ok_def key_windows_def)
qed

lemma no_late_records_watermark: "no_late assigner (map ElemRecord rs @ [ElemWatermark w])"
  unfolding no_late_def passed_def
proof (intro allI impI ballI notI)
  fix pre r post wk
  assume eq: "map ElemRecord rs @ [ElemWatermark w] = pre @ ElemRecord r # post"
    and ex: "\<exists>w'. ElemWatermark w' \<in> set pre \<and> win_end (wk_window wk) \<le> wm_timestamp w'"
  from arg_cong [OF eq, of butlast] have "map ElemRecord rs = pre @ butlast (ElemRecord r # post)"
    by (simp add: butlast_append)
  then have "set pre \<subseteq> ElemRecord ` set rs" by (metis Un_upper1 set_append set_map)
  with ex show False by auto
qed

lemma ex_order: "\<exists>order. \<forall>m :: 'k \<rightharpoonup> 'v. finite (dom m) \<longrightarrow> iterates m (order m)"
  using ex_iterates by metis

text \<open>One visiting order, fixed but unspecified; results that hold for every order do not use it.\<close>

definition arbitrary_order :: "('k \<rightharpoonup> 'v) \<Rightarrow> 'k list" where
  "arbitrary_order m = (SOME ks. iterates m ks)"

lemma iterates_arbitrary_order: "finite (dom m) \<longrightarrow> iterates m (arbitrary_order m)"
proof
  assume "finite (dom m)"
  then show "iterates m (arbitrary_order m)"
    unfolding arbitrary_order_def by (rule someI_ex [OF ex_iterates])
qed

subsection \<open>The contract of a windowed operator\<close>

text \<open>
  \<open>st\<close> is the hash map inside the operator's state; \<open>start\<close> and \<open>upd\<close> say how a record changes the
  state of a window it belongs to, \<open>emit\<close> what a closing window emits.
\<close>

locale windowed_operator =
  fixes opr :: "('s, 'o test_collector, 'i, 'o) operator"
    and assigner :: window_assigner
    and st :: "'s \<Rightarrow> (window_key \<rightharpoonup> 'st)"
    and start :: 'st
    and upd :: "'st \<Rightarrow> 'i flume_record \<Rightarrow> 'st"
    and emit :: "window_key \<Rightarrow> 'st \<Rightarrow> 'o flume_record list"
  assumes record_step: "assigner (rec_timestamp r) = Ok ws \<Longrightarrow> distinct ws \<Longrightarrow>
      \<exists>s'. process_record opr s r test_collector out = (s', out, Ok ()) \<and>
        (\<forall>wk. st s' wk = (if wk \<in> key_windows assigner r
           then Some (upd (case st s wk of None \<Rightarrow> start | Some x \<Rightarrow> x) r) else st s wk))"
    and watermark_step: "finite (dom (st s)) \<Longrightarrow>
      (\<forall>wk\<in>dom (st s). 0 < millis (win_end (wk_window wk))) \<Longrightarrow>
      \<exists>s' ks. iterates (st s) ks \<and>
        process_watermark opr s w test_collector out =
          (s', out @ map ElemRecord (concat (map (\<lambda>wk. emit wk (the (st s wk)))
             (due_windows (wm_timestamp w) ks))) @ [ElemWatermark w], Ok ()) \<and>
        (\<forall>wk. st s' wk = (if win_end (wk_window wk) \<le> wm_timestamp w then None else st s wk))"
    and barrier_step: "process_barrier opr s b test_collector out = (s, out @ [ElemBarrier b], Ok ())"
begin

text \<open>What a window holds after the stream \<open>es\<close>.\<close>

definition held :: "'i stream_element list \<Rightarrow> window_key \<Rightarrow> 'st" where
  "held es wk = foldl upd start (records_for assigner es wk)"

definition run_inv :: "'i stream_element list \<Rightarrow> 's \<Rightarrow> 'o stream_element list \<Rightarrow> bool" where
  "run_inv es s out \<longleftrightarrow>
     (\<forall>wk. st s wk = (if records_for assigner es wk = [] \<or> passed es wk then None else Some (held es wk))) \<and>
     mset (records_of out) =
       (\<Sum>wk | records_for assigner es wk \<noteq> [] \<and> passed es wk. mset (emit wk (held es wk)))"

lemma held_snoc: "wk \<notin> key_windows assigner r \<Longrightarrow> held (es @ [ElemRecord r]) wk = held es wk"
  "wk \<in> key_windows assigner r \<Longrightarrow> held (es @ [ElemRecord r]) wk = upd (held es wk) r"
  "held (es @ [ElemBarrier b]) wk = held es wk"
  "held (es @ [ElemWatermark w]) wk = held es wk"
  by (simp_all add: held_def records_for_snoc)

lemma run_inv_record:
  assumes "run_inv es s out" and "no_late assigner (es @ [ElemRecord r])"
    and "assigner (rec_timestamp r) = Ok ws" and "distinct ws"
  shows "\<exists>s'. process_record opr s r test_collector out = (s', out, Ok ()) \<and> run_inv (es @ [ElemRecord r]) s' out"
proof -
  from record_step [OF assms(3,4)] obtain s'
    where step: "process_record opr s r test_collector out = (s', out, Ok ())"
      and s': "\<And>wk. st s' wk = (if wk \<in> key_windows assigner r
           then Some (upd (case st s wk of None \<Rightarrow> start | Some x \<Rightarrow> x) r) else st s wk)" by blast
  have fresh: "\<not> passed es wk" if "wk \<in> key_windows assigner r" for wk
    using no_late_last [OF assms(2) that] .
  have st: "st s wk = (if records_for assigner es wk = [] \<or> passed es wk then None else Some (held es wk))" for wk
    using assms(1) by (simp add: run_inv_def)
  have "st s' wk = (if records_for assigner (es @ [ElemRecord r]) wk = [] \<or> passed es wk then None
      else Some (held (es @ [ElemRecord r]) wk))" for wk
    using fresh [of wk] by (cases "wk \<in> key_windows assigner r")
      (auto simp: s' st records_for_snoc held_snoc held_def)
  moreover have "{wk. records_for assigner (es @ [ElemRecord r]) wk \<noteq> [] \<and> passed es wk} =
      {wk. records_for assigner es wk \<noteq> [] \<and> passed es wk}"
    using fresh by (auto simp: records_for_snoc)
  moreover have "held (es @ [ElemRecord r]) wk = held es wk" if "passed es wk" for wk
    using fresh that by (blast intro: held_snoc)
  ultimately show ?thesis
    using assms(1) step by (auto simp: run_inv_def passed_snoc intro!: sum.cong)
qed

lemma run_inv_watermark:
  assumes "run_inv es s out" and "assigns_ok assigner es"
  shows "\<exists>s' out'. process_watermark opr s w test_collector out = (s', out', Ok ()) \<and>
    run_inv (es @ [ElemWatermark w]) s' out'"
proof -
  let ?old = "{wk. records_for assigner es wk \<noteq> [] \<and> passed es wk}"
  let ?new = "{wk. records_for assigner es wk \<noteq> [] \<and> \<not> passed es wk \<and> win_end (wk_window wk) \<le> wm_timestamp w}"
  have st: "st s wk = (if records_for assigner es wk = [] \<or> passed es wk then None else Some (held es wk))" for wk
    using assms(1) by (simp add: run_inv_def)
  have "finite (dom (st s))"
    by (rule finite_subset [OF _ finite_records_for [of assigner es]]) (auto simp: st split: if_splits)
  moreover have "\<forall>wk\<in>dom (st s). 0 < millis (win_end (wk_window wk))"
    using window_ends_positive [OF assms(2)] by (auto simp: st split: if_splits)
  ultimately obtain s' ks where ks: "iterates (st s) ks"
    and step: "process_watermark opr s w test_collector out =
          (s', out @ map ElemRecord (concat (map (\<lambda>wk. emit wk (the (st s wk)))
             (due_windows (wm_timestamp w) ks))) @ [ElemWatermark w], Ok ())"
    and s': "\<And>wk. st s' wk = (if win_end (wk_window wk) \<le> wm_timestamp w then None else st s wk)"
    using watermark_step [of s w out] by blast
  let ?due = "due_windows (wm_timestamp w) ks"
  have due: "set ?due = ?new" "distinct ?due"
    using ks by (auto simp: due_windows_def iterates_def st split: if_splits)
  have emitted: "map (\<lambda>wk. emit wk (the (st s wk))) ?due = map (\<lambda>wk. emit wk (held es wk)) ?due"
    using due(1) by (intro map_cong) (auto simp: st)
  have "mset (concat (map (\<lambda>wk. emit wk (held es wk)) ?due)) = (\<Sum>wk\<leftarrow>?due. mset (emit wk (held es wk)))"
    by (simp add: mset_concat comp_def)
  also have "\<dots> = (\<Sum>wk\<in>?new. mset (emit wk (held es wk)))"
    using due by (metis sum_list_distinct_conv_sum_set)
  finally have new: "mset (concat (map (\<lambda>wk. emit wk (held es wk)) ?due)) =
      (\<Sum>wk\<in>?new. mset (emit wk (held es wk)))" .
  have "finite ?old" "finite ?new" using finite_records_for [of assigner es] by (auto elim: rev_finite_subset)
  then have "(\<Sum>wk\<in>?old \<union> ?new. mset (emit wk (held es wk))) =
      (\<Sum>wk\<in>?old. mset (emit wk (held es wk))) + (\<Sum>wk\<in>?new. mset (emit wk (held es wk)))"
    by (intro sum.union_disjoint) auto
  moreover have "?old \<union> ?new = {wk. records_for assigner es wk \<noteq> [] \<and>
      (passed es wk \<or> win_end (wk_window wk) \<le> wm_timestamp w)}" by auto
  ultimately show ?thesis
    using assms(1) new step unfolding emitted
    by (auto simp: run_inv_def records_for_snoc passed_snoc held_snoc s' st)
qed

lemma run_exactly_once:
  assumes "no_late assigner es" and "assigns_ok assigner es" and "st s0 = Map.empty"
  shows "\<exists>s out. operator_run opr test_collector es s0 [] = (s, out, Ok ()) \<and> run_inv es s out"
  using assms(1,2)
proof (induction es rule: rev_induct)
  case Nil
  show ?case using assms(3) by (simp add: run_inv_def records_for_def)
next
  case (snoc e es)
  from snoc.prems have pre: "no_late assigner es" "assigns_ok assigner es"
    using no_late_snoc by (auto simp: assigns_ok_def)
  with snoc.IH obtain s out where run: "operator_run opr test_collector es s0 [] = (s, out, Ok ())"
    and inv: "run_inv es s out" by blast
  show ?case
  proof (cases e)
    case (ElemRecord r)
    from snoc.prems(2) obtain ws where ws: "assigner (rec_timestamp r) = Ok ws" "distinct ws"
      by (auto simp: ElemRecord assigns_ok_def)
    from run_inv_record [OF inv snoc.prems(1) [unfolded ElemRecord] ws] show ?thesis
      by (auto simp: ElemRecord operator_run_append run)
  next
    case (ElemWatermark w)
    from run_inv_watermark [OF inv pre(2), of w] show ?thesis
      by (auto simp: ElemWatermark operator_run_append run)
  next
    case (ElemBarrier b)
    with inv show ?thesis
      by (simp add: operator_run_append run barrier_step run_inv_def records_for_snoc passed_snoc held_snoc)
  qed
qed

end

end
