(* ===== verification/Window_Operator.thy ===== *)
theory Window_Operator
  imports Windowed
begin

text \<open>
  \<open>flume-core/src/operator/window.rs\<close>: the windowed aggregation. Accumulators live in a hash map
  keyed by (partition key, window); a watermark asks the trigger about every active window, emits the
  results of those that fire and removes those that purge. The order in which the hash map is visited
  is the argument \<open>ks\<close>, any list with \<open>iterates m ks\<close>.
\<close>

subsection \<open>The operator\<close>

record ('acc, 'tr) window_state =
  accumulators :: "window_key \<rightharpoonup> 'acc"
  key_pool :: "bytes list"
  win_trigger :: 'tr

definition window_state_new :: "'tr \<Rightarrow> ('acc, 'tr) window_state" where
  "window_state_new tr = \<lparr>accumulators = Map.empty, key_pool = [], win_trigger = tr\<rparr>"

fun add_to_windows :: "('i, 'acc, 'o) aggregate_function \<Rightarrow> (window_key \<rightharpoonup> 'acc) \<Rightarrow> bytes \<Rightarrow> 'i \<Rightarrow>
    window list \<Rightarrow> (window_key \<rightharpoonup> 'acc)" where
  "add_to_windows agg m key v [] = m"
| "add_to_windows agg m key v (w # ws) =
     add_to_windows agg
       (entry_update m \<lparr>wk_key = key, wk_window = w\<rparr> (create_accumulator agg) (\<lambda>acc. add_value agg acc v)) key v ws"

definition window_process_record :: "window_assigner \<Rightarrow> ('i, 'acc, 'o) aggregate_function \<Rightarrow>
    ('acc, 'tr) window_state \<Rightarrow> 'i flume_record \<Rightarrow> ('acc, 'tr) window_state \<times> unit res" where
  "window_process_record assigner agg s rec =
     (let (key, pool') = record_key_or_pool rec (key_pool s)
      in case assigner (rec_timestamp rec) of
           Ok windows \<Rightarrow>
             (s\<lparr>key_pool := pool', accumulators := add_to_windows agg (accumulators s) key (rec_value rec) windows\<rparr>,
              Ok ())
         | Err e \<Rightarrow> (s\<lparr>key_pool := pool'\<rparr>, Err e)
         | Panic p \<Rightarrow> (s\<lparr>key_pool := pool'\<rparr>, Panic p))"

text \<open>The timestamp of a result is \<open>end - 1\<close>, which underflows for a window that ends at 0.\<close>

fun fire_windows :: "('i, 'acc, 'o) aggregate_function \<Rightarrow> (window_key \<rightharpoonup> 'acc) \<Rightarrow> ('c, 'o) collector \<Rightarrow>
    'c \<Rightarrow> window_key list \<Rightarrow> 'c \<times> unit res" where
  "fire_windows agg m col c [] = (c, Ok ())"
| "fire_windows agg m col c (wk # wks) =
     (case m wk of
        None \<Rightarrow> fire_windows agg m col c wks
      | Some acc \<Rightarrow>
          (case checked_sub (as_millis (win_end (wk_window wk))) 1 of
             Ok t \<Rightarrow>
               and_then
                 (collect col c \<lparr>rec_value = get_result agg acc, rec_timestamp = EventTimestamp t,
                    rec_key = Some (wk_key wk)\<rparr>)
                 (\<lambda>c'. fire_windows agg m col c' wks)
           | Err e \<Rightarrow> (c, Err e)
           | Panic p \<Rightarrow> (c, Panic p)))"

definition window_process_watermark :: "'tr trigger \<Rightarrow> ('i, 'acc, 'o) aggregate_function \<Rightarrow>
    window_key list \<Rightarrow> ('acc, 'tr) window_state \<Rightarrow> watermark \<Rightarrow> ('c, 'o) collector \<Rightarrow> 'c \<Rightarrow>
    ('acc, 'tr) window_state \<times> 'c \<times> unit res" where
  "window_process_watermark tr agg ks s w col c =
     (let (to_fire, to_purge, tr') = evaluate_trigger tr (win_trigger s) (wm_timestamp w) ks;
          s1 = s\<lparr>win_trigger := tr'\<rparr>
      in case fire_windows agg (accumulators s) col c to_fire of
           (c', Ok _) \<Rightarrow>
             (let (m', pool') = purge_windows (accumulators s) (key_pool s) to_purge
              in (s1\<lparr>accumulators := m', key_pool := pool'\<rparr>, collect_watermark col c' w))
         | (c', Err e) \<Rightarrow> (s1, c', Err e)
         | (c', Panic p) \<Rightarrow> (s1, c', Panic p))"

text \<open>The operator, for a hash map that is visited in the order \<open>order\<close>.\<close>

definition window_operator :: "window_assigner \<Rightarrow> 'tr trigger \<Rightarrow> ('i, 'acc, 'o) aggregate_function \<Rightarrow>
    ((window_key \<rightharpoonup> 'acc) \<Rightarrow> window_key list) \<Rightarrow> (('acc, 'tr) window_state, 'c, 'i, 'o) operator" where
  "window_operator assigner tr agg order = \<lparr>
     process_record = (\<lambda>s rec col c. case window_process_record assigner agg s rec of (s', r) \<Rightarrow> (s', c, r)),
     process_watermark = (\<lambda>s w col c. window_process_watermark tr agg (order (accumulators s)) s w col c),
     process_barrier = (\<lambda>s b col c. (s, collect_barrier col c b))\<rparr>"

lemma window_operator_sel [simp]:
  "process_record (window_operator assigner tr agg order) s rec col c =
     (case window_process_record assigner agg s rec of (s', r) \<Rightarrow> (s', c, r))"
  "process_watermark (window_operator assigner tr agg order) s w col c =
     window_process_watermark tr agg (order (accumulators s)) s w col c"
  "process_barrier (window_operator assigner tr agg order) s b col c = (s, collect_barrier col c b)"
  by (simp_all add: window_operator_def)

subsection \<open>The steps, under the event-time trigger\<close>

text \<open>The record a window key emits.\<close>

definition result_record :: "('i, 'acc, 'o) aggregate_function \<Rightarrow> window_key \<Rightarrow> 'acc \<Rightarrow> 'o flume_record" where
  "result_record agg wk acc =
     \<lparr>rec_value = get_result agg acc, rec_timestamp = ts_sub (win_end (wk_window wk)) 1,
      rec_key = Some (wk_key wk)\<rparr>"

lemma fire_windows_collect:
  assumes "\<And>wk. wk \<in> set wks \<Longrightarrow> m wk \<noteq> None \<and> 0 < millis (win_end (wk_window wk))"
  shows "fire_windows agg m col c wks = collect_all col c (map (\<lambda>wk. result_record agg wk (the (m wk))) wks)"
  using assms
proof (induction wks arbitrary: c)
  case (Cons wk wks)
  from Cons.prems [of wk] obtain acc where "m wk = Some acc" "0 < millis (win_end (wk_window wk))" by auto
  with Cons.prems Cons.IH show ?case
    by (simp add: checked_sub_one result_record_def collect_all_Cons del: collect_all.simps(2))
qed simp

lemma add_to_windows_eq:
  assumes "distinct ws"
  shows "add_to_windows agg m key v ws wk =
    (if wk_key wk = key \<and> wk_window wk \<in> set ws
     then Some (add_value agg (case m wk of None \<Rightarrow> create_accumulator agg | Some a \<Rightarrow> a) v) else m wk)"
  using assms
proof (induction ws arbitrary: m)
  case (Cons w ws)
  then show ?case by (cases "wk = \<lparr>wk_key = key, wk_window = w\<rparr>") auto
qed simp

lemma window_watermark_step:
  assumes "iterates (accumulators s) ks"
    and "\<And>wk. wk \<in> dom (accumulators s) \<Longrightarrow> 0 < millis (win_end (wk_window wk))"
  shows "\<exists>pool. window_process_watermark event_time_trigger agg ks s w col c =
    (let (c', r) = collect_all col c (map (\<lambda>wk. result_record agg wk (the (accumulators s wk))) (due_windows (wm_timestamp w) ks))
     in if r = Ok ()
        then (s\<lparr>accumulators := (\<lambda>wk. if win_end (wk_window wk) \<le> wm_timestamp w then None else accumulators s wk),
                key_pool := pool\<rparr>, collect_watermark col c' w)
        else (s, c', r))"
proof -
  let ?due = "due_windows (wm_timestamp w) ks"
  let ?p = "purge_windows (accumulators s) (key_pool s) ?due"
  have ks: "set ks = dom (accumulators s)" using assms(1) by (simp add: iterates_def)
  then have fire: "fire_windows agg (accumulators s) col c ?due =
      collect_all col c (map (\<lambda>wk. result_record agg wk (the (accumulators s wk))) ?due)"
    by (intro fire_windows_collect) (auto simp: due_windows_def assms(2))
  have purge: "fst ?p = (\<lambda>wk. if win_end (wk_window wk) \<le> wm_timestamp w then None else accumulators s wk)"
    using ks by (auto simp: purge_windows_map due_windows_def fun_eq_iff domIff)
  obtain c' r where loop: "collect_all col c
      (map (\<lambda>wk. result_record agg wk (the (accumulators s wk))) ?due) = (c', r)"
    by fastforce
  obtain m' pool' where p: "?p = (m', pool')" by fastforce
  have unit: "s\<lparr>win_trigger := ()\<rparr> = s" by simp
  show ?thesis
    using purge p loop
    by (cases r) (auto simp: window_process_watermark_def fire unit Let_def simp flip: due_windows_def)
qed

lemma window_process_record_step:
  assumes "assigner (rec_timestamp rec) = Ok ws" and "distinct ws"
  shows "\<exists>s'. window_process_record assigner agg s rec = (s', Ok ()) \<and>
    (\<forall>wk. accumulators s' wk = (if wk \<in> key_windows assigner rec
       then Some (add_value agg (case accumulators s wk of None \<Rightarrow> create_accumulator agg | Some a \<Rightarrow> a) (rec_value rec))
       else accumulators s wk))"
proof -
  obtain k pool where "record_key_or_pool rec (key_pool s) = (k, pool)" "k = record_key rec"
    using fst_record_key_or_pool [of rec "key_pool s"] by (cases "record_key_or_pool rec (key_pool s)") auto
  moreover have "wk \<in> key_windows assigner rec \<longleftrightarrow> wk_key wk = record_key rec \<and> wk_window wk \<in> set ws" for wk
    using assms(1) by (auto simp: key_windows_def)
  ultimately show ?thesis
    using assms by (simp add: window_process_record_def add_to_windows_eq)
qed

text \<open>The operator obeys the contract, whatever order the hash map is visited in.\<close>

lemma window_windowed:
  fixes agg :: "('i, 'acc, 'o) aggregate_function"
  assumes "\<forall>m :: window_key \<rightharpoonup> 'acc. finite (dom m) \<longrightarrow> iterates m (order m)"
  shows "windowed_operator (window_operator assigner event_time_trigger agg order) assigner accumulators
    (create_accumulator agg) (\<lambda>acc r. add_value agg acc (rec_value r)) (\<lambda>wk acc. [result_record agg wk acc])"
proof
  fix r :: "'i flume_record" and ws out and s :: "('acc, unit) window_state"
  assume "assigner (rec_timestamp r) = Ok ws" "distinct ws"
  from window_process_record_step [of assigner r ws agg s, OF this] show "\<exists>s'. process_record (window_operator assigner event_time_trigger agg order)
      s r test_collector out = (s', out, Ok ()) \<and>
      (\<forall>wk. accumulators s' wk = (if wk \<in> key_windows assigner r
         then Some (add_value agg (case accumulators s wk of None \<Rightarrow> create_accumulator agg | Some x \<Rightarrow> x) (rec_value r))
         else accumulators s wk))" by force
next
  fix s :: "('acc, unit) window_state" and w out
  assume "finite (dom (accumulators s))" and pos: "\<forall>wk\<in>dom (accumulators s). 0 < millis (win_end (wk_window wk))"
  then have ks: "iterates (accumulators s) (order (accumulators s))" using assms by blast
  from window_watermark_step [OF ks, where agg = agg and w = w and col = test_collector and c = out] pos ks
  show "\<exists>s' ks. iterates (accumulators s) ks \<and>
      process_watermark (window_operator assigner event_time_trigger agg order) s w test_collector out =
        (s', out @ map ElemRecord (concat (map (\<lambda>wk. [result_record agg wk (the (accumulators s wk))])
          (due_windows (wm_timestamp w) ks))) @ [ElemWatermark w], Ok ()) \<and>
      (\<forall>wk. accumulators s' wk = (if win_end (wk_window wk) \<le> wm_timestamp w then None else accumulators s wk))"
    by (force simp: concat_map_singleton comp_def)
qed simp

interpretation window_op: windowed_operator "window_operator assigner event_time_trigger agg arbitrary_order"
    assigner accumulators "create_accumulator agg" "\<lambda>acc r. add_value agg acc (rec_value r)"
    "\<lambda>wk acc. [result_record agg wk acc]"
  by (rule window_windowed) (simp add: iterates_arbitrary_order)

text \<open>The specification of a run: the values assigned to a window key and their aggregate.\<close>

definition values_for :: "window_assigner \<Rightarrow> 'i stream_element list \<Rightarrow> window_key \<Rightarrow> 'i list" where
  "values_for assigner es wk = map rec_value (records_for assigner es wk)"

lemma finite_values_for: "finite {wk. values_for assigner es wk \<noteq> []}"
  by (simp add: values_for_def finite_records_for)

definition aggregate_values :: "('i, 'acc, 'o) aggregate_function \<Rightarrow> 'i list \<Rightarrow> 'acc" where
  "aggregate_values agg vs = foldl (add_value agg) (create_accumulator agg) vs"

subsection \<open>Properties\<close>

text \<open>C30. A watermark emits, for every active (key, window) whose end it has reached, one record with
  the aggregate, the key and the timestamp \<open>end - 1\<close>, then the watermark itself; those windows are
  removed and every other accumulator is kept. When the collector fails no window is removed, and
  what was emitted is a prefix of the results.\<close>

theorem window_watermark_exact:
  assumes "collector_laws col out valid" and "valid c" and "iterates (accumulators s) ks"
    and "\<And>wk. wk \<in> dom (accumulators s) \<Longrightarrow> 0 < millis (win_end (wk_window wk))"
    and "window_process_watermark event_time_trigger agg ks s w col c = (s', c', r)"
  defines "results \<equiv> map (\<lambda>wk. result_record agg wk (the (accumulators s wk)))
      (filter (\<lambda>wk. win_end (wk_window wk) \<le> wm_timestamp w) ks)"
  shows "(r = Ok () \<and> out c' = out c @ map ElemRecord results @ [ElemWatermark w] \<and>
      (\<forall>wk. accumulators s' wk = (if win_end (wk_window wk) \<le> wm_timestamp w then None else accumulators s wk))) \<or>
    ((\<exists>e. r = Err e) \<and> (\<exists>n \<le> length results. out c' = out c @ map ElemRecord (take n results)) \<and>
      (accumulators s' = accumulators s \<or>
       (\<forall>wk. accumulators s' wk = (if win_end (wk_window wk) \<le> wm_timestamp w then None else accumulators s wk))))"
proof -
  note laws = assms(1)
  obtain c1 r1 where loop: "collect_all col c results = (c1, r1)" by fastforce
  obtain pool where step: "(s', c', r) = (if r1 = Ok ()
      then (s\<lparr>accumulators := (\<lambda>wk. if win_end (wk_window wk) \<le> wm_timestamp w then None else accumulators s wk),
              key_pool := pool\<rparr>, collect_watermark col c1 w) else (s, c1, r1))"
    using window_watermark_step [OF assms(3,4), where agg = agg and w = w and col = col and c = c] assms(5) loop
    by (auto simp: results_def due_windows_def)
  have "and_then (collect_all col c results) (\<lambda>c'. collect_watermark col c' w) = (c', r)"
    using loop step by (cases r1) (auto split: if_splits)
  from collector_laws.records_then_watermark [OF laws assms(2) this] step show ?thesis
    by (auto split: if_splits)
qed

text \<open>C1. Over a whole stream without late records, starting from an empty operator and whatever the
  hash map's iteration order, the records emitted are exactly one result per (key, window) that got at
  least one value and whose end some watermark reached: the aggregate of all values of that key whose
  timestamp is assigned to the window, in arrival order. The run never fails.\<close>

theorem window_exactly_once:
  assumes "no_late assigner es" and "assigns_ok assigner es"
    and "\<forall>m :: window_key \<rightharpoonup> 'acc. finite (dom m) \<longrightarrow> iterates m (order m)"
  shows "\<exists>s out. operator_run (window_operator assigner event_time_trigger (agg :: ('i, 'acc, 'o) aggregate_function) order)
      test_collector es (window_state_new ()) [] = (s, out, Ok ()) \<and>
    mset (records_of out) =
      image_mset (\<lambda>wk. result_record agg wk (aggregate_values agg (values_for assigner es wk)))
        (mset_set {wk. values_for assigner es wk \<noteq> [] \<and> passed es wk})"
proof -
  note run = windowed_operator.run_exactly_once [OF window_windowed [OF assms(3), of assigner agg] assms(1,2)]
  have held: "windowed_operator.held assigner (create_accumulator agg) (\<lambda>acc r. add_value agg acc (rec_value r)) es wk =
      aggregate_values agg (values_for assigner es wk)" for wk
    unfolding windowed_operator.held_def [OF window_windowed [OF assms(3), of assigner agg]]
    by (simp add: aggregate_values_def values_for_def foldl_map)
  have "image_mset f (mset_set A) = (\<Sum>x\<in>A. {#f x#})" for f :: "window_key \<Rightarrow> 'o flume_record" and A
    by (induction A rule: infinite_finite_induct) auto
  with run [of "window_state_new ()"] show ?thesis
    unfolding windowed_operator.run_inv_def [OF window_windowed [OF assms(3), of assigner agg]] held
    by (auto simp: window_state_new_def values_for_def)
qed

text \<open>A record that arrives after its window has fired and been removed is not dropped: it opens
  the window again with a fresh accumulator, and the next watermark emits a second, partial, result
  for the same key and window. No lateness bound is consulted.\<close>

lemma late_record_refires:
  assumes "accumulators s wk = None" and "wk \<in> key_windows assigner rec"
    and "assigns_ok assigner [ElemRecord rec]" and "win_end (wk_window wk) \<le> wm"
    and "\<And>k. k \<in> dom (accumulators s) \<Longrightarrow> 0 < millis (win_end (wk_window k))"
    and "window_process_record assigner agg s rec = (s1, r1)" and "iterates (accumulators s1) ks"
    and "window_process_watermark event_time_trigger agg ks s1 (Watermark wm) test_collector out = (s2, out2, r2)"
  shows "r1 = Ok () \<and> r2 = Ok () \<and> accumulators s2 wk = None \<and>
    ElemRecord (result_record agg wk (add_value agg (create_accumulator agg) (rec_value rec))) \<in> set out2"
proof -
  from assms(3) obtain ws where ws: "assigner (rec_timestamp rec) = Ok ws" "distinct ws"
    "\<forall>w\<in>set ws. 0 < millis (win_end w)" by (auto simp: assigns_ok_def)
  obtain k pool where kp: "record_key_or_pool rec (key_pool s) = (k, pool)" "k = record_key rec"
    using fst_record_key_or_pool [of rec "key_pool s"] by (cases "record_key_or_pool rec (key_pool s)") auto
  let ?m = "add_to_windows agg (accumulators s) (record_key rec) (rec_value rec) ws"
  have s1: "r1 = Ok ()" "accumulators s1 = ?m"
    using assms(6) kp ws(1) by (auto simp: window_process_record_def)
  have m: "?m k = (if wk_key k = record_key rec \<and> wk_window k \<in> set ws
      then Some (add_value agg (case accumulators s k of None \<Rightarrow> create_accumulator agg | Some a \<Rightarrow> a) (rec_value rec))
      else accumulators s k)" for k
    by (rule add_to_windows_eq [OF ws(2)])
  have wk: "?m wk = Some (add_value agg (create_accumulator agg) (rec_value rec))"
    using assms(1,2) ws(1) by (auto simp: m key_windows_def)
  have pos: "0 < millis (win_end (wk_window k))" if "k \<in> dom (accumulators s1)" for k
    using that assms(5) [of k, OF domI] ws(3) by (auto simp: s1 m split: if_splits)
  from window_watermark_step [OF assms(7) pos, where agg = agg and w = "Watermark wm" and col = test_collector and c = out]
  obtain p where "window_process_watermark event_time_trigger agg ks s1 (Watermark wm) test_collector out =
      (s1\<lparr>accumulators := (\<lambda>wk. if win_end (wk_window wk) \<le> wm then None else accumulators s1 wk), key_pool := p\<rparr>,
       out @ map ElemRecord (map (\<lambda>wk. result_record agg wk (the (accumulators s1 wk))) (due_windows wm ks))
         @ [ElemWatermark (Watermark wm)], Ok ())"
    by auto
  with assms(8) have out2: "out2 = out @ map ElemRecord (map (\<lambda>wk. result_record agg wk (the (accumulators s1 wk))) (due_windows wm ks))
         @ [ElemWatermark (Watermark wm)]" and r2: "r2 = Ok ()" and s2: "accumulators s2 wk = None"
    using assms(4) by auto
  have "wk \<in> set (due_windows wm ks)"
    using assms(4,7) wk s1 by (auto simp: due_windows_def iterates_def)
  then show ?thesis using wk s1 r2 s2 by (force simp: out2)
qed

subsection \<open>Witnesses\<close>

lemma tumbling_10: "tumbling_assign 10 (EventTimestamp 3) = Ok [window_new (EventTimestamp 0) (EventTimestamp 10)]"
  by (simp add: tumbling_assign_eq nth_window_def ts_simps)

theorem window_watermark_exact_witness:
  "\<exists>s' c' r. window_process_watermark event_time_trigger sum_aggregate
      [\<lparr>wk_key = [1], wk_window = window_new (EventTimestamp 0) (EventTimestamp 10)\<rparr>]
      \<lparr>accumulators = [\<lparr>wk_key = [1], wk_window = window_new (EventTimestamp 0) (EventTimestamp 10)\<rparr> \<mapsto> 12],
        key_pool = [], win_trigger = ()\<rparr> (Watermark (EventTimestamp 10)) test_collector [] = (s', c', r) \<and>
     c' = [ElemRecord \<lparr>rec_value = 12, rec_timestamp = EventTimestamp 9, rec_key = Some [1]\<rparr>,
           ElemWatermark (Watermark (EventTimestamp 10))]"
proof -
  let ?wk = "\<lparr>wk_key = [1], wk_window = window_new (EventTimestamp 0) (EventTimestamp 10)\<rparr>"
  let ?s = "\<lparr>accumulators = [?wk \<mapsto> 12], key_pool = [], win_trigger = ()\<rparr>"
  obtain s' c' r where call: "window_process_watermark event_time_trigger sum_aggregate [?wk] ?s
      (Watermark (EventTimestamp 10)) test_collector [] = (s', c', r)" by (metis prod_cases3)
  have it: "iterates (accumulators ?s) [?wk]" by (simp add: iterates_def)
  have pos: "\<And>wk. wk \<in> dom (accumulators ?s) \<Longrightarrow> 0 < millis (win_end (wk_window wk))"
    by (auto simp: window_new_def ts_simps split: if_splits)
  have due: "filter (\<lambda>wk. win_end (wk_window wk) \<le> EventTimestamp 10) [?wk] = [?wk]"
    by (simp add: window_new_def)
  have res: "result_record sum_aggregate ?wk 12 =
      \<lparr>rec_value = 12, rec_timestamp = EventTimestamp 9, rec_key = Some [1]\<rparr>"
    by (simp add: result_record_def sum_aggregate_def window_new_def ts_sub_def duration_ms_def saturating_sub_def)
  have ok: "r = Ok ()"
    using window_watermark_step [OF it pos, where agg = sum_aggregate and w = "Watermark (EventTimestamp 10)"
        and col = test_collector and c = "[]"] call by auto
  from window_watermark_exact [OF test_col.collector_laws_axioms TrueI it pos call] ok
  have "c' = [ElemRecord \<lparr>rec_value = 12, rec_timestamp = EventTimestamp 9, rec_key = Some [1]\<rparr>,
      ElemWatermark (Watermark (EventTimestamp 10))]"
    using due res by (simp add: window_new_def split: if_splits)
  with call show ?thesis by blast
qed

theorem window_exactly_once_witness:
  "\<exists>order s out. operator_run (window_operator (tumbling_assign 10) event_time_trigger sum_aggregate order)
      test_collector [ElemRecord (with_key (record_new 5 (EventTimestamp 3)) [1]),
        ElemRecord (with_key (record_new 7 (EventTimestamp 3)) [1]), ElemWatermark (Watermark (EventTimestamp 10))]
      (window_state_new ()) [] = (s, out, Ok ()) \<and>
    result_record sum_aggregate \<lparr>wk_key = [1], wk_window = window_new (EventTimestamp 0) (EventTimestamp 10)\<rparr> 12
      \<in># mset (records_of out)"
proof -
  let ?rs = "[with_key (record_new (5::int) (EventTimestamp 3)) [1], with_key (record_new 7 (EventTimestamp 3)) [1]]"
  let ?es = "map ElemRecord ?rs @ [ElemWatermark (Watermark (EventTimestamp 10))]"
  let ?wk = "\<lparr>wk_key = [1], wk_window = window_new (EventTimestamp 0) (EventTimestamp 10)\<rparr>"
  obtain order where ord: "\<forall>m :: window_key \<rightharpoonup> int. finite (dom m) \<longrightarrow> iterates m (order m)"
    using ex_order by metis
  have ok: "assigns_ok (tumbling_assign 10) ?es"
    by (auto simp: assigns_ok_def tumbling_10 window_new_def ts_simps)
  have v: "values_for (tumbling_assign 10) ?es ?wk = [5, 7]"
    by (simp add: values_for_def records_for_def key_windows_def tumbling_10 record_key_def)
  have p: "passed ?es ?wk" by (simp add: passed_def window_new_def)
  from window_exactly_once [OF no_late_records_watermark ok ord, of sum_aggregate]
  obtain s out where run: "operator_run (window_operator (tumbling_assign 10) event_time_trigger sum_aggregate order)
      test_collector ?es (window_state_new ()) [] = (s, out, Ok ())"
    and out: "mset (records_of out) =
      image_mset (\<lambda>wk. result_record sum_aggregate wk (aggregate_values sum_aggregate (values_for (tumbling_assign 10) ?es wk)))
        (mset_set {wk. values_for (tumbling_assign 10) ?es wk \<noteq> [] \<and> passed ?es wk})"
    by blast
  have wk: "?wk \<in># mset_set {wk. values_for (tumbling_assign 10) ?es wk \<noteq> [] \<and> passed ?es wk}"
    using v p finite_values_for [of "tumbling_assign 10" ?es] by (simp del: map_append append.simps list.map)
  have twelve: "aggregate_values sum_aggregate [5, 7] = 12" by (simp add: aggregate_values_def sum_aggregate_def)
  have "result_record sum_aggregate ?wk 12 \<in># mset (records_of out)"
    unfolding out set_image_mset using wk v twelve by (intro image_eqI [of _ _ ?wk]) simp_all
  with run show ?thesis by auto
qed

lemma late_record_refires_example:
  "\<exists>s1 s2 out2. window_process_record (tumbling_assign 10) sum_aggregate (window_state_new ())
      (with_key (record_new 5 (EventTimestamp 3)) [1]) = (s1, Ok ()) \<and>
    window_process_watermark event_time_trigger sum_aggregate
      [\<lparr>wk_key = [1], wk_window = window_new (EventTimestamp 0) (EventTimestamp 10)\<rparr>] s1
      (Watermark (EventTimestamp 50)) test_collector [ElemWatermark (Watermark (EventTimestamp 50))] = (s2, out2, Ok ()) \<and>
    (\<exists>r. ElemRecord r \<in> set out2 \<and> rec_value r = 5)"
proof -
  let ?wk = "\<lparr>wk_key = [1], wk_window = window_new (EventTimestamp 0) (EventTimestamp 10)\<rparr>"
  let ?rec = "with_key (record_new 5 (EventTimestamp 3)) [1]"
  obtain s1 r1 where c1: "window_process_record (tumbling_assign 10) sum_aggregate (window_state_new ()) ?rec = (s1, r1)"
    by fastforce
  obtain s2 out2 r2 where c2: "window_process_watermark event_time_trigger sum_aggregate [?wk] s1
      (Watermark (EventTimestamp 50)) test_collector [ElemWatermark (Watermark (EventTimestamp 50))] = (s2, out2, r2)"
    by (metis prod_cases3)
  have kw: "?wk \<in> key_windows (tumbling_assign 10) ?rec"
    by (simp add: key_windows_def tumbling_10 record_key_def)
  have ok: "assigns_ok (tumbling_assign 10) [ElemRecord ?rec]"
    by (simp add: assigns_ok_def tumbling_10 window_new_def ts_simps)
  have it: "iterates (accumulators s1) [?wk]"
  proof -
    have "accumulators s1 = entry_update Map.empty ?wk (create_accumulator sum_aggregate)
        (\<lambda>acc. add_value sum_aggregate acc 5)"
      using c1 by (auto simp: window_process_record_def tumbling_10 window_state_new_def record_key_or_pool_def)
    then show ?thesis by (simp only: iterates_def dom_entry_update) simp
  qed
  have none: "accumulators (window_state_new () :: (int, unit) window_state) ?wk = None"
    and pos: "\<And>k. k \<in> dom (accumulators (window_state_new () :: (int, unit) window_state)) \<Longrightarrow> 0 < millis (win_end (wk_window k))"
    by (simp_all add: window_state_new_def)
  have le: "win_end (wk_window ?wk) \<le> EventTimestamp 50" by (simp add: window_new_def ts_simps)
  from late_record_refires [OF none kw ok le pos c1 it c2] c1 c2 show ?thesis
    by (force simp: result_record_def sum_aggregate_def)
qed

end
