(* ===== verification/Window_Join.thy ===== *)
theory Window_Join
  imports Windowed
begin

text \<open>
  \<open>flume-core/src/operator/join.rs\<close> and \<open>flume-core/src/join.rs\<close>: the window join (the cross product
  of the two sides of every (key, window) that fires) and the window cogroup. Both buffer the records
  of the two inputs per (key, window); the join keeps their timestamps. The join and cogroup functions
  are closures with state \<open>'f\<close>. Both operators obey the contract of theory \<open>Windowed\<close>.
\<close>

type_synonym ('f, 'l, 'r, 'o) join_function = "'f \<Rightarrow> 'l \<Rightarrow> 'r \<Rightarrow> 'o \<times> 'f"
type_synonym ('f, 'l, 'r, 'o) cogroup_function = "'f \<Rightarrow> bytes \<Rightarrow> 'l list \<Rightarrow> 'r list \<Rightarrow> 'o list \<times> 'f"

subsection \<open>Window join\<close>

record ('l, 'r) join_state =
  join_left :: "('l \<times> event_timestamp) list"
  join_right :: "('r \<times> event_timestamp) list"

definition join_state_default :: "('l, 'r) join_state" where
  "join_state_default = \<lparr>join_left = [], join_right = []\<rparr>"

record ('l, 'r, 'tr, 'f) window_join =
  wj_state :: "window_key \<rightharpoonup> ('l, 'r) join_state"
  wj_pool :: "bytes list"
  wj_trigger :: 'tr
  wj_fn :: 'f

definition window_join_new :: "'tr \<Rightarrow> 'f \<Rightarrow> ('l, 'r, 'tr, 'f) window_join" where
  "window_join_new tr f = \<lparr>wj_state = Map.empty, wj_pool = [], wj_trigger = tr, wj_fn = f\<rparr>"

fun join_buffer_left :: "(window_key \<rightharpoonup> ('l, 'r) join_state) \<Rightarrow> bytes \<Rightarrow> 'l \<Rightarrow> event_timestamp \<Rightarrow>
    window list \<Rightarrow> (window_key \<rightharpoonup> ('l, 'r) join_state)" where
  "join_buffer_left m key v t [] = m"
| "join_buffer_left m key v t (w # ws) =
     join_buffer_left
       (entry_update m \<lparr>wk_key = key, wk_window = w\<rparr> join_state_default
         (\<lambda>s. s\<lparr>join_left := join_left s @ [(v, t)]\<rparr>)) key v t ws"

fun join_buffer_right :: "(window_key \<rightharpoonup> ('l, 'r) join_state) \<Rightarrow> bytes \<Rightarrow> 'r \<Rightarrow> event_timestamp \<Rightarrow>
    window list \<Rightarrow> (window_key \<rightharpoonup> ('l, 'r) join_state)" where
  "join_buffer_right m key v t [] = m"
| "join_buffer_right m key v t (w # ws) =
     join_buffer_right
       (entry_update m \<lparr>wk_key = key, wk_window = w\<rparr> join_state_default
         (\<lambda>s. s\<lparr>join_right := join_right s @ [(v, t)]\<rparr>)) key v t ws"

definition join_process_record :: "window_assigner \<Rightarrow> ('l, 'r, 'tr, 'f) window_join \<Rightarrow>
    ('l, 'r) either flume_record \<Rightarrow> ('l, 'r, 'tr, 'f) window_join \<times> unit res" where
  "join_process_record assigner s rec =
     (let (key, pool') = record_key_or_pool rec (wj_pool s);
          timestamp = rec_timestamp rec;
          s' = s\<lparr>wj_pool := pool'\<rparr>
      in case assigner timestamp of
           Ok windows \<Rightarrow>
             (case rec_value rec of
                Left v \<Rightarrow> (s'\<lparr>wj_state := join_buffer_left (wj_state s) key v timestamp windows\<rparr>, Ok ())
              | Right v \<Rightarrow> (s'\<lparr>wj_state := join_buffer_right (wj_state s) key v timestamp windows\<rparr>, Ok ()))
         | Err e \<Rightarrow> (s', Err e)
         | Panic p \<Rightarrow> (s', Panic p))"

text \<open>The three nested loops that emit the cross product: over windows, left and right values.\<close>

fun join_rights :: "('f, 'l, 'r, 'o) join_function \<Rightarrow> ('c, 'o) collector \<Rightarrow> bytes \<Rightarrow> 'l \<times> event_timestamp \<Rightarrow>
    ('r \<times> event_timestamp) list \<Rightarrow> 'f \<Rightarrow> 'c \<Rightarrow> 'f \<times> 'c \<times> unit res" where
  "join_rights jf col key l [] f c = (f, c, Ok ())"
| "join_rights jf col key (lv, lt) ((rv, rt) # rs) f c =
     (let (output, f') = jf f lv rv;
          rec = with_key (record_new output (max lt rt)) key
      in case collect col c rec of
           (c', Ok _) \<Rightarrow> join_rights jf col key (lv, lt) rs f' c'
         | (c', Err e) \<Rightarrow> (f', c', Err e)
         | (c', Panic p) \<Rightarrow> (f', c', Panic p))"

fun join_lefts :: "('f, 'l, 'r, 'o) join_function \<Rightarrow> ('c, 'o) collector \<Rightarrow> bytes \<Rightarrow> ('l \<times> event_timestamp) list \<Rightarrow>
    ('r \<times> event_timestamp) list \<Rightarrow> 'f \<Rightarrow> 'c \<Rightarrow> 'f \<times> 'c \<times> unit res" where
  "join_lefts jf col key [] rs f c = (f, c, Ok ())"
| "join_lefts jf col key (l # ls) rs f c =
     (case join_rights jf col key l rs f c of
        (f', c', Ok _) \<Rightarrow> join_lefts jf col key ls rs f' c'
      | (f', c', Err e) \<Rightarrow> (f', c', Err e)
      | (f', c', Panic p) \<Rightarrow> (f', c', Panic p))"

fun join_fire :: "('f, 'l, 'r, 'o) join_function \<Rightarrow> ('c, 'o) collector \<Rightarrow>
    (window_key \<rightharpoonup> ('l, 'r) join_state) \<Rightarrow> window_key list \<Rightarrow> 'f \<Rightarrow> 'c \<Rightarrow> 'f \<times> 'c \<times> unit res" where
  "join_fire jf col m [] f c = (f, c, Ok ())"
| "join_fire jf col m (wk # wks) f c =
     (case m wk of
        None \<Rightarrow> join_fire jf col m wks f c
      | Some js \<Rightarrow>
          (case join_lefts jf col (wk_key wk) (join_left js) (join_right js) f c of
             (f', c', Ok _) \<Rightarrow> join_fire jf col m wks f' c'
           | (f', c', Err e) \<Rightarrow> (f', c', Err e)
           | (f', c', Panic p) \<Rightarrow> (f', c', Panic p)))"

definition join_process_watermark :: "'tr trigger \<Rightarrow> ('f, 'l, 'r, 'o) join_function \<Rightarrow> window_key list \<Rightarrow>
    ('l, 'r, 'tr, 'f) window_join \<Rightarrow> watermark \<Rightarrow> ('c, 'o) collector \<Rightarrow> 'c \<Rightarrow>
    ('l, 'r, 'tr, 'f) window_join \<times> 'c \<times> unit res" where
  "join_process_watermark tr jf ks s w col c =
     (let (to_fire, to_purge, tr') = evaluate_trigger tr (wj_trigger s) (wm_timestamp w) ks
      in case join_fire jf col (wj_state s) to_fire (wj_fn s) c of
           (f', c', Ok _) \<Rightarrow>
             (let (m', pool') = purge_windows (wj_state s) (wj_pool s) to_purge
              in (s\<lparr>wj_trigger := tr', wj_fn := f', wj_state := m', wj_pool := pool'\<rparr>, collect_watermark col c' w))
         | (f', c', Err e) \<Rightarrow> (s\<lparr>wj_trigger := tr', wj_fn := f'\<rparr>, c', Err e)
         | (f', c', Panic p) \<Rightarrow> (s\<lparr>wj_trigger := tr', wj_fn := f'\<rparr>, c', Panic p))"

definition window_join_operator :: "window_assigner \<Rightarrow> 'tr trigger \<Rightarrow> ('f, 'l, 'r, 'o) join_function \<Rightarrow>
    ((window_key \<rightharpoonup> ('l, 'r) join_state) \<Rightarrow> window_key list) \<Rightarrow>
    (('l, 'r, 'tr, 'f) window_join, 'c, ('l, 'r) either, 'o) operator" where
  "window_join_operator assigner tr jf order = \<lparr>
     process_record = (\<lambda>s rec col c. case join_process_record assigner s rec of (s', r) \<Rightarrow> (s', c, r)),
     process_watermark = (\<lambda>s w col c. join_process_watermark tr jf (order (wj_state s)) s w col c),
     process_barrier = (\<lambda>s b col c. (s, collect_barrier col c b))\<rparr>"

subsection \<open>Window cogroup\<close>

record ('l, 'r) cogroup_state =
  cg_left :: "'l list"
  cg_right :: "'r list"

definition cogroup_state_default :: "('l, 'r) cogroup_state" where
  "cogroup_state_default = \<lparr>cg_left = [], cg_right = []\<rparr>"

record ('l, 'r, 'tr, 'f) window_cogroup =
  wc_state :: "window_key \<rightharpoonup> ('l, 'r) cogroup_state"
  wc_pool :: "bytes list"
  wc_trigger :: 'tr
  wc_fn :: 'f

definition window_cogroup_new :: "'tr \<Rightarrow> 'f \<Rightarrow> ('l, 'r, 'tr, 'f) window_cogroup" where
  "window_cogroup_new tr f = \<lparr>wc_state = Map.empty, wc_pool = [], wc_trigger = tr, wc_fn = f\<rparr>"

fun cogroup_buffer :: "(window_key \<rightharpoonup> ('l, 'r) cogroup_state) \<Rightarrow> bytes \<Rightarrow> ('l, 'r) either \<Rightarrow>
    window list \<Rightarrow> (window_key \<rightharpoonup> ('l, 'r) cogroup_state)" where
  "cogroup_buffer m key v [] = m"
| "cogroup_buffer m key v (w # ws) =
     cogroup_buffer
       (entry_update m \<lparr>wk_key = key, wk_window = w\<rparr> cogroup_state_default
         (\<lambda>s. case v of Left l \<Rightarrow> s\<lparr>cg_left := cg_left s @ [l]\<rparr> | Right r \<Rightarrow> s\<lparr>cg_right := cg_right s @ [r]\<rparr>))
       key v ws"

definition cogroup_process_record :: "window_assigner \<Rightarrow> ('l, 'r, 'tr, 'f) window_cogroup \<Rightarrow>
    ('l, 'r) either flume_record \<Rightarrow> ('l, 'r, 'tr, 'f) window_cogroup \<times> unit res" where
  "cogroup_process_record assigner s rec =
     (let (key, pool') = record_key_or_pool rec (wc_pool s);
          s' = s\<lparr>wc_pool := pool'\<rparr>
      in case assigner (rec_timestamp rec) of
           Ok windows \<Rightarrow> (s'\<lparr>wc_state := cogroup_buffer (wc_state s) key (rec_value rec) windows\<rparr>, Ok ())
         | Err e \<Rightarrow> (s', Err e)
         | Panic p \<Rightarrow> (s', Panic p))"

text \<open>\<open>emit_results\<close> of \<open>flume-core/src/join.rs\<close>.\<close>

fun emit_results :: "('c, 'o) collector \<Rightarrow> 'o list \<Rightarrow> bytes \<Rightarrow> event_timestamp \<Rightarrow> 'c \<Rightarrow> 'c \<times> unit res" where
  "emit_results col [] key t c = (c, Ok ())"
| "emit_results col (v # vs) key t c =
     and_then (collect col c (with_key (record_new v t) key)) (\<lambda>c'. emit_results col vs key t c')"

fun cogroup_fire :: "('f, 'l, 'r, 'o) cogroup_function \<Rightarrow> ('c, 'o) collector \<Rightarrow>
    (window_key \<rightharpoonup> ('l, 'r) cogroup_state) \<Rightarrow> window_key list \<Rightarrow> 'f \<Rightarrow> 'c \<Rightarrow> 'f \<times> 'c \<times> unit res" where
  "cogroup_fire cf col m [] f c = (f, c, Ok ())"
| "cogroup_fire cf col m (wk # wks) f c =
     (case m wk of
        None \<Rightarrow> cogroup_fire cf col m wks f c
      | Some cs \<Rightarrow>
          (let (results, f') = cf f (wk_key wk) (cg_left cs) (cg_right cs)
           in case checked_sub (as_millis (win_end (wk_window wk))) 1 of
                Ok t \<Rightarrow>
                  (case emit_results col results (wk_key wk) (EventTimestamp t) c of
                     (c', Ok _) \<Rightarrow> cogroup_fire cf col m wks f' c'
                   | (c', Err e) \<Rightarrow> (f', c', Err e)
                   | (c', Panic p) \<Rightarrow> (f', c', Panic p))
              | Err e \<Rightarrow> (f', c, Err e)
              | Panic p \<Rightarrow> (f', c, Panic p)))"

definition cogroup_process_watermark :: "'tr trigger \<Rightarrow> ('f, 'l, 'r, 'o) cogroup_function \<Rightarrow> window_key list \<Rightarrow>
    ('l, 'r, 'tr, 'f) window_cogroup \<Rightarrow> watermark \<Rightarrow> ('c, 'o) collector \<Rightarrow> 'c \<Rightarrow>
    ('l, 'r, 'tr, 'f) window_cogroup \<times> 'c \<times> unit res" where
  "cogroup_process_watermark tr cf ks s w col c =
     (let (to_fire, to_purge, tr') = evaluate_trigger tr (wc_trigger s) (wm_timestamp w) ks
      in case cogroup_fire cf col (wc_state s) to_fire (wc_fn s) c of
           (f', c', Ok _) \<Rightarrow>
             (let (m', pool') = purge_windows (wc_state s) (wc_pool s) to_purge
              in (s\<lparr>wc_trigger := tr', wc_fn := f', wc_state := m', wc_pool := pool'\<rparr>, collect_watermark col c' w))
         | (f', c', Err e) \<Rightarrow> (s\<lparr>wc_trigger := tr', wc_fn := f'\<rparr>, c', Err e)
         | (f', c', Panic p) \<Rightarrow> (s\<lparr>wc_trigger := tr', wc_fn := f'\<rparr>, c', Panic p))"

definition window_cogroup_operator :: "window_assigner \<Rightarrow> 'tr trigger \<Rightarrow> ('f, 'l, 'r, 'o) cogroup_function \<Rightarrow>
    ((window_key \<rightharpoonup> ('l, 'r) cogroup_state) \<Rightarrow> window_key list) \<Rightarrow>
    (('l, 'r, 'tr, 'f) window_cogroup, 'c, ('l, 'r) either, 'o) operator" where
  "window_cogroup_operator assigner tr cf order = \<lparr>
     process_record = (\<lambda>s rec col c. case cogroup_process_record assigner s rec of (s', r) \<Rightarrow> (s', c, r)),
     process_watermark = (\<lambda>s w col c. cogroup_process_watermark tr cf (order (wc_state s)) s w col c),
     process_barrier = (\<lambda>s b col c. (s, collect_barrier col c b))\<rparr>"

subsection \<open>Both obey the contract of windowed operators\<close>

definition pure_join :: "('l \<Rightarrow> 'r \<Rightarrow> 'o) \<Rightarrow> (unit, 'l, 'r, 'o) join_function" where
  "pure_join jf = (\<lambda>_ l r. (jf l r, ()))"

definition pure_cogroup :: "(bytes \<Rightarrow> 'l list \<Rightarrow> 'r list \<Rightarrow> 'o list) \<Rightarrow> (unit, 'l, 'r, 'o) cogroup_function" where
  "pure_cogroup cf = (\<lambda>_ k ls rs. (cf k ls rs, ()))"

text \<open>What a window emits: the cross product, left-major; the cogroup's results.\<close>

definition cross_product :: "('l \<Rightarrow> 'r \<Rightarrow> 'o) \<Rightarrow> window_key \<Rightarrow> ('l, 'r) join_state \<Rightarrow> 'o flume_record list" where
  "cross_product jf wk js =
     concat (map (\<lambda>(lv, lt). map (\<lambda>(rv, rt). with_key (record_new (jf lv rv) (max lt rt)) (wk_key wk)) (join_right js))
       (join_left js))"

definition cogroup_results :: "(bytes \<Rightarrow> 'l list \<Rightarrow> 'r list \<Rightarrow> 'o list) \<Rightarrow> window_key \<Rightarrow> ('l, 'r) cogroup_state \<Rightarrow>
    'o flume_record list" where
  "cogroup_results cf wk cs =
     map (\<lambda>v. with_key (record_new v (ts_sub (win_end (wk_window wk)) 1)) (wk_key wk)) (cf (wk_key wk) (cg_left cs) (cg_right cs))"

definition join_add :: "('l, 'r) join_state \<Rightarrow> ('l, 'r) either flume_record \<Rightarrow> ('l, 'r) join_state" where
  "join_add js rec = (case rec_value rec of
     Left v \<Rightarrow> js\<lparr>join_left := join_left js @ [(v, rec_timestamp rec)]\<rparr>
   | Right v \<Rightarrow> js\<lparr>join_right := join_right js @ [(v, rec_timestamp rec)]\<rparr>)"

definition cogroup_add :: "('l, 'r) cogroup_state \<Rightarrow> ('l, 'r) either flume_record \<Rightarrow> ('l, 'r) cogroup_state" where
  "cogroup_add cs rec = (case rec_value rec of
     Left v \<Rightarrow> cs\<lparr>cg_left := cg_left cs @ [v]\<rparr> | Right v \<Rightarrow> cs\<lparr>cg_right := cg_right cs @ [v]\<rparr>)"

lemma join_rights_pure:
  "join_rights (pure_join jf) col key (lv, lt) rs () c =
     ((), collect_all col c (map (\<lambda>(rv, rt). with_key (record_new (jf lv rv) (max lt rt)) key) rs))"
  by (induction rs arbitrary: c) (auto simp: pure_join_def split: prod.splits res.splits)

lemma join_lefts_pure:
  "join_lefts (pure_join jf) col key ls rs () c =
     ((), collect_all col c (concat (map (\<lambda>(lv, lt). map (\<lambda>(rv, rt). with_key (record_new (jf lv rv) (max lt rt)) key) rs) ls)))"
  by (induction ls arbitrary: c)
    (auto simp: join_rights_pure collect_all_append and_then_def split: prod.splits res.splits)

lemma join_fire_pure:
  "set wks \<subseteq> dom m \<Longrightarrow> join_fire (pure_join jf) col m wks () c =
     ((), collect_all col c (concat (map (\<lambda>wk. cross_product jf wk (the (m wk))) wks)))"
  by (induction wks arbitrary: c)
    (auto simp: join_lefts_pure cross_product_def collect_all_append and_then_def split: prod.splits res.splits)

lemma emit_results_eq:
  "emit_results col vs key t c = collect_all col c (map (\<lambda>v. with_key (record_new v t) key) vs)"
  by (induction vs arbitrary: c) (auto simp: and_then_def split: prod.splits res.splits)

lemma cogroup_fire_pure:
  assumes "\<And>wk. wk \<in> set wks \<Longrightarrow> m wk \<noteq> None \<and> 0 < millis (win_end (wk_window wk))"
  shows "cogroup_fire (pure_cogroup cf) col m wks () c =
     ((), collect_all col c (concat (map (\<lambda>wk. cogroup_results cf wk (the (m wk))) wks)))"
  using assms
proof (induction wks arbitrary: c)
  case (Cons wk wks)
  from Cons.prems [of wk] obtain cs where "m wk = Some cs" "0 < millis (win_end (wk_window wk))" by auto
  with Cons.prems Cons.IH show ?case
    by (auto simp: checked_sub_one pure_cogroup_def emit_results_eq cogroup_results_def collect_all_append
        and_then_def split: prod.splits res.splits)
qed simp

lemma join_buffer_eq:
  assumes "distinct ws"
  shows "join_buffer_left m key v t ws wk =
      (if wk_key wk = key \<and> wk_window wk \<in> set ws
       then Some ((case m wk of None \<Rightarrow> join_state_default | Some s \<Rightarrow> s)
         \<lparr>join_left := join_left (case m wk of None \<Rightarrow> join_state_default | Some s \<Rightarrow> s) @ [(v, t)]\<rparr>) else m wk)"
    and "join_buffer_right m key v' t ws wk =
      (if wk_key wk = key \<and> wk_window wk \<in> set ws
       then Some ((case m wk of None \<Rightarrow> join_state_default | Some s \<Rightarrow> s)
         \<lparr>join_right := join_right (case m wk of None \<Rightarrow> join_state_default | Some s \<Rightarrow> s) @ [(v', t)]\<rparr>) else m wk)"
  using assms
proof (induction ws arbitrary: m)
  case (Cons w ws)
  { case 1 then show ?case using Cons by (cases "wk = \<lparr>wk_key = key, wk_window = w\<rparr>") auto }
  { case 2 then show ?case using Cons by (cases "wk = \<lparr>wk_key = key, wk_window = w\<rparr>") auto }
qed simp_all

lemma cogroup_buffer_eq:
  assumes "distinct ws"
  shows "cogroup_buffer m key v ws wk =
    (if wk_key wk = key \<and> wk_window wk \<in> set ws
     then Some (let s = (case m wk of None \<Rightarrow> cogroup_state_default | Some s \<Rightarrow> s) in
       case v of Left l \<Rightarrow> s\<lparr>cg_left := cg_left s @ [l]\<rparr> | Right r \<Rightarrow> s\<lparr>cg_right := cg_right s @ [r]\<rparr>) else m wk)"
  using assms
proof (induction ws arbitrary: m)
  case (Cons w ws)
  then show ?case by (cases "wk = \<lparr>wk_key = key, wk_window = w\<rparr>") (auto simp: Let_def)
qed simp

lemma key_windows_iff:
  "assigner (rec_timestamp rec) = Ok ws \<Longrightarrow>
   wk \<in> key_windows assigner rec \<longleftrightarrow> wk_key wk = record_key rec \<and> wk_window wk \<in> set ws"
  by (auto simp: key_windows_def)

lemma record_key_or_pool_obtain: "\<exists>pool'. record_key_or_pool rec pool = (record_key rec, pool')"
  using fst_record_key_or_pool [of rec pool] by (cases "record_key_or_pool rec pool") auto

lemma join_process_record_step:
  assumes "assigner (rec_timestamp rec) = Ok ws" and "distinct ws"
  shows "\<exists>s'. join_process_record assigner s rec = (s', Ok ()) \<and>
    (\<forall>wk. wj_state s' wk = (if wk \<in> key_windows assigner rec
       then Some (join_add (case wj_state s wk of None \<Rightarrow> join_state_default | Some a \<Rightarrow> a) rec) else wj_state s wk))"
proof -
  obtain pool' where "record_key_or_pool rec (wj_pool s) = (record_key rec, pool')"
    using record_key_or_pool_obtain by blast
  then show ?thesis
    using assms
    by (cases "rec_value rec")
      (simp_all add: join_process_record_def join_buffer_eq key_windows_iff join_add_def Let_def)
qed

lemma cogroup_process_record_step:
  assumes "assigner (rec_timestamp rec) = Ok ws" and "distinct ws"
  shows "\<exists>s'. cogroup_process_record assigner s rec = (s', Ok ()) \<and>
    (\<forall>wk. wc_state s' wk = (if wk \<in> key_windows assigner rec
       then Some (cogroup_add (case wc_state s wk of None \<Rightarrow> cogroup_state_default | Some a \<Rightarrow> a) rec) else wc_state s wk))"
proof -
  obtain pool' where "record_key_or_pool rec (wc_pool s) = (record_key rec, pool')"
    using record_key_or_pool_obtain by blast
  then show ?thesis
    using assms by (auto simp: cogroup_process_record_def cogroup_buffer_eq key_windows_iff cogroup_add_def Let_def)
qed

text \<open>The watermark step of both, for any collector.\<close>

lemma due_in_dom: "iterates m ks \<Longrightarrow> set (due_windows wm ks) = {wk \<in> dom m. win_end (wk_window wk) \<le> wm}"
  by (auto simp: due_windows_def iterates_def)

lemma join_watermark_step:
  assumes "iterates (wj_state s) ks"
  shows "\<exists>pool. join_process_watermark event_time_trigger (pure_join jf) ks s w col c =
    (let (c', r) = collect_all col c (concat (map (\<lambda>wk. cross_product jf wk (the (wj_state s wk))) (due_windows (wm_timestamp w) ks)))
     in if r = Ok ()
        then (s\<lparr>wj_state := (\<lambda>wk. if win_end (wk_window wk) \<le> wm_timestamp w then None else wj_state s wk),
                wj_pool := pool\<rparr>, collect_watermark col c' w)
        else (s, c', r))"
proof -
  let ?due = "due_windows (wm_timestamp w) ks"
  let ?p = "purge_windows (wj_state s) (wj_pool s) ?due"
  note due = due_in_dom [OF assms, of "wm_timestamp w"]
  have fire: "join_fire (pure_join jf) col (wj_state s) ?due () c =
      ((), collect_all col c (concat (map (\<lambda>wk. cross_product jf wk (the (wj_state s wk))) ?due)))"
    using due by (intro join_fire_pure) auto
  have purge: "fst ?p = (\<lambda>wk. if win_end (wk_window wk) \<le> wm_timestamp w then None else wj_state s wk)"
    using due by (auto simp: purge_windows_map fun_eq_iff domIff)
  obtain c' r where loop: "collect_all col c
      (concat (map (\<lambda>wk. cross_product jf wk (the (wj_state s wk))) ?due)) = (c', r)" by fastforce
  obtain m' pool' where p: "?p = (m', pool')" by fastforce
  have unit: "s\<lparr>wj_trigger := (), wj_fn := ()\<rparr> = s" by simp
  show ?thesis
    using purge p loop
    by (cases r) (auto simp: join_process_watermark_def fire unit Let_def simp flip: due_windows_def)
qed

lemma cogroup_watermark_step:
  assumes "iterates (wc_state s) ks"
    and "\<And>wk. wk \<in> dom (wc_state s) \<Longrightarrow> 0 < millis (win_end (wk_window wk))"
  shows "\<exists>pool. cogroup_process_watermark event_time_trigger (pure_cogroup cf) ks s w col c =
    (let (c', r) = collect_all col c (concat (map (\<lambda>wk. cogroup_results cf wk (the (wc_state s wk))) (due_windows (wm_timestamp w) ks)))
     in if r = Ok ()
        then (s\<lparr>wc_state := (\<lambda>wk. if win_end (wk_window wk) \<le> wm_timestamp w then None else wc_state s wk),
                wc_pool := pool\<rparr>, collect_watermark col c' w)
        else (s, c', r))"
proof -
  let ?due = "due_windows (wm_timestamp w) ks"
  let ?p = "purge_windows (wc_state s) (wc_pool s) ?due"
  note due = due_in_dom [OF assms(1), of "wm_timestamp w"]
  have fire: "cogroup_fire (pure_cogroup cf) col (wc_state s) ?due () c =
      ((), collect_all col c (concat (map (\<lambda>wk. cogroup_results cf wk (the (wc_state s wk))) ?due)))"
    using due assms(2) by (intro cogroup_fire_pure) auto
  have purge: "fst ?p = (\<lambda>wk. if win_end (wk_window wk) \<le> wm_timestamp w then None else wc_state s wk)"
    using due by (auto simp: purge_windows_map fun_eq_iff domIff)
  obtain c' r where loop: "collect_all col c
      (concat (map (\<lambda>wk. cogroup_results cf wk (the (wc_state s wk))) ?due)) = (c', r)" by fastforce
  obtain m' pool' where p: "?p = (m', pool')" by fastforce
  have unit: "s\<lparr>wc_trigger := (), wc_fn := ()\<rparr> = s" by simp
  show ?thesis
    using purge p loop
    by (cases r) (auto simp: cogroup_process_watermark_def fire unit Let_def simp flip: due_windows_def)
qed

lemma window_join_operator_sel [simp]:
  "process_record (window_join_operator assigner tr jf order) s rec col c =
     (case join_process_record assigner s rec of (s', r) \<Rightarrow> (s', c, r))"
  "process_watermark (window_join_operator assigner tr jf order) s w col c =
     join_process_watermark tr jf (order (wj_state s)) s w col c"
  "process_barrier (window_join_operator assigner tr jf order) s b col c = (s, collect_barrier col c b)"
  "process_record (window_cogroup_operator assigner tr cf order') s' rec col c =
     (case cogroup_process_record assigner s' rec of (s', r) \<Rightarrow> (s', c, r))"
  "process_watermark (window_cogroup_operator assigner tr cf order') s' w col c =
     cogroup_process_watermark tr cf (order' (wc_state s')) s' w col c"
  "process_barrier (window_cogroup_operator assigner tr cf order') s' b col c = (s', collect_barrier col c b)"
  by (simp_all add: window_join_operator_def window_cogroup_operator_def)

lemma join_windowed:
  fixes order :: "(window_key \<rightharpoonup> ('l, 'r) join_state) \<Rightarrow> window_key list"
  assumes "\<forall>m :: window_key \<rightharpoonup> ('l, 'r) join_state. finite (dom m) \<longrightarrow> iterates m (order m)"
  shows "windowed_operator (window_join_operator assigner event_time_trigger (pure_join jf) order) assigner wj_state
    join_state_default join_add (cross_product jf)"
proof
  fix r :: "('l, 'r) either flume_record" and ws out and s :: "('l, 'r, unit, unit) window_join"
  assume a: "assigner (rec_timestamp r) = Ok ws" "distinct ws"
  from join_process_record_step [of assigner r ws s, OF a]
  show "\<exists>s'. process_record (window_join_operator assigner event_time_trigger (pure_join jf) order) s r test_collector out =
      (s', out, Ok ()) \<and> (\<forall>wk. wj_state s' wk = (if wk \<in> key_windows assigner r
         then Some (join_add (case wj_state s wk of None \<Rightarrow> join_state_default | Some x \<Rightarrow> x) r) else wj_state s wk))"
    by force
next
  fix s :: "('l, 'r, unit, unit) window_join" and w out
  assume "finite (dom (wj_state s))"
  then have ks: "iterates (wj_state s) (order (wj_state s))" using assms by blast
  from join_watermark_step [OF ks, where jf = jf and w = w and col = test_collector and c = out] ks
  show "\<exists>s' ks. iterates (wj_state s) ks \<and>
      process_watermark (window_join_operator assigner event_time_trigger (pure_join jf) order) s w test_collector out =
        (s', out @ map ElemRecord (concat (map (\<lambda>wk. cross_product jf wk (the (wj_state s wk)))
          (due_windows (wm_timestamp w) ks))) @ [ElemWatermark w], Ok ()) \<and>
      (\<forall>wk. wj_state s' wk = (if win_end (wk_window wk) \<le> wm_timestamp w then None else wj_state s wk))"
    by force
qed simp

lemma cogroup_windowed:
  fixes order :: "(window_key \<rightharpoonup> ('l, 'r) cogroup_state) \<Rightarrow> window_key list"
  assumes "\<forall>m :: window_key \<rightharpoonup> ('l, 'r) cogroup_state. finite (dom m) \<longrightarrow> iterates m (order m)"
  shows "windowed_operator (window_cogroup_operator assigner event_time_trigger (pure_cogroup cf) order) assigner wc_state
    cogroup_state_default cogroup_add (cogroup_results cf)"
proof
  fix r :: "('l, 'r) either flume_record" and ws out and s :: "('l, 'r, unit, unit) window_cogroup"
  assume a: "assigner (rec_timestamp r) = Ok ws" "distinct ws"
  from cogroup_process_record_step [of assigner r ws s, OF a]
  show "\<exists>s'. process_record (window_cogroup_operator assigner event_time_trigger (pure_cogroup cf) order) s r test_collector out =
      (s', out, Ok ()) \<and> (\<forall>wk. wc_state s' wk = (if wk \<in> key_windows assigner r
         then Some (cogroup_add (case wc_state s wk of None \<Rightarrow> cogroup_state_default | Some x \<Rightarrow> x) r) else wc_state s wk))"
    by force
next
  fix s :: "('l, 'r, unit, unit) window_cogroup" and w out
  assume "finite (dom (wc_state s))" and pos: "\<forall>wk\<in>dom (wc_state s). 0 < millis (win_end (wk_window wk))"
  then have ks: "iterates (wc_state s) (order (wc_state s))" using assms by blast
  from cogroup_watermark_step [OF ks, where cf = cf and w = w and col = test_collector and c = out] ks pos
  show "\<exists>s' ks. iterates (wc_state s) ks \<and>
      process_watermark (window_cogroup_operator assigner event_time_trigger (pure_cogroup cf) order) s w test_collector out =
        (s', out @ map ElemRecord (concat (map (\<lambda>wk. cogroup_results cf wk (the (wc_state s wk)))
          (due_windows (wm_timestamp w) ks))) @ [ElemWatermark w], Ok ()) \<and>
      (\<forall>wk. wc_state s' wk = (if win_end (wk_window wk) \<le> wm_timestamp w then None else wc_state s wk))"
    by force
qed simp

interpretation join_op: windowed_operator "window_join_operator assigner event_time_trigger (pure_join jf) arbitrary_order"
    assigner wj_state join_state_default join_add "cross_product jf"
  by (rule join_windowed) (simp add: iterates_arbitrary_order)

interpretation cogroup_op: windowed_operator
    "window_cogroup_operator assigner event_time_trigger (pure_cogroup cf) arbitrary_order"
    assigner wc_state cogroup_state_default cogroup_add "cogroup_results cf"
  by (rule cogroup_windowed) (simp add: iterates_arbitrary_order)

subsection \<open>Properties\<close>

text \<open>The two sides of a window over a stream: the left and right values assigned to it, in arrival
  order, with their timestamps.\<close>

definition lefts_of :: "('l, 'r) either flume_record list \<Rightarrow> ('l \<times> event_timestamp) list" where
  "lefts_of rs = concat (map (\<lambda>r. case rec_value r of Left v \<Rightarrow> [(v, rec_timestamp r)] | Right _ \<Rightarrow> []) rs)"

definition rights_of :: "('l, 'r) either flume_record list \<Rightarrow> ('r \<times> event_timestamp) list" where
  "rights_of rs = concat (map (\<lambda>r. case rec_value r of Left _ \<Rightarrow> [] | Right v \<Rightarrow> [(v, rec_timestamp r)]) rs)"

lemma foldl_join_add:
  "foldl join_add js rs = \<lparr>join_left = join_left js @ lefts_of rs, join_right = join_right js @ rights_of rs\<rparr>"
  by (induction rs arbitrary: js) (auto simp: lefts_of_def rights_of_def join_add_def split: either.split)

lemma foldl_cogroup_add:
  "foldl cogroup_add cs rs =
     \<lparr>cg_left = cg_left cs @ map fst (lefts_of rs), cg_right = cg_right cs @ map fst (rights_of rs)\<rparr>"
  by (induction rs arbitrary: cs) (auto simp: lefts_of_def rights_of_def cogroup_add_def split: either.split)

text \<open>C21. Over a stream without late records the window join emits, for every (key, window) whose
  end some watermark reached, the join of every left with every right value of that key and window
  exactly once, with the later of the two timestamps and the key, and nothing else; the run never
  fails.\<close>

theorem window_join_exactly_once:
  fixes order :: "(window_key \<rightharpoonup> ('l, 'r) join_state) \<Rightarrow> window_key list"
  assumes "no_late assigner es" and "assigns_ok assigner es"
    and "\<forall>m :: window_key \<rightharpoonup> ('l, 'r) join_state. finite (dom m) \<longrightarrow> iterates m (order m)"
  shows "\<exists>s out. operator_run (window_join_operator assigner event_time_trigger (pure_join jf) order)
      test_collector es (window_join_new () ()) [] = (s, out, Ok ()) \<and>
    mset (records_of out) =
      (\<Sum>wk | records_for assigner es wk \<noteq> [] \<and> passed es wk.
         mset [with_key (record_new (jf lv rv) (max lt rt)) (wk_key wk).
               (lv, lt) \<leftarrow> lefts_of (records_for assigner es wk), (rv, rt) \<leftarrow> rights_of (records_for assigner es wk)])"
proof -
  note op = join_windowed [OF assms(3), of assigner jf]
  have "cross_product jf wk (windowed_operator.held assigner join_state_default join_add es wk) =
      [with_key (record_new (jf lv rv) (max lt rt)) (wk_key wk).
        (lv, lt) \<leftarrow> lefts_of (records_for assigner es wk), (rv, rt) \<leftarrow> rights_of (records_for assigner es wk)]" for wk
    unfolding windowed_operator.held_def [OF op] foldl_join_add
    by (simp add: join_state_default_def cross_product_def split_def concat_map_singleton)
  with windowed_operator.run_exactly_once [OF op assms(1,2), of "window_join_new () ()"] show ?thesis
    unfolding windowed_operator.run_inv_def [OF op] by (auto simp: window_join_new_def)
qed

text \<open>C23. Over a stream without late records the cogroup function is applied exactly once per
  (key, window) that got a record and whose end some watermark reached, to all left and all right
  values in arrival order (either may be empty); its results carry the key and the timestamp
  \<open>end - 1\<close>.\<close>

theorem window_cogroup_exactly_once:
  fixes order :: "(window_key \<rightharpoonup> ('l, 'r) cogroup_state) \<Rightarrow> window_key list"
  assumes "no_late assigner es" and "assigns_ok assigner es"
    and "\<forall>m :: window_key \<rightharpoonup> ('l, 'r) cogroup_state. finite (dom m) \<longrightarrow> iterates m (order m)"
  shows "\<exists>s out. operator_run (window_cogroup_operator assigner event_time_trigger (pure_cogroup cf) order)
      test_collector es (window_cogroup_new () ()) [] = (s, out, Ok ()) \<and>
    mset (records_of out) =
      (\<Sum>wk | records_for assigner es wk \<noteq> [] \<and> passed es wk.
         mset (map (\<lambda>v. with_key (record_new v (ts_sub (win_end (wk_window wk)) 1)) (wk_key wk))
           (cf (wk_key wk) (map fst (lefts_of (records_for assigner es wk))) (map fst (rights_of (records_for assigner es wk))))))"
proof -
  note op = cogroup_windowed [OF assms(3), of assigner cf]
  have "cogroup_results cf wk (windowed_operator.held assigner cogroup_state_default cogroup_add es wk) =
      map (\<lambda>v. with_key (record_new v (ts_sub (win_end (wk_window wk)) 1)) (wk_key wk))
        (cf (wk_key wk) (map fst (lefts_of (records_for assigner es wk))) (map fst (rights_of (records_for assigner es wk))))" for wk
    unfolding windowed_operator.held_def [OF op] foldl_cogroup_add
    by (simp add: cogroup_state_default_def cogroup_results_def)
  with windowed_operator.run_exactly_once [OF op assms(1,2), of "window_cogroup_new () ()"] show ?thesis
    unfolding windowed_operator.run_inv_def [OF op] by (auto simp: window_cogroup_new_def)
qed

subsection \<open>Witnesses\<close>

lemma tumbling_10_3: "tumbling_assign 10 (EventTimestamp 3) = Ok [window_new (EventTimestamp 0) (EventTimestamp 10)]"
  by (simp add: tumbling_assign_eq nth_window_def ts_simps)

definition pair_stream :: "(int, int) either stream_element list" where
  "pair_stream = map ElemRecord
     [with_key (record_new (Left 5) (EventTimestamp 3)) [1], with_key (record_new (Right 7) (EventTimestamp 3)) [1]]
     @ [ElemWatermark (Watermark (EventTimestamp 10))]"

lemma pair_stream_facts:
  defines "wk0 \<equiv> \<lparr>wk_key = [1], wk_window = window_new (EventTimestamp 0) (EventTimestamp 10)\<rparr>"
  shows "no_late (tumbling_assign 10) pair_stream" and "assigns_ok (tumbling_assign 10) pair_stream"
    and "{wk. records_for (tumbling_assign 10) pair_stream wk \<noteq> [] \<and> passed pair_stream wk} = {wk0}"
    and "lefts_of (records_for (tumbling_assign 10) pair_stream wk0) = [(5, EventTimestamp 3)]"
    and "rights_of (records_for (tumbling_assign 10) pair_stream wk0) = [(7, EventTimestamp 3)]"
proof -
  have kw: "wk \<in> key_windows (tumbling_assign 10) (with_key (record_new v (EventTimestamp 3)) [1]) \<longleftrightarrow> wk = wk0"
    for wk and v :: "(int, int) either"
    by (cases wk) (auto simp: key_windows_def tumbling_10_3 record_key_def wk0_def)
  show "no_late (tumbling_assign 10) pair_stream"
    unfolding pair_stream_def by (rule no_late_records_watermark)
  show "assigns_ok (tumbling_assign 10) pair_stream"
    by (auto simp: pair_stream_def assigns_ok_def tumbling_10_3 window_new_def ts_simps)
  show "{wk. records_for (tumbling_assign 10) pair_stream wk \<noteq> [] \<and> passed pair_stream wk} = {wk0}"
    by (auto simp: pair_stream_def records_for_def kw passed_def wk0_def window_new_def)
  show "lefts_of (records_for (tumbling_assign 10) pair_stream wk0) = [(5, EventTimestamp 3)]"
    "rights_of (records_for (tumbling_assign 10) pair_stream wk0) = [(7, EventTimestamp 3)]"
    by (simp_all add: pair_stream_def records_for_def kw lefts_of_def rights_of_def)
qed

theorem window_join_exactly_once_witness:
  "\<exists>order s out. operator_run (window_join_operator (tumbling_assign 10) event_time_trigger (pure_join (+)) order)
      test_collector pair_stream (window_join_new () ()) [] = (s, out, Ok ()) \<and>
    mset (records_of out) = {#with_key (record_new 12 (EventTimestamp 3)) [1]#}"
proof -
  obtain order where ord: "\<forall>m :: window_key \<rightharpoonup> (int, int) join_state. finite (dom m) \<longrightarrow> iterates m (order m)"
    using ex_order by metis
  from window_join_exactly_once [OF pair_stream_facts(1,2) ord, of "(+)"] show ?thesis
    unfolding pair_stream_facts(3) by (auto simp: pair_stream_facts(4,5))
qed

theorem window_cogroup_exactly_once_witness:
  "\<exists>order s out. operator_run (window_cogroup_operator (tumbling_assign 10) event_time_trigger
        (pure_cogroup (\<lambda>k ls rs. [ls @ rs])) order)
      test_collector pair_stream (window_cogroup_new () ()) [] = (s, out, Ok ()) \<and>
    mset (records_of out) = {#with_key (record_new [5, 7] (EventTimestamp 9)) [1]#}"
proof -
  obtain order where ord: "\<forall>m :: window_key \<rightharpoonup> (int, int) cogroup_state. finite (dom m) \<longrightarrow> iterates m (order m)"
    using ex_order by metis
  have "ts_sub (win_end (window_new (EventTimestamp 0) (EventTimestamp 10))) 1 = EventTimestamp 9"
    by (simp add: window_new_def ts_sub_def duration_ms_def saturating_sub_def)
  with window_cogroup_exactly_once [OF pair_stream_facts(1,2) ord, of "\<lambda>k ls rs. [ls @ rs]"]
  show ?thesis
    unfolding pair_stream_facts(3) by (auto simp: pair_stream_facts(4,5))
qed

end
