(* ===== verification/Interval_Join.thy ===== *)
theory Interval_Join
  imports Window_Join
begin

text \<open>
  \<open>flume-core/src/operator/interval_join.rs\<close>: a left record at \<open>t_l\<close> joins the right records of its
  key with \<open>t_l + lower \<le> t_r \<le> t_l + upper\<close>. Each side of a key is a \<open>BTreeMap\<close> from timestamps
  to the values that carry them; a watermark evicts what can no longer match. The abstraction
  \<open>flat\<close> reads a side as a multiset of (timestamp, value) pairs; the main invariant relates it to the
  records of the stream that no watermark has evicted.
\<close>

record ('l, 'r) interval_state =
  is_left :: "(event_timestamp \<times> 'l list) list"
  is_right :: "(event_timestamp \<times> 'r list) list"

definition interval_state_default :: "('l, 'r) interval_state" where
  "interval_state_default = \<lparr>is_left = [], is_right = []\<rparr>"

record ('l, 'r, 'f) interval_join =
  ij_lower :: duration
  ij_upper :: duration
  ij_fn :: 'f
  ij_state :: "bytes \<rightharpoonup> ('l, 'r) interval_state"
  ij_watermark :: event_timestamp

definition interval_join_new :: "duration \<Rightarrow> duration \<Rightarrow> 'f \<Rightarrow> ('l, 'r, 'f) interval_join" where
  "interval_join_new lower upper f =
     \<lparr>ij_lower = lower, ij_upper = upper, ij_fn = f, ij_state = Map.empty, ij_watermark = ts_MIN\<rparr>"

subsection \<open>Records\<close>

text \<open>The two nested loops over a range: \<open>g\<close> joins the new value with a buffered one.\<close>

fun interval_emit_values :: "('f \<Rightarrow> 'x \<Rightarrow> 'o \<times> 'f) \<Rightarrow> ('c, 'o) collector \<Rightarrow> bytes \<Rightarrow> event_timestamp \<Rightarrow>
    'x list \<Rightarrow> 'f \<Rightarrow> 'c \<Rightarrow> 'f \<times> 'c \<times> unit res" where
  "interval_emit_values g col key out_ts [] f c = (f, c, Ok ())"
| "interval_emit_values g col key out_ts (x # xs) f c =
     (let (output, f') = g f x
      in case collect col c (with_key (record_new output out_ts) key) of
           (c', Ok _) \<Rightarrow> interval_emit_values g col key out_ts xs f' c'
         | (c', Err e) \<Rightarrow> (f', c', Err e)
         | (c', Panic p) \<Rightarrow> (f', c', Panic p))"

fun interval_emit_range :: "('f \<Rightarrow> 'x \<Rightarrow> 'o \<times> 'f) \<Rightarrow> ('c, 'o) collector \<Rightarrow> bytes \<Rightarrow> event_timestamp \<Rightarrow>
    (event_timestamp \<times> 'x list) list \<Rightarrow> 'f \<Rightarrow> 'c \<Rightarrow> 'f \<times> 'c \<times> unit res" where
  "interval_emit_range g col key timestamp [] f c = (f, c, Ok ())"
| "interval_emit_range g col key timestamp ((t, xs) # m) f c =
     (case interval_emit_values g col key (max timestamp t) xs f c of
        (f', c', Ok _) \<Rightarrow> interval_emit_range g col key timestamp m f' c'
      | (f', c', Err e) \<Rightarrow> (f', c', Err e)
      | (f', c', Panic p) \<Rightarrow> (f', c', Panic p))"

definition interval_process_record :: "('f, 'l, 'r, 'o) join_function \<Rightarrow> ('l, 'r, 'f) interval_join \<Rightarrow>
    ('l, 'r) either flume_record \<Rightarrow> ('c, 'o) collector \<Rightarrow> 'c \<Rightarrow> ('l, 'r, 'f) interval_join \<times> 'c \<times> unit res" where
  "interval_process_record jf s rec col c =
     (let key = (case rec_key rec of Some k \<Rightarrow> k | None \<Rightarrow> []);
          timestamp = rec_timestamp rec;
          per_key = (case ij_state s key of Some pk \<Rightarrow> pk | None \<Rightarrow> interval_state_default)
      in case rec_value rec of
           Left v \<Rightarrow>
             (let per_key' = per_key\<lparr>is_left := bt_entry (is_left per_key) timestamp [] (\<lambda>vs. vs @ [v])\<rparr>;
                  s' = s\<lparr>ij_state := (ij_state s)(key \<mapsto> per_key')\<rparr>;
                  range_start = ts_add timestamp (ij_lower s);
                  range_end = ts_add timestamp (ij_upper s)
              in case bt_range (is_right per_key') range_start range_end of
                   Ok entries \<Rightarrow>
                     (case interval_emit_range (\<lambda>f rv. jf f v rv) col key timestamp entries (ij_fn s) c of
                        (f', c', r) \<Rightarrow> (s'\<lparr>ij_fn := f'\<rparr>, c', r))
                 | Err e \<Rightarrow> (s', c, Err e)
                 | Panic p \<Rightarrow> (s', c, Panic p))
         | Right v \<Rightarrow>
             (let per_key' = per_key\<lparr>is_right := bt_entry (is_right per_key) timestamp [] (\<lambda>vs. vs @ [v])\<rparr>;
                  s' = s\<lparr>ij_state := (ij_state s)(key \<mapsto> per_key')\<rparr>;
                  range_start = ts_sub timestamp (ij_upper s);
                  range_end = ts_sub timestamp (ij_lower s)
              in case bt_range (is_left per_key') range_start range_end of
                   Ok entries \<Rightarrow>
                     (case interval_emit_range (\<lambda>f lv. jf f lv v) col key timestamp entries (ij_fn s) c of
                        (f', c', r) \<Rightarrow> (s'\<lparr>ij_fn := f'\<rparr>, c', r))
                 | Err e \<Rightarrow> (s', c, Err e)
                 | Panic p \<Rightarrow> (s', c, Panic p)))"

subsection \<open>Watermarks\<close>

text \<open>Remove from one side the timestamps below the cutoff, one by one.\<close>

definition evict_below :: "(event_timestamp \<times> 'x list) list \<Rightarrow> event_timestamp \<Rightarrow> (event_timestamp \<times> 'x list) list" where
  "evict_below m cutoff = foldl bt_remove m (map fst (bt_range_below m cutoff))"

definition evict_key :: "('l, 'r) interval_state \<Rightarrow> event_timestamp \<Rightarrow> ('l, 'r) interval_state" where
  "evict_key pk left_cutoff =
     pk\<lparr>is_left := evict_below (is_left pk) left_cutoff, is_right := evict_below (is_right pk) left_cutoff\<rparr>"

text \<open>Each key is treated on its own, so the order in which the hash map is visited does not matter;
  keys left with nothing are removed.\<close>

definition interval_process_watermark :: "('l, 'r, 'f) interval_join \<Rightarrow> watermark \<Rightarrow> ('c, 'o) collector \<Rightarrow> 'c \<Rightarrow>
    ('l, 'r, 'f) interval_join \<times> 'c \<times> unit res" where
  "interval_process_watermark s w col c =
     (let left_cutoff = ts_sub (wm_timestamp w) (ij_upper s);
          state' = (\<lambda>key. case ij_state s key of
              None \<Rightarrow> None
            | Some pk \<Rightarrow> (let pk' = evict_key pk left_cutoff
                          in if is_left pk' = [] \<and> is_right pk' = [] then None else Some pk'))
      in (s\<lparr>ij_watermark := wm_timestamp w, ij_state := state'\<rparr>, collect_watermark col c w))"

definition interval_join_operator :: "('f, 'l, 'r, 'o) join_function \<Rightarrow>
    (('l, 'r, 'f) interval_join, 'c, ('l, 'r) either, 'o) operator" where
  "interval_join_operator jf = \<lparr>
     process_record = interval_process_record jf,
     process_watermark = interval_process_watermark,
     process_barrier = (\<lambda>s b col c. (s, collect_barrier col c b))\<rparr>"

subsection \<open>Buffers as multisets\<close>

definition flat :: "(event_timestamp \<times> 'x list) list \<Rightarrow> (event_timestamp \<times> 'x) list" where
  "flat m = concat (map (\<lambda>(t, xs). map (\<lambda>x. (t, x)) xs) m)"

lemma flat_simps [simp]: "flat [] = []" "flat ((t, xs) # m) = map (\<lambda>x. (t, x)) xs @ flat m"
  by (simp_all add: flat_def)

lemma mset_flat_entry: "mset (flat (bt_entry m t [] (\<lambda>vs. vs @ [v]))) = add_mset (t, v) (mset (flat m))"
  by (induction m t "[] :: 'a list" "\<lambda>vs. vs @ [v]" rule: bt_entry.induct) auto

lemma flat_filter: "flat (filter (\<lambda>(t, xs). P t) m) = filter (\<lambda>(t, x). P t) (flat m)"
  by (induction m) (auto simp: filter_map comp_def)

lemma foldl_bt_remove: "foldl bt_remove m ks = filter (\<lambda>(k, v). k \<notin> set ks) m"
  by (induction ks arbitrary: m) (auto simp: bt_remove_def split_def intro: filter_cong)

lemma evict_below_eq: "evict_below m cutoff = filter (\<lambda>(t, xs). \<not> t < cutoff) m"
  by (force simp: evict_below_def foldl_bt_remove bt_range_below_def intro!: filter_cong)

lemma interval_emit_pure:
  "interval_emit_values (\<lambda>_ x. (g x, ())) col key t xs () c =
     ((), collect_all col c (map (\<lambda>x. with_key (record_new (g x) t) key) xs))"
  by (induction xs arbitrary: c) (auto split: prod.splits res.splits)

lemma interval_emit_range_pure:
  "interval_emit_range (\<lambda>_ x. (g x, ())) col key timestamp m () c =
     ((), collect_all col c (map (\<lambda>(t, x). with_key (record_new (g x) (max timestamp t)) key) (flat m)))"
  by (induction m arbitrary: c)
    (auto simp: interval_emit_pure collect_all_append and_then_def comp_def split: prod.splits res.splits)

subsection \<open>What a run should emit\<close>

text \<open>The records of each side of a stream, as (key, timestamp, value).\<close>

definition left_records :: "('l, 'r) either stream_element list \<Rightarrow> (bytes \<times> event_timestamp \<times> 'l) list" where
  "left_records es = concat (map (\<lambda>r. case rec_value r of Left v \<Rightarrow> [(record_key r, rec_timestamp r, v)] | Right _ \<Rightarrow> []) (records_of es))"

definition right_records :: "('l, 'r) either stream_element list \<Rightarrow> (bytes \<times> event_timestamp \<times> 'r) list" where
  "right_records es = concat (map (\<lambda>r. case rec_value r of Left _ \<Rightarrow> [] | Right v \<Rightarrow> [(record_key r, rec_timestamp r, v)]) (records_of es))"

definition in_interval :: "nat \<Rightarrow> nat \<Rightarrow> event_timestamp \<Rightarrow> event_timestamp \<Rightarrow> bool" where
  "in_interval lower upper lt rt \<longleftrightarrow> millis lt + lower \<le> millis rt \<and> millis rt \<le> millis lt + upper"

definition interval_matches :: "nat \<Rightarrow> nat \<Rightarrow> ('l \<Rightarrow> 'r \<Rightarrow> 'o) \<Rightarrow> (bytes \<times> event_timestamp \<times> 'l) multiset \<Rightarrow>
    (bytes \<times> event_timestamp \<times> 'r) multiset \<Rightarrow> 'o flume_record multiset" where
  "interval_matches lower upper jf L R =
     (\<Sum>(kl, lt, lv)\<in>#L. \<Sum>(kr, rt, rv)\<in>#R.
        if kl = kr \<and> in_interval lower upper lt rt then {#with_key (record_new (jf lv rv) (max lt rt)) kl#} else {#})"

text \<open>A stream whose records are never behind a watermark; bounds and timestamps whose arithmetic
  stays in 64 bits.\<close>

definition on_time :: "'i stream_element list \<Rightarrow> bool" where
  "on_time es \<longleftrightarrow> (\<forall>pre r post w. es = pre @ ElemRecord r # post \<longrightarrow> ElemWatermark w \<in> set pre \<longrightarrow>
     wm_timestamp w \<le> rec_timestamp r)"

definition in_range :: "nat \<Rightarrow> nat \<Rightarrow> ('l, 'r) either stream_element list \<Rightarrow> bool" where
  "in_range lower upper es \<longleftrightarrow>
     (\<forall>r. ElemRecord r \<in> set es \<longrightarrow> millis (rec_timestamp r) + upper < 2 ^ 64 \<and>
        (\<forall>v. rec_value r = Right v \<longrightarrow> lower \<le> millis (rec_timestamp r)))"

text \<open>Without these conditions the result depends on the order of arrival. A record is gone for those that come after a
  watermark which evicts it; a record behind a watermark stays until the next one. A new record meets the partners that are
  still there and are in its range of timestamps, where a sum stops at the largest timestamp and a difference at zero.\<close>

definition evicted :: "nat \<Rightarrow> 'i stream_element list \<Rightarrow> event_timestamp \<Rightarrow> bool" where
  "evicted upper es t \<longleftrightarrow> (\<exists>w. ElemWatermark w \<in> set es \<and> millis t < millis (wm_timestamp w) - upper)"

fun buffered :: "nat \<Rightarrow> 'i stream_element list \<Rightarrow> 'i flume_record list" where
  "buffered upper [] = []"
| "buffered upper (ElemRecord r # es) =
     (if evicted upper es (rec_timestamp r) then buffered upper es else r # buffered upper es)"
| "buffered upper (e # es) = buffered upper es"

definition pair_up :: "nat \<Rightarrow> nat \<Rightarrow> ('l \<Rightarrow> 'r \<Rightarrow> 'o) \<Rightarrow> ('l, 'r) either flume_record \<Rightarrow>
    ('l, 'r) either flume_record \<Rightarrow> 'o flume_record list" where
  "pair_up lower upper jf r b =
     (let t = millis (rec_timestamp r); u = millis (rec_timestamp b);
          joined = (\<lambda>x. [with_key (record_new x (max (rec_timestamp r) (rec_timestamp b))) (record_key r)])
      in if record_key b = record_key r
         then (case (rec_value r, rec_value b) of
                 (Left x, Right y) \<Rightarrow> if min (t + lower) (2 ^ 64 - 1) \<le> u \<and> u \<le> t + upper then joined (jf x y) else []
               | (Right y, Left x) \<Rightarrow> if t - upper \<le> u \<and> u \<le> t - lower then joined (jf x y) else []
               | _ \<Rightarrow> [])
         else [])"

definition joins_by_arrival :: "nat \<Rightarrow> nat \<Rightarrow> ('l \<Rightarrow> 'r \<Rightarrow> 'o) \<Rightarrow> ('l, 'r) either stream_element list \<Rightarrow> 'o flume_record list" where
  "joins_by_arrival lower upper jf es = concat (map (\<lambda>i. case es ! i of
       ElemRecord r \<Rightarrow> concat (map (pair_up lower upper jf r) (buffered upper (take i es)))
     | _ \<Rightarrow> []) [0..<length es])"

lemma sum_if_image: "(\<Sum>x\<in>#M. if P x then {#f x#} else {#}) = image_mset f (filter_mset P M)"
  by (induction M) auto

lemma interval_matches_left:
  "interval_matches lower upper jf (add_mset (k, t, v) L) R =
     image_mset (\<lambda>(kr, rt, rv). with_key (record_new (jf v rv) (max t rt)) k)
       (filter_mset (\<lambda>(kr, rt, rv). kr = k \<and> in_interval lower upper t rt) R) + interval_matches lower upper jf L R"
proof -
  have "(\<Sum>(kr, rt, rv)\<in>#R. if k = kr \<and> in_interval lower upper t rt
        then {#with_key (record_new (jf v rv) (max t rt)) k#} else {#}) =
      (\<Sum>x\<in>#R. if (case x of (kr, rt, rv) \<Rightarrow> kr = k \<and> in_interval lower upper t rt)
        then {#case x of (kr, rt, rv) \<Rightarrow> with_key (record_new (jf v rv) (max t rt)) k#} else {#})"
    by (intro arg_cong [of _ _ sum_mset] image_mset_cong) (auto split: if_splits)
  then show ?thesis unfolding sum_if_image by (simp add: interval_matches_def)
qed

lemma interval_matches_right:
  "interval_matches lower upper jf L (add_mset (k, t, v) R) =
     image_mset (\<lambda>(kl, lt, lv). with_key (record_new (jf lv v) (max lt t)) k)
       (filter_mset (\<lambda>(kl, lt, lv). kl = k \<and> in_interval lower upper lt t) L) + interval_matches lower upper jf L R"
proof -
  have "interval_matches lower upper jf L (add_mset (k, t, v) R) =
      (\<Sum>(kl, lt, lv)\<in>#L. if kl = k \<and> in_interval lower upper lt t
        then {#with_key (record_new (jf lv v) (max lt t)) kl#} else {#}) + interval_matches lower upper jf L R"
    by (induction L) (auto simp: interval_matches_def)
  also have "(\<Sum>(kl, lt, lv)\<in>#L. if kl = k \<and> in_interval lower upper lt t
        then {#with_key (record_new (jf lv v) (max lt t)) kl#} else {#}) =
      (\<Sum>x\<in>#L. if (case x of (kl, lt, lv) \<Rightarrow> kl = k \<and> in_interval lower upper lt t)
        then {#case x of (kl, lt, lv) \<Rightarrow> with_key (record_new (jf lv v) (max lt t)) k#} else {#})"
    by (intro arg_cong [of _ _ sum_mset] image_mset_cong) (auto split: if_splits)
  finally show ?thesis unfolding sum_if_image .
qed

subsection \<open>The steps into the test collector\<close>

definition key_state :: "('l, 'r, 'f) interval_join \<Rightarrow> bytes \<Rightarrow> ('l, 'r) interval_state" where
  "key_state s k = (case ij_state s k of Some pk \<Rightarrow> pk | None \<Rightarrow> interval_state_default)"

lemma left_step:
  assumes "rec_value rec = Left v" and "ts_add (rec_timestamp rec) (ij_lower s) \<le> ts_add (rec_timestamp rec) (ij_upper s)"
  shows "interval_process_record (pure_join jf) s rec test_collector out =
    (let t = rec_timestamp rec; k = record_key rec; pk = key_state s k in
     (s\<lparr>ij_state := (ij_state s)(k \<mapsto> pk\<lparr>is_left := bt_entry (is_left pk) t [] (\<lambda>vs. vs @ [v])\<rparr>)\<rparr>,
      out @ map ElemRecord (map (\<lambda>(rt, rv). with_key (record_new (jf v rv) (max t rt)) k)
        (filter (\<lambda>(rt, rv). ts_add t (ij_lower s) \<le> rt \<and> rt \<le> ts_add t (ij_upper s)) (flat (is_right pk)))), Ok ()))"
  using assms
  by (simp add: interval_process_record_def bt_range_def Let_def pure_join_def interval_emit_range_pure flat_filter
      key_state_def record_key_def not_less [symmetric])

lemma right_step:
  assumes "rec_value rec = Right v" and "ts_sub (rec_timestamp rec) (ij_upper s) \<le> ts_sub (rec_timestamp rec) (ij_lower s)"
  shows "interval_process_record (pure_join jf) s rec test_collector out =
    (let t = rec_timestamp rec; k = record_key rec; pk = key_state s k in
     (s\<lparr>ij_state := (ij_state s)(k \<mapsto> pk\<lparr>is_right := bt_entry (is_right pk) t [] (\<lambda>vs. vs @ [v])\<rparr>)\<rparr>,
      out @ map ElemRecord (map (\<lambda>(lt, lv). with_key (record_new (jf lv v) (max t lt)) k)
        (filter (\<lambda>(lt, lv). ts_sub t (ij_upper s) \<le> lt \<and> lt \<le> ts_sub t (ij_lower s)) (flat (is_left pk)))), Ok ()))"
  using assms
  by (simp add: interval_process_record_def bt_range_def Let_def pure_join_def interval_emit_range_pure flat_filter
      key_state_def record_key_def not_less [symmetric])

lemma watermark_key_state:
  assumes "interval_process_watermark s w col c = (s', cr)"
  shows "is_left (key_state s' k) = filter (\<lambda>(t, xs). \<not> t < ts_sub (wm_timestamp w) (ij_upper s)) (is_left (key_state s k))"
    and "is_right (key_state s' k) = filter (\<lambda>(t, xs). \<not> t < ts_sub (wm_timestamp w) (ij_upper s)) (is_right (key_state s k))"
  using assms
  by (auto simp: interval_process_watermark_def key_state_def evict_key_def evict_below_eq Let_def
      interval_state_default_def split: option.splits if_splits)

subsection \<open>The invariant of a run\<close>

text \<open>A side of key \<open>k\<close> holds exactly the buffered records of that key.\<close>

definition left_side :: "bytes \<Rightarrow> ('l, 'r) either flume_record list \<Rightarrow> (event_timestamp \<times> 'l) list" where
  "left_side k rs = concat (map (\<lambda>r. case rec_value r of
     Left v \<Rightarrow> if record_key r = k then [(rec_timestamp r, v)] else [] | Right _ \<Rightarrow> []) rs)"

definition right_side :: "bytes \<Rightarrow> ('l, 'r) either flume_record list \<Rightarrow> (event_timestamp \<times> 'r) list" where
  "right_side k rs = concat (map (\<lambda>r. case rec_value r of
     Left _ \<Rightarrow> [] | Right v \<Rightarrow> if record_key r = k then [(rec_timestamp r, v)] else []) rs)"

definition interval_inv :: "nat \<Rightarrow> nat \<Rightarrow> ('l \<Rightarrow> 'r \<Rightarrow> 'o) \<Rightarrow> ('l, 'r) either stream_element list \<Rightarrow>
    ('l, 'r, unit) interval_join \<Rightarrow> 'o stream_element list \<Rightarrow> bool" where
  "interval_inv lower upper jf es s out \<longleftrightarrow>
     ij_lower s = lower \<and> ij_upper s = upper \<and>
     (\<forall>k. mset (flat (is_left (key_state s k))) = mset (left_side k (buffered upper es))) \<and>
     (\<forall>k. mset (flat (is_right (key_state s k))) = mset (right_side k (buffered upper es))) \<and>
     mset (records_of out) = mset (joins_by_arrival lower upper jf es)"

lemma evicted_snoc [simp]:
  "evicted upper (es @ [ElemRecord r]) t = evicted upper es t"
  "evicted upper (es @ [ElemBarrier b]) t = evicted upper es t"
  "evicted upper (es @ [ElemWatermark w]) t \<longleftrightarrow> evicted upper es t \<or> millis t < millis (wm_timestamp w) - upper"
  by (auto simp: evicted_def)

lemma buffered_snoc [simp]:
  "buffered upper (es @ [ElemRecord r]) = buffered upper es @ [r]"
  "buffered upper (es @ [ElemBarrier b]) = buffered upper es"
  "buffered upper (es @ [ElemWatermark w]) =
     filter (\<lambda>r. \<not> millis (rec_timestamp r) < millis (wm_timestamp w) - upper) (buffered upper es)"
  by (induction upper es rule: buffered.induct) (auto simp: evicted_def)

lemma side_simps [simp]:
  "left_side k [] = []" "right_side k [] = []"
  "left_side k (rs @ rs') = left_side k rs @ left_side k rs'" "right_side k (rs @ rs') = right_side k rs @ right_side k rs'"
  "left_side k (r # rs) = (case rec_value r of Left v \<Rightarrow> if record_key r = k then [(rec_timestamp r, v)] else [] | Right _ \<Rightarrow> [])
     @ left_side k rs"
  "right_side k (r # rs) = (case rec_value r of Left _ \<Rightarrow> [] | Right v \<Rightarrow> if record_key r = k then [(rec_timestamp r, v)] else [])
     @ right_side k rs"
  by (simp_all add: left_side_def right_side_def)

lemma side_filter:
  "left_side k (filter (\<lambda>r. P (rec_timestamp r)) rs) = filter (\<lambda>(t, x). P t) (left_side k rs)"
  "right_side k (filter (\<lambda>r. P (rec_timestamp r)) rs) = filter (\<lambda>(t, x). P t) (right_side k rs)"
  by (induction rs) (auto split: either.splits)

lemma joins_by_arrival_snoc:
  "joins_by_arrival lower upper jf (es @ [e]) = joins_by_arrival lower upper jf es @
     (case e of ElemRecord r \<Rightarrow> concat (map (pair_up lower upper jf r) (buffered upper es)) | _ \<Rightarrow> [])"
proof -
  have "concat (map (\<lambda>i. case (es @ [e]) ! i of
       ElemRecord r \<Rightarrow> concat (map (pair_up lower upper jf r) (buffered upper (take i (es @ [e])))) | _ \<Rightarrow> []) [0..<length es]) =
    joins_by_arrival lower upper jf es"
    unfolding joins_by_arrival_def
    by (intro arg_cong [of _ _ concat] map_cong) (auto simp: nth_append split: stream_element.splits)
  then show ?thesis by (subst joins_by_arrival_def) (cases e; simp)
qed

lemma pair_up_side:
  "rec_value r = Left v \<Longrightarrow> concat (map (pair_up lower upper jf r) bs) =
     map (\<lambda>(rt, rv). with_key (record_new (jf v rv) (max (rec_timestamp r) rt)) (record_key r))
       (filter (\<lambda>(rt, rv). min (millis (rec_timestamp r) + lower) (2 ^ 64 - 1) \<le> millis rt \<and>
          millis rt \<le> millis (rec_timestamp r) + upper) (right_side (record_key r) bs))"
  "rec_value r = Right v' \<Longrightarrow> concat (map (pair_up lower upper jf r) bs) =
     map (\<lambda>(lt, lv). with_key (record_new (jf lv v') (max (rec_timestamp r) lt)) (record_key r))
       (filter (\<lambda>(lt, lv). millis (rec_timestamp r) - upper \<le> millis lt \<and>
          millis lt \<le> millis (rec_timestamp r) - lower) (left_side (record_key r) bs))"
  by (induction bs) (auto simp: pair_up_def Let_def split: either.splits)

lemma key_state_update [simp]:
  "key_state (s\<lparr>ij_state := (ij_state s)(k \<mapsto> pk)\<rparr>) k' = (if k' = k then pk else key_state s k')"
  by (simp add: key_state_def)

lemma mset_map_filter_cong:
  "mset xs = mset ys \<Longrightarrow> mset (map f (filter P xs)) = mset (map f (filter P ys))"
  by (simp add: mset_filter)

lemma interval_inv_left:
  assumes inv: "interval_inv lower upper jf es s out" and v: "rec_value r = Left v"
    and bounds: "lower \<le> upper" "upper < 2 ^ 64"
  shows "\<exists>s' out'. interval_process_record (pure_join jf) s r test_collector out = (s', out', Ok ()) \<and>
    interval_inv lower upper jf (es @ [ElemRecord r]) s' out'"
proof -
  let ?t = "rec_timestamp r" and ?k = "record_key r"
  let ?pk = "key_state s ?k"
  have lu: "ij_lower s = lower" "ij_upper s = upper" using inv by (simp_all add: interval_inv_def)
  have range: "ts_add ?t lower \<le> rt \<and> rt \<le> ts_add ?t upper \<longleftrightarrow>
      min (millis ?t + lower) (2 ^ 64 - 1) \<le> millis rt \<and> millis rt \<le> millis ?t + upper" for rt
    using bounds millis_bound [of rt] by (auto simp: ts_simps)
  have le: "ts_add ?t (ij_lower s) \<le> ts_add ?t (ij_upper s)" using bounds by (simp add: lu ts_simps)
  let ?new = "map (\<lambda>(rt, rv). with_key (record_new (jf v rv) (max ?t rt)) ?k)
        (filter (\<lambda>(rt, rv). min (millis ?t + lower) (2 ^ 64 - 1) \<le> millis rt \<and> millis rt \<le> millis ?t + upper) (flat (is_right ?pk)))"
  let ?s = "s\<lparr>ij_state := (ij_state s)(?k \<mapsto> ?pk\<lparr>is_left := bt_entry (is_left ?pk) ?t [] (\<lambda>vs. vs @ [v])\<rparr>)\<rparr>"
  have step: "interval_process_record (pure_join jf) s r test_collector out = (?s, out @ map ElemRecord ?new, Ok ())"
    by (simp add: left_step [OF v le] lu range Let_def)
  have "mset (flat (is_right ?pk)) = mset (right_side ?k (buffered upper es))" using inv by (simp add: interval_inv_def)
  then have "mset ?new = mset (concat (map (pair_up lower upper jf r) (buffered upper es)))"
    unfolding pair_up_side(1) [OF v] by (rule mset_map_filter_cong)
  then show ?thesis
    using inv v unfolding step
    by (auto simp: interval_inv_def joins_by_arrival_snoc mset_flat_entry simp del: mset_map mset_filter map_map mset_concat)
qed

lemma interval_inv_right:
  assumes inv: "interval_inv lower upper jf es s out" and v: "rec_value r = Right v"
    and bounds: "lower \<le> upper" "upper < 2 ^ 64"
  shows "\<exists>s' out'. interval_process_record (pure_join jf) s r test_collector out = (s', out', Ok ()) \<and>
    interval_inv lower upper jf (es @ [ElemRecord r]) s' out'"
proof -
  let ?t = "rec_timestamp r" and ?k = "record_key r"
  let ?pk = "key_state s ?k"
  have lu: "ij_lower s = lower" "ij_upper s = upper" using inv by (simp_all add: interval_inv_def)
  have range: "ts_sub ?t upper \<le> lt \<and> lt \<le> ts_sub ?t lower \<longleftrightarrow>
      millis ?t - upper \<le> millis lt \<and> millis lt \<le> millis ?t - lower" for lt
    using bounds by (simp add: ts_simps)
  have le: "ts_sub ?t (ij_upper s) \<le> ts_sub ?t (ij_lower s)" using bounds by (simp add: lu ts_simps)
  let ?new = "map (\<lambda>(lt, lv). with_key (record_new (jf lv v) (max ?t lt)) ?k)
        (filter (\<lambda>(lt, lv). millis ?t - upper \<le> millis lt \<and> millis lt \<le> millis ?t - lower) (flat (is_left ?pk)))"
  let ?s = "s\<lparr>ij_state := (ij_state s)(?k \<mapsto> ?pk\<lparr>is_right := bt_entry (is_right ?pk) ?t [] (\<lambda>vs. vs @ [v])\<rparr>)\<rparr>"
  have step: "interval_process_record (pure_join jf) s r test_collector out = (?s, out @ map ElemRecord ?new, Ok ())"
    by (simp add: right_step [OF v le] lu range Let_def)
  have "mset (flat (is_left ?pk)) = mset (left_side ?k (buffered upper es))" using inv by (simp add: interval_inv_def)
  then have "mset ?new = mset (concat (map (pair_up lower upper jf r) (buffered upper es)))"
    unfolding pair_up_side(2) [OF v] by (rule mset_map_filter_cong)
  then show ?thesis
    using inv v unfolding step
    by (auto simp: interval_inv_def joins_by_arrival_snoc mset_flat_entry simp del: mset_map mset_filter map_map mset_concat)
qed

lemma interval_inv_watermark:
  assumes "interval_inv lower upper jf es s out" and "upper < 2 ^ 64"
  shows "\<exists>s'. interval_process_watermark s w test_collector out = (s', out @ [ElemWatermark w], Ok ()) \<and>
    interval_inv lower upper jf (es @ [ElemWatermark w]) s' (out @ [ElemWatermark w])"
proof -
  obtain s' where step: "interval_process_watermark s w test_collector out = (s', out @ [ElemWatermark w], Ok ())"
    and bounds: "ij_lower s' = ij_lower s" "ij_upper s' = ij_upper s"
    by (auto simp: interval_process_watermark_def Let_def)
  let ?keep = "\<lambda>t. \<not> millis t < millis (wm_timestamp w) - upper"
  have cutoff: "t < ts_sub (wm_timestamp w) upper \<longleftrightarrow> \<not> ?keep t" for t
    using assms by (simp add: interval_inv_def ts_simps)
  have "mset (flat (is_left (key_state s' k))) = mset (left_side k (buffered upper (es @ [ElemWatermark w])))"
    "mset (flat (is_right (key_state s' k))) = mset (right_side k (buffered upper (es @ [ElemWatermark w])))" for k
    using assms(1) by (simp_all add: watermark_key_state [OF step] cutoff flat_filter side_filter [of _ ?keep] interval_inv_def mset_filter)
  with step bounds assms show ?thesis by (auto simp: interval_inv_def joins_by_arrival_snoc)
qed

lemma interval_join_operator_sel [simp]:
  "process_record (interval_join_operator jf) s rec col c = interval_process_record jf s rec col c"
  "process_watermark (interval_join_operator jf) s w col c = interval_process_watermark s w col c"
  "process_barrier (interval_join_operator jf) s b col c = (s, collect_barrier col c b)"
  by (simp_all add: interval_join_operator_def)

lemma interval_run_inv:
  assumes "lower \<le> upper" and "upper < 2 ^ 64"
  shows "\<exists>s out. operator_run (interval_join_operator (pure_join jf)) test_collector es
      (interval_join_new lower upper ()) [] = (s, out, Ok ()) \<and> interval_inv lower upper jf es s out"
proof (induction es rule: rev_induct)
  case Nil
  show ?case by (simp add: interval_inv_def interval_join_new_def key_state_def interval_state_default_def joins_by_arrival_def)
next
  case (snoc e es)
  then obtain s out where run: "operator_run (interval_join_operator (pure_join jf)) test_collector es
      (interval_join_new lower upper ()) [] = (s, out, Ok ())" and inv: "interval_inv lower upper jf es s out" by blast
  show ?case
  proof (cases e)
    case (ElemRecord r)
    show ?thesis
    proof (cases "rec_value r")
      case (Left v)
      from interval_inv_left [OF inv Left assms] show ?thesis
        by (auto simp: ElemRecord operator_run_append run)
    next
      case (Right v)
      from interval_inv_right [OF inv Right assms] show ?thesis
        by (auto simp: ElemRecord operator_run_append run)
    qed
  next
    case (ElemWatermark w)
    from interval_inv_watermark [OF inv assms(2), of w] show ?thesis
      by (auto simp: ElemWatermark operator_run_append run)
  next
    case (ElemBarrier b)
    with inv show ?thesis
      by (simp add: operator_run_append run interval_inv_def joins_by_arrival_snoc)
  qed
qed

subsection \<open>Streams on time\<close>

lemma on_time_snoc: "on_time (es @ [e]) \<Longrightarrow> on_time es"
  unfolding on_time_def by (metis append.assoc append_Cons)

lemma on_time_last: "on_time (es @ [ElemRecord r]) \<Longrightarrow> ElemWatermark w \<in> set es \<Longrightarrow> wm_timestamp w \<le> rec_timestamp r"
  unfolding on_time_def by blast

lemma side_records_snoc:
  "rec_value r = Left v \<Longrightarrow> left_records (es @ [ElemRecord r]) = left_records es @ [(record_key r, rec_timestamp r, v)]"
  "rec_value r = Left v \<Longrightarrow> right_records (es @ [ElemRecord r]) = right_records es"
  "rec_value r = Right v' \<Longrightarrow> left_records (es @ [ElemRecord r]) = left_records es"
  "rec_value r = Right v' \<Longrightarrow> right_records (es @ [ElemRecord r]) = right_records es @ [(record_key r, rec_timestamp r, v')]"
  "left_records (es @ [ElemWatermark w]) = left_records es" "right_records (es @ [ElemWatermark w]) = right_records es"
  "left_records (es @ [ElemBarrier b]) = left_records es" "right_records (es @ [ElemBarrier b]) = right_records es"
  by (simp_all add: left_records_def right_records_def)

text \<open>A record that is on time meets every record it matches: an evicted one is out of its reach.\<close>

lemma evicted_out_of_reach:
  assumes "\<And>w. ElemWatermark w \<in> set es \<Longrightarrow> wm_timestamp w \<le> rec_timestamp r" and "evicted upper es (rec_timestamp b)"
  shows "pair_up lower upper jf r b = []"
proof -
  obtain w where "ElemWatermark w \<in> set es" "millis (rec_timestamp b) < millis (wm_timestamp w) - upper"
    using assms(2) by (auto simp: evicted_def)
  with assms(1) [of w] have "millis (rec_timestamp b) + upper < millis (rec_timestamp r)" by (simp add: ts_simps)
  then show ?thesis using millis_bound [of "rec_timestamp r"] by (auto simp: pair_up_def Let_def split: either.splits)
qed

lemma buffered_partners:
  assumes "\<And>w. ElemWatermark w \<in> set es \<Longrightarrow> wm_timestamp w \<le> rec_timestamp r"
  shows "concat (map (pair_up lower upper jf r) (buffered upper es)) = concat (map (pair_up lower upper jf r) (records_of es))"
  using assms by (induction upper es rule: buffered.induct) (auto intro: evicted_out_of_reach)

lemma filter_mset_image: "filter_mset P (image_mset f M) = image_mset f (filter_mset (\<lambda>x. P (f x)) M)"
  by (induction M) auto

lemma side_records:
  "left_side k (records_of es) = map snd (filter (\<lambda>(k', _). k' = k) (left_records es))"
  "right_side k (records_of es) = map snd (filter (\<lambda>(k', _). k' = k) (right_records es))"
proof -
  have "left_side k rs = map snd (filter (\<lambda>(k', _). k' = k) (concat (map (\<lambda>r. case rec_value r of
      Left v \<Rightarrow> [(record_key r, rec_timestamp r, v)] | Right _ \<Rightarrow> []) rs)))" for k :: bytes and rs :: "('l, 'r) either flume_record list"
    by (induction rs) (auto split: either.splits)
  then show "left_side k (records_of es) = map snd (filter (\<lambda>(k', _). k' = k) (left_records es))"
    by (simp add: left_records_def)
  have "right_side k rs = map snd (filter (\<lambda>(k', _). k' = k) (concat (map (\<lambda>r. case rec_value r of
      Left _ \<Rightarrow> [] | Right v \<Rightarrow> [(record_key r, rec_timestamp r, v)]) rs)))" for k :: bytes and rs :: "('l, 'r) either flume_record list"
    by (induction rs) (auto split: either.splits)
  then show "right_side k (records_of es) = map snd (filter (\<lambda>(k', _). k' = k) (right_records es))"
    by (simp add: right_records_def)
qed

lemma pair_up_in_range:
  assumes "lower \<le> upper" and "in_range lower upper [ElemRecord r]"
  shows "rec_value r = Left v \<Longrightarrow> mset (concat (map (pair_up lower upper jf r) (records_of es))) =
     image_mset (\<lambda>(kr, rt, rv). with_key (record_new (jf v rv) (max (rec_timestamp r) rt)) (record_key r))
       (filter_mset (\<lambda>(kr, rt, rv). kr = record_key r \<and> in_interval lower upper (rec_timestamp r) rt) (mset (right_records es)))"
  and "rec_value r = Right v' \<Longrightarrow> mset (concat (map (pair_up lower upper jf r) (records_of es))) =
     image_mset (\<lambda>(kl, lt, lv). with_key (record_new (jf lv v') (max lt (rec_timestamp r))) (record_key r))
       (filter_mset (\<lambda>(kl, lt, lv). kl = record_key r \<and> in_interval lower upper lt (rec_timestamp r)) (mset (left_records es)))"
proof -
  have left: "min (millis (rec_timestamp r) + lower) (2 ^ 64 - 1) \<le> millis u \<and> millis u \<le> millis (rec_timestamp r) + upper \<longleftrightarrow>
      in_interval lower upper (rec_timestamp r) u" for u
    using assms by (auto simp: in_range_def in_interval_def)
  have right: "millis (rec_timestamp r) - upper \<le> millis u \<and> millis u \<le> millis (rec_timestamp r) - lower \<longleftrightarrow>
      in_interval lower upper u (rec_timestamp r)" if "rec_value r = Right v'" for u
    using assms that by (auto simp: in_range_def in_interval_def)
  show "mset (concat (map (pair_up lower upper jf r) (records_of es))) =
     image_mset (\<lambda>(kr, rt, rv). with_key (record_new (jf v rv) (max (rec_timestamp r) rt)) (record_key r))
       (filter_mset (\<lambda>(kr, rt, rv). kr = record_key r \<and> in_interval lower upper (rec_timestamp r) rt) (mset (right_records es)))"
    if "rec_value r = Left v"
    unfolding pair_up_side(1) [OF that] left
    by (simp add: side_records mset_filter multiset.map_comp
        filter_mset_image filter_filter_mset comp_def split_def del: mset_concat)
  show "mset (concat (map (pair_up lower upper jf r) (records_of es))) =
     image_mset (\<lambda>(kl, lt, lv). with_key (record_new (jf lv v') (max lt (rec_timestamp r))) (record_key r))
       (filter_mset (\<lambda>(kl, lt, lv). kl = record_key r \<and> in_interval lower upper lt (rec_timestamp r)) (mset (left_records es)))"
    if "rec_value r = Right v'"
    unfolding pair_up_side(2) [OF that] right [OF that]
    by (simp add: side_records mset_filter multiset.map_comp
        filter_mset_image filter_filter_mset comp_def split_def max.commute del: mset_concat)
qed

lemma joins_on_time:
  assumes "lower \<le> upper" and "on_time es" and "in_range lower upper es"
  shows "mset (joins_by_arrival lower upper jf es) = interval_matches lower upper jf (mset (left_records es)) (mset (right_records es))"
  using assms(2,3)
proof (induction es rule: rev_induct)
  case Nil
  show ?case by (simp add: joins_by_arrival_def interval_matches_def left_records_def)
next
  case (snoc e es)
  from snoc.prems have "on_time es" "in_range lower upper es"
    using on_time_snoc by (auto simp: in_range_def)
  note ih = snoc.IH [OF this]
  show ?case
  proof (cases e)
    case (ElemRecord r)
    have range: "in_range lower upper [ElemRecord r]" using snoc.prems(2) by (simp add: in_range_def ElemRecord)
    note met = buffered_partners [OF on_time_last [OF snoc.prems(1) [unfolded ElemRecord]]]
    show ?thesis
      by (cases "rec_value r") (simp_all add: ElemRecord joins_by_arrival_snoc ih met pair_up_in_range [OF assms(1) range]
          side_records_snoc interval_matches_left interval_matches_right del: mset_concat mset_map)
  qed (simp_all add: joins_by_arrival_snoc ih side_records_snoc)
qed

subsection \<open>Properties\<close>

text \<open>C22. The interval join emits exactly the pairs that meet. With a lower bound up to the upper one, both below 2^64
  milliseconds, it fails on no stream, and emits exactly once, with the later timestamp and the key, each pair of a new record
  and an earlier one of the other side and the same key that no watermark between the two evicted (one more than the upper bound
  above it) and whose timestamp is in the new record's range: from \<open>t + lower\<close> to \<open>t + upper\<close> for a left record, from
  \<open>t - upper\<close> to \<open>t - lower\<close> for a right one, cut off at the largest timestamp and at zero. So on a stream without a record
  behind a watermark, and with timestamps for which nothing is cut off, these are, in every order of arrival, each pair of a left
  and a right record of a key with \<open>t_l + lower \<le> t_r \<le> t_l + upper\<close>, exactly once.\<close>

theorem interval_join_exactly_once:
  assumes "lower \<le> upper" and "upper < 2 ^ 64"
  shows "\<exists>s out. operator_run (interval_join_operator (pure_join jf)) test_collector es
      (interval_join_new lower upper ()) [] = (s, out, Ok ()) \<and>
    mset (records_of out) = mset (joins_by_arrival lower upper jf es) \<and>
    (on_time es \<and> in_range lower upper es \<longrightarrow>
       mset (records_of out) = interval_matches lower upper jf (mset (left_records es)) (mset (right_records es)))"
proof -
  from interval_run_inv [OF assms, of jf es] joins_on_time [OF assms(1), of es jf] show ?thesis
    unfolding interval_inv_def by (auto simp del: mset_map)
qed

text \<open>With a positive lower bound the result depends on the arrival order near time zero: the
  lookup made for a right record subtracts with saturation, so a right record earlier than the lower
  bound matches a left record at time 0 that arrived before it, although \<open>t_l + lower > t_r\<close>; in the
  other arrival order the pair is not emitted.\<close>

lemma interval_join_order_dependent:
  "\<exists>l r s1 s2. \<not> in_interval 10 20 (rec_timestamp l) (rec_timestamp r) \<and>
     operator_run (interval_join_operator (pure_join (\<lambda>x y. (x :: int) + y))) test_collector [ElemRecord l, ElemRecord r]
       (interval_join_new 10 20 ()) [] = (s1, [ElemRecord (with_key (record_new 3 (EventTimestamp 5)) [])], Ok ()) \<and>
     operator_run (interval_join_operator (pure_join (\<lambda>x y. (x :: int) + y))) test_collector [ElemRecord r, ElemRecord l]
       (interval_join_new 10 20 ()) [] = (s2, [], Ok ())"
proof (intro exI conjI)
  let ?l = "record_new (Left 1) (EventTimestamp 0) :: (int, int) either flume_record"
  let ?r = "record_new (Right 2) (EventTimestamp 5) :: (int, int) either flume_record"
  let ?s1 = "(interval_join_new 10 20 () :: (int, int, unit) interval_join)
      \<lparr>ij_state := [[] \<mapsto> \<lparr>is_left = [(EventTimestamp 0, [1])], is_right = [(EventTimestamp 5, [2])]\<rparr>]\<rparr>"
  show "\<not> in_interval 10 20 (rec_timestamp ?l) (rec_timestamp ?r)" by (simp add: in_interval_def ts_simps)
  show "operator_run (interval_join_operator (pure_join (\<lambda>x y. x + y))) test_collector [ElemRecord ?l, ElemRecord ?r]
      (interval_join_new 10 20 ()) [] = (?s1, [ElemRecord (with_key (record_new 3 (EventTimestamp 5)) [])], Ok ())"
    by (simp add: interval_process_record_def interval_join_new_def interval_state_default_def bt_range_def
        ts_simps pure_join_def Let_def max_def)
  show "operator_run (interval_join_operator (pure_join (\<lambda>x y. x + y))) test_collector [ElemRecord ?r, ElemRecord ?l]
      (interval_join_new 10 20 ()) [] = (?s1, [], Ok ())"
    by (simp add: interval_process_record_def interval_join_new_def interval_state_default_def bt_range_def
        ts_simps pure_join_def Let_def max_def)
qed

text \<open>A lower bound above the upper bound is accepted at construction and panics at the first
  record that looks into a buffer with content, instead of matching nothing.\<close>

lemma interval_join_inverted_bounds_panic:
  assumes "ij_upper s < ij_lower s" and "ij_lower s < 2 ^ 64" and "rec_value rec = Left v"
    and "millis (rec_timestamp rec) + ij_lower s < 2 ^ 64" and "is_right (key_state s (record_key rec)) \<noteq> []"
  shows "\<exists>s' p. interval_process_record jf s rec col c = (s', c, Panic p)"
proof -
  have "ts_add (rec_timestamp rec) (ij_upper s) < ts_add (rec_timestamp rec) (ij_lower s)"
    using assms(1,2,4) by (simp add: ts_simps)
  with assms(3) show ?thesis
    by (simp add: interval_process_record_def bt_range_def Let_def)
qed

subsection \<open>Witnesses\<close>

theorem interval_join_exactly_once_witness:
  "\<exists>s out. operator_run (interval_join_operator (pure_join (\<lambda>x y. (x :: int) + y))) test_collector
      [ElemRecord (record_new (Left 1) (EventTimestamp 100)), ElemWatermark (Watermark (EventTimestamp 50)),
       ElemRecord (record_new (Right 2) (EventTimestamp 105))] (interval_join_new 0 10 ()) [] = (s, out, Ok ()) \<and>
    mset (records_of out) = {#with_key (record_new 3 (EventTimestamp 105)) []#}"
proof -
  let ?es = "[ElemRecord (record_new (Left 1) (EventTimestamp 100)), ElemWatermark (Watermark (EventTimestamp 50)),
       ElemRecord (record_new (Right 2) (EventTimestamp 105))] :: (int, int) either stream_element list"
  have "on_time ?es"
    by (auto simp: on_time_def Cons_eq_append_conv ts_simps)
  moreover have "in_range 0 10 ?es" by (auto simp: in_range_def ts_simps)
  ultimately show ?thesis
    using interval_join_exactly_once [of 0 10 "\<lambda>x y. x + y" ?es]
    by (auto simp add: interval_matches_def left_records_def right_records_def in_interval_def record_key_def ts_simps max_def)
qed

lemma interval_join_inverted_bounds_panic_example:
  "\<exists>s s' p. is_right (key_state s []) \<noteq> [] \<and> ij_upper s = 5 \<and> ij_lower s = 9 \<and>
    interval_process_record (pure_join (\<lambda>x y. (x :: int) + y)) s (record_new (Left 1) (EventTimestamp 100))
      test_collector [] = (s', [], Panic p)"
proof -
  let ?s = "(interval_join_new 9 5 () :: (int, int, unit) interval_join)
      \<lparr>ij_state := [[] \<mapsto> \<lparr>is_left = [], is_right = [(EventTimestamp 100, [2])]\<rparr>]\<rparr>"
  let ?rec = "record_new (Left 1) (EventTimestamp 100) :: (int, int) either flume_record"
  have "ij_upper ?s < ij_lower ?s" "ij_lower ?s < 2 ^ 64" "rec_value ?rec = Left 1"
    "millis (rec_timestamp ?rec) + ij_lower ?s < 2 ^ 64"
    and nonempty: "is_right (key_state ?s (record_key ?rec)) \<noteq> []"
    by (simp_all add: interval_join_new_def ts_simps key_state_def record_key_def)
  from interval_join_inverted_bounds_panic [OF this, of "pure_join (\<lambda>x y. x + y)" test_collector "[]"]
  obtain s' p where "interval_process_record (pure_join (\<lambda>x y. x + y)) ?s ?rec test_collector [] = (s', [], Panic p)"
    by blast
  with nonempty show ?thesis
    by (intro exI [of _ ?s] exI [of _ s'] exI [of _ p]) (simp add: interval_join_new_def record_key_def)
qed

end
