(* ===== verification/Pipeline.thy ===== *)
theory Pipeline
  imports Dataflow_Invariant Logical_Graph Configuration Window_Operator Window_Join Interval_Join
begin

text \<open>
  The pipeline builders of \<open>flume-api\<close>: the environment (\<open>environment.rs\<close>), data streams and their operators
  (\<open>datastream.rs\<close>, \<open>windowed.rs\<close>), the two-input streams (\<open>connected.rs\<close>, \<open>join.rs\<close>, \<open>interval.rs\<close>), the built-in
  sources and sinks (\<open>source.rs\<close>, \<open>sink.rs\<close>) and the terminal \<open>add_sink\<close>, which runs what was built. Building spawns
  tasks into a network (\<open>Dataflow\<close>) and records nodes and edges in the logical graph.
\<close>

subsection \<open>The environment\<close>

record ('v, 's, 'n) stream_env =
  env_config :: pipeline_config
  env_graph :: logical_graph
  env_net :: "('v, 's, 'n) net"

definition env_from_config :: "pipeline_config \<Rightarrow> ('v, 's, 'n) stream_env" where
  "env_from_config config = \<lparr>env_config = config, env_graph = graph_new, env_net = net_new\<rparr>"

definition env_new :: "('v, 's, 'n) stream_env" where
  "env_new = \<lparr>env_config = default_config, env_graph = graph_new, env_net = net_new\<rparr>"

definition env_from_toml where
  "env_from_toml read parse_toml show_parse vars path =
     bind_res (load_config read parse_toml show_parse vars (Some path)) (\<lambda>config. Ok (env_from_config config))"

definition set_parallelism :: "nat \<Rightarrow> ('v, 's, 'n) stream_env \<Rightarrow> ('v, 's, 'n) stream_env" where
  "set_parallelism p env = env\<lparr>env_config := (env_config env)\<lparr>parallelism := p\<rparr>\<rparr>"

definition set_buffer_size :: "nat \<Rightarrow> ('v, 's, 'n) stream_env \<Rightarrow> ('v, 's, 'n) stream_env" where
  "set_buffer_size n env = env\<lparr>env_config := (env_config env)\<lparr>channel_buffer_size := n\<rparr>\<rparr>"

definition set_channel_kind :: "channel_kind \<Rightarrow> ('v, 's, 'n) stream_env \<Rightarrow> ('v, 's, 'n) stream_env" where
  "set_channel_kind kind env = env\<lparr>env_config := (env_config env)\<lparr>cfg_channel_kind := kind\<rparr>\<rparr>"

definition env_add_edge :: "nat \<Rightarrow> nat \<Rightarrow> partition_strategy \<Rightarrow> ('v, 's, 'n) stream_env \<Rightarrow> ('v, 's, 'n) stream_env" where
  "env_add_edge a b strategy env = env\<lparr>env_graph := add_edge (env_graph env) a b strategy\<rparr>"

definition env_add_node :: "string \<Rightarrow> node_kind \<Rightarrow> nat \<Rightarrow> ('v, 's, 'n) stream_env \<Rightarrow> ('v, 's, 'n) stream_env \<times> nat" where
  "env_add_node name kind p env = (case add_node (env_graph env) name kind p of (g, i) \<Rightarrow> (env\<lparr>env_graph := g\<rparr>, i))"

text \<open>A new channel, and \<open>scheduler.spawn\<close>.\<close>

definition new_link :: "('v, 'n) transport \<Rightarrow> ('v, 's, 'n) stream_env \<Rightarrow> ('v, 's, 'n) stream_env \<times> nat" where
  "new_link ch env =
     (env\<lparr>env_net := (env_net env)\<lparr>net_links := net_links (env_net env) @ [link_new ch]\<rparr>\<rparr>, length (net_links (env_net env)))"

definition new_pair :: "(('v, 'v) either, 'n) transport \<Rightarrow> ('v, 's, 'n) stream_env \<Rightarrow> ('v, 's, 'n) stream_env \<times> nat" where
  "new_pair ch env =
     (env\<lparr>env_net := (env_net env)\<lparr>net_pairs := net_pairs (env_net env) @ [link_new ch]\<rparr>\<rparr>, length (net_pairs (env_net env)))"

definition env_spawn :: "string \<Rightarrow> ('v, 's, 'n) actor \<Rightarrow> ('v, 's, 'n) stream_env \<Rightarrow> ('v, 's, 'n) stream_env" where
  "env_spawn name a env = env\<lparr>env_net := (env_net env)\<lparr>net_spawned :=
     net_spawned (env_net env) @ [\<lparr>sp_name = name, sp_actor = a, sp_result = None\<rparr>]\<rparr>\<rparr>"

subsection \<open>Data streams\<close>

datatype ('s, 'v) source_or_channel = FromSource "('s, 'v) source_ops" 's | FromInput nat

record ('s, 'v) data_stream =
  ds_node :: nat
  ds_upstream :: "('s, 'v) source_or_channel option"

definition data_stream_new :: "nat \<Rightarrow> ('s, 'v) source_or_channel \<Rightarrow> ('s, 'v) data_stream" where
  "data_stream_new node upstream = \<lparr>ds_node = node, ds_upstream = Some upstream\<rparr>"

definition from_source :: "('s, 'v) source_ops \<Rightarrow> 's \<Rightarrow> ('v, 's, 'n) stream_env \<Rightarrow> ('v, 's, 'n) stream_env \<times> ('s, 'v) data_stream" where
  "from_source src s env =
     (case env_add_node ''source'' SourceNode 1 env of (env1, node) \<Rightarrow> (env1, data_stream_new node (FromSource src s)))"

text \<open>A source gets a drainer task and an mpsc channel, whatever kind of channel is configured.\<close>

definition wire_upstream :: "('s, 'v) data_stream \<Rightarrow> ('v, 's, 'n) stream_env \<Rightarrow> (('v, 's, 'n) stream_env \<times> nat) res" where
  "wire_upstream ds env =
     (case ds_upstream ds of
        None \<Rightarrow> Panic ''upstream already consumed''
      | Some (FromInput input) \<Rightarrow> Ok (env, input)
      | Some (FromSource src s) \<Rightarrow>
          bind_res (operator_channel (channel_buffer_size (env_config env))) (\<lambda>ch.
            case new_link ch env of (env1, c) \<Rightarrow>
              Ok (env_spawn ''source-drainer''
                    (DrainActor \<lparr>dr_source = src, dr_state = s, dr_key = None, dr_held = None, dr_out = c\<rparr>) env1, c)))"

text \<open>\<open>n0\<close> is a new \<open>Notify\<close>, for ring buffers.\<close>

definition apply_operator ::
  "'n \<Rightarrow> string \<Rightarrow> ('s, ('v, 'n) link, 'v, 'v) operator \<Rightarrow> 's \<Rightarrow> ('s, 'v) data_stream \<Rightarrow> ('v, 's, 'n) stream_env \<Rightarrow>
     (('v, 's, 'n) stream_env \<times> ('s, 'v) data_stream) res" where
  "apply_operator n0 name opr op ds env =
     bind_res (wire_upstream ds env) (\<lambda>(env1, input).
     bind_res (operator_channel_with_kind (channel_buffer_size (env_config env1)) (cfg_channel_kind (env_config env1)) n0) (\<lambda>ch.
       case new_link ch env1 of (env2, output) \<Rightarrow>
       (case env_add_node name OperatorNode 1 env2 of (env3, node) \<Rightarrow>
         (let env4 = env_add_edge (ds_node ds) node ForwardStrategy env3;
              task_name = name @ ''-'' @ nat_to_string node
          in Ok (env_spawn task_name (TaskActor opr (with_cancel (task_new op input output))) env4,
                 data_stream_new node (FromInput output))))))"

text \<open>An operator behind a \<open>Box\<close>: its own state type within the common one.\<close>

definition boxed :: "('x \<Rightarrow> 's) \<Rightarrow> ('s \<Rightarrow> 'x) \<Rightarrow> ('x, 'c, 'i, 'o) operator \<Rightarrow> ('s, 'c, 'i, 'o) operator" where
  "boxed box unbox opr = \<lparr>
     process_record = (\<lambda>s rec col c. apfst box (process_record opr (unbox s) rec col c)),
     process_watermark = (\<lambda>s w col c. apfst box (process_watermark opr (unbox s) w col c)),
     process_barrier = (\<lambda>s b col c. apfst box (process_barrier opr (unbox s) b col c))\<rparr>"

definition ds_map where
  "ds_map n0 f s = apply_operator n0 ''map'' (map_operator f) s"

definition ds_filter where
  "ds_filter n0 predicate s = apply_operator n0 ''filter'' (filter_operator predicate) s"

definition ds_flat_map where
  "ds_flat_map n0 f s = apply_operator n0 ''flat_map'' (flat_map_operator f) s"

definition ds_key_by where
  "ds_key_by n0 hash key_extractor s = apply_operator n0 ''key_by'' (key_by_operator hash key_extractor) s"

text \<open>The builders give a process operator no side-output emitter.\<close>

definition ds_process where
  "ds_process n0 box unbox pf s =
     apply_operator n0 ''process'' (boxed box unbox (process_operator pf None)) (box (process_op_new s ()))"

definition ds_process_keyed where
  "ds_process_keyed n0 box unbox kpf s =
     apply_operator n0 ''keyed_process'' (boxed box unbox (keyed_process_operator kpf None)) (box (process_op_new s ()))"

subsection \<open>Windowed streams\<close>

record ('s, 'v, 'tr) windowed_stream =
  ws_stream :: "('s, 'v) data_stream"
  ws_assigner :: window_assigner
  ws_trigger :: "('tr trigger \<times> 'tr) option"

definition ds_window :: "window_assigner \<Rightarrow> ('s, 'v) data_stream \<Rightarrow> ('s, 'v, 'tr) windowed_stream" where
  "ds_window assigner ds = \<lparr>ws_stream = ds, ws_assigner = assigner, ws_trigger = None\<rparr>"

definition ws_with_trigger :: "'tr trigger \<Rightarrow> 'tr \<Rightarrow> ('s, 'v, 'tr) windowed_stream \<Rightarrow> ('s, 'v, 'tr) windowed_stream" where
  "ws_with_trigger tr t ws = ws\<lparr>ws_trigger := Some (tr, t)\<rparr>"

text \<open>The default trigger has no state; as a boxed trigger it ignores the one it is given, \<open>t0\<close>.\<close>

definition default_trigger :: "'tr trigger" where
  "default_trigger = \<lparr>
     on_element = (\<lambda>t ts w. (fst (on_element event_time_trigger () ts w), t)),
     on_event_time = (\<lambda>t ts w. (fst (on_event_time event_time_trigger () ts w), t))\<rparr>"

definition ws_aggregate where
  "ws_aggregate n0 box unbox t0 order agg ws =
     (let (tr, t) = (case ws_trigger ws of None \<Rightarrow> (default_trigger, t0) | Some tr \<Rightarrow> tr)
      in apply_operator n0 ''window'' (boxed box unbox (window_operator (ws_assigner ws) tr agg order)) (box (window_state_new t))
           (ws_stream ws))"

subsection \<open>Two-input streams\<close>

record ('s, 'v) connected_stream =
  cs_stream :: "('s, 'v) data_stream"
  cs_source :: "('s, 'v) source_ops \<times> 's"
  cs_key1 :: "('s, 'v) key_extractor option"
  cs_key2 :: "('s, 'v) key_extractor option"

definition ds_connect :: "('s, 'v) source_ops \<Rightarrow> 's \<Rightarrow> ('s, 'v) data_stream \<Rightarrow> ('s, 'v) connected_stream" where
  "ds_connect src s ds = \<lparr>cs_stream = ds, cs_source = (src, s), cs_key1 = None, cs_key2 = None\<rparr>"

text \<open>The closure \<open>move |value| hash_key(&f(value))\<close>.\<close>

definition hashed_extractor :: "('k \<Rightarrow> u64) \<Rightarrow> ('s \<Rightarrow> 'v \<Rightarrow> 'k \<times> 's) \<Rightarrow> 's \<Rightarrow> ('s, 'v) key_extractor" where
  "hashed_extractor hash f s = (\<lambda>t value. (case f t value of (key, t') \<Rightarrow> (hash_key hash key, t')), s)"

definition key_by_both where
  "key_by_both hash1 f1 s1 hash2 f2 s2 cs =
     cs\<lparr>cs_key1 := Some (hashed_extractor hash1 f1 s1), cs_key2 := Some (hashed_extractor hash2 f2 s2)\<rparr>"

definition wire_two_input_operator ::
  "'n \<Rightarrow> ('s, 'v) data_stream \<Rightarrow> ('s, 'v) source_ops \<times> 's \<Rightarrow> ('s, 'v) key_extractor option \<Rightarrow> ('s, 'v) key_extractor option \<Rightarrow>
     string \<Rightarrow> ('s, ('v, 'n) link, ('v, 'v) either, 'v) operator \<Rightarrow> 's \<Rightarrow> ('v, 's, 'n) stream_env \<Rightarrow>
     (('v, 's, 'n) stream_env \<times> ('s, 'v) data_stream) res" where
  "wire_two_input_operator n0 stream source key1 key2 name opr op env =
     (let buffer_size = channel_buffer_size (env_config env) in
      bind_res (wire_upstream stream env) (\<lambda>(env1, input1).
      bind_res (operator_channel buffer_size) (\<lambda>ch1.
      case new_link ch1 env1 of (env2, c1) \<Rightarrow>
      (let env3 = env_spawn ''connected-input1'' (RelayActor \<lparr>rl_in = input1, rl_key = key1, rl_held = None, rl_out = c1\<rparr>) env2 in
      bind_res (operator_channel buffer_size) (\<lambda>ch2.
      case new_link ch2 env3 of (env4, c2) \<Rightarrow>
      (let env5 = env_spawn ''connected-input2'' (DrainActor \<lparr>dr_source = fst source, dr_state = snd source, dr_key = key2,
             dr_held = None, dr_out = c2\<rparr>) env4 in
      bind_res (operator_channel buffer_size) (\<lambda>ch3.
      case new_pair ch3 env5 of (env6, merged) \<Rightarrow>
      (let env7 = env_spawn ''two-input-merge'' (MergeActor \<lparr>mw_in1 = c1, mw_in2 = c2, mw_out = merged,
             mw_state = merge_init [] [] None, mw_sent = 0\<rparr>) env6 in
      bind_res (operator_channel_with_kind buffer_size (cfg_channel_kind (env_config env)) n0) (\<lambda>ch4.
      case new_link ch4 env7 of (env8, output) \<Rightarrow>
      (case env_add_node name OperatorNode 1 env8 of (env9, node) \<Rightarrow>
        (let env10 = env_add_edge (ds_node stream) node ForwardStrategy env9;
             task_name = name @ ''-'' @ nat_to_string node
         in Ok (env_spawn task_name (PairTaskActor opr (with_cancel (task_new op merged output))) env10,
                data_stream_new node (FromInput output)))))))))))))"

definition wire_two_input where
  "wire_two_input n0 name opr op cs =
     wire_two_input_operator n0 (cs_stream cs) (cs_source cs) (cs_key1 cs) (cs_key2 cs) name opr op"

definition cs_process where
  "cs_process n0 box unbox cpf s =
     wire_two_input n0 ''co_process'' (boxed box unbox (co_process_operator cpf None)) (box (process_op_new s ()))"

text \<open>Window joins: the stream with its keys, then with its window, then the join or the cogroup.\<close>

definition ds_window_join :: "('s, 'v) source_ops \<Rightarrow> 's \<Rightarrow> ('s, 'v) data_stream \<Rightarrow> ('s, 'v) connected_stream" where
  "ds_window_join src s ds = \<lparr>cs_stream = ds, cs_source = (src, s), cs_key1 = None, cs_key2 = None\<rparr>"

definition join_key_by_both where
  "join_key_by_both hash1 f1 s1 hash2 f2 s2 js =
     js\<lparr>cs_key1 := Some (hashed_extractor hash1 f1 s1), cs_key2 := Some (hashed_extractor hash2 f2 s2)\<rparr>"

record ('s, 'v) windowed_join_stream = "('s, 'v) connected_stream" +
  wjs_assigner :: window_assigner

definition join_window :: "window_assigner \<Rightarrow> ('s, 'v) connected_stream \<Rightarrow> ('s, 'v) windowed_join_stream" where
  "join_window assigner js = \<lparr>cs_stream = cs_stream js, cs_source = cs_source js, cs_key1 = cs_key1 js, cs_key2 = cs_key2 js,
     wjs_assigner = assigner\<rparr>"

definition join_apply where
  "join_apply n0 box unbox order jf f wjs =
     wire_two_input_operator n0 (cs_stream wjs) (cs_source wjs) (cs_key1 wjs) (cs_key2 wjs) ''window_join''
       (boxed box unbox (window_join_operator (wjs_assigner wjs) event_time_trigger jf order)) (box (window_join_new () f))"

definition join_cogroup where
  "join_cogroup n0 box unbox order cf f wjs =
     wire_two_input_operator n0 (cs_stream wjs) (cs_source wjs) (cs_key1 wjs) (cs_key2 wjs) ''window_cogroup''
       (boxed box unbox (window_cogroup_operator (wjs_assigner wjs) event_time_trigger cf order)) (box (window_cogroup_new () f))"

definition ds_interval_join :: "('s, 'v) source_ops \<Rightarrow> 's \<Rightarrow> ('s, 'v) data_stream \<Rightarrow> ('s, 'v) connected_stream" where
  "ds_interval_join src s ds = \<lparr>cs_stream = ds, cs_source = (src, s), cs_key1 = None, cs_key2 = None\<rparr>"

definition interval_key_by_both where
  "interval_key_by_both hash1 f1 s1 hash2 f2 s2 js =
     js\<lparr>cs_key1 := Some (hashed_extractor hash1 f1 s1), cs_key2 := Some (hashed_extractor hash2 f2 s2)\<rparr>"

record ('s, 'v) bounded_interval_stream = "('s, 'v) connected_stream" +
  bis_lower :: duration
  bis_upper :: duration

definition interval_between :: "duration \<Rightarrow> duration \<Rightarrow> ('s, 'v) connected_stream \<Rightarrow> ('s, 'v) bounded_interval_stream" where
  "interval_between lower upper js = \<lparr>cs_stream = cs_stream js, cs_source = cs_source js, cs_key1 = cs_key1 js, cs_key2 = cs_key2 js,
     bis_lower = lower, bis_upper = upper\<rparr>"

definition interval_process where
  "interval_process n0 box unbox jf f bis =
     wire_two_input_operator n0 (cs_stream bis) (cs_source bis) (cs_key1 bis) (cs_key2 bis) ''interval_join''
       (boxed box unbox (interval_join_operator jf)) (box (interval_join_new (bis_lower bis) (bis_upper bis) f))"

subsection \<open>Built-in sources and sinks\<close>

text \<open>\<open>now_millis\<close>: the wall clock since the epoch, in milliseconds; a clock before the epoch reads as zero, the cast to
  \<open>u64\<close> truncates. The clock is read once per item, in order.\<close>

definition now_millis :: "duration option \<Rightarrow> event_timestamp" where
  "now_millis clock = EventTimestamp (duration_ms (case clock of Some d \<Rightarrow> d | None \<Rightarrow> 0))"

record 'v in_memory_source =
  ims_items :: "'v list"
  ims_reads :: nat

definition in_memory_new :: "'v list \<Rightarrow> 'v in_memory_source" where
  "in_memory_new items = \<lparr>ims_items = items, ims_reads = 0\<rparr>"

definition in_memory_next :: "(nat \<Rightarrow> duration option) \<Rightarrow> 'v in_memory_source \<Rightarrow> 'v in_memory_source \<times> 'v stream_element option res" where
  "in_memory_next clock s =
     (case ims_items s of
        value # items \<Rightarrow> (\<lparr>ims_items = items, ims_reads = ims_reads s + 1\<rparr>,
          Ok (Some (ElemRecord (record_new value (now_millis (clock (ims_reads s)))))))
      | [] \<Rightarrow> (s, Ok None))"

definition in_memory_source :: "(nat \<Rightarrow> duration option) \<Rightarrow> ('v in_memory_source, 'v) source_ops" where
  "in_memory_source clock = \<lparr>source_next = in_memory_next clock, source_snapshot = (\<lambda>_. Ok []), source_restore = (\<lambda>s _. (s, Ok ()))\<rparr>"

definition timestamped_source :: "('v stream_element list, 'v) source_ops" where
  "timestamped_source = \<lparr>
     source_next = (\<lambda>es. case es of e # es' \<Rightarrow> (es', Ok (Some e)) | [] \<Rightarrow> ([], Ok None)),
     source_snapshot = (\<lambda>_. Ok []), source_restore = (\<lambda>s _. (s, Ok ()))\<rparr>"

definition boxed_source :: "('x \<Rightarrow> 's) \<Rightarrow> ('s \<Rightarrow> 'x) \<Rightarrow> ('x, 'v) source_ops \<Rightarrow> ('s, 'v) source_ops" where
  "boxed_source box unbox src = \<lparr>source_next = (\<lambda>s. apfst box (source_next src (unbox s))),
     source_snapshot = (\<lambda>s. source_snapshot src (unbox s)), source_restore = (\<lambda>s bs. apfst box (source_restore src (unbox s) bs))\<rparr>"

definition from_collection where
  "from_collection box unbox clock items =
     from_source (boxed_source box unbox (in_memory_source clock)) (box (in_memory_new items))"

record ('k, 'v) sink_ops =
  sink_write :: "'k \<Rightarrow> 'v flume_record \<Rightarrow> 'k \<times> unit res"
  sink_flush :: "'k \<Rightarrow> 'k \<times> unit res"
  sink_snapshot :: "'k \<Rightarrow> bytes res"
  sink_restore :: "'k \<Rightarrow> bytes \<Rightarrow> 'k \<times> unit res"

text \<open>\<open>PrintSink\<close>: its prefix and the lines logged; \<open>show_value\<close> is the value's \<open>Debug\<close>. \<open>CollectSink\<close>: the shared vector, and
  whether its mutex was poisoned by another holder.\<close>

definition print_sink :: "('v \<Rightarrow> string) \<Rightarrow> (string \<times> (string \<times> string) list, 'v) sink_ops" where
  "print_sink show_value = \<lparr>
     sink_write = (\<lambda>(label, logged) rec. ((label, logged @ [(label, show_value (rec_value rec))]), Ok ())),
     sink_flush = (\<lambda>k. (k, Ok ())), sink_snapshot = (\<lambda>_. Ok []), sink_restore = (\<lambda>k _. (k, Ok ()))\<rparr>"

record 'v collect_sink =
  cks_results :: "'v list"
  cks_poisoned :: bool

definition collect_sink_new :: "'v collect_sink" where "collect_sink_new = \<lparr>cks_results = [], cks_poisoned = False\<rparr>"

definition collect_sink :: "('v collect_sink, 'v) sink_ops" where
  "collect_sink = \<lparr>
     sink_write = (\<lambda>k rec. if cks_poisoned k then (k, Panic ''poisoned'') else (k\<lparr>cks_results := cks_results k @ [rec_value rec]\<rparr>, Ok ())),
     sink_flush = (\<lambda>k. (k, Ok ())), sink_snapshot = (\<lambda>_. Ok []), sink_restore = (\<lambda>k _. (k, Ok ()))\<rparr>"

subsection \<open>Running a pipeline\<close>

text \<open>\<open>add_sink\<close>: the channel is drained inline, with the runtime polling the spawned tasks meanwhile; then every task is
  awaited. \<open>run_drained\<close> is how the drain loop ended. An error of the sink returns at once and drops the channel's receiver.\<close>

record ('v, 's, 'n, 'k) running =
  run_net :: "('v, 's, 'n) net"
  run_input :: nat
  run_sink :: 'k
  run_drained :: "unit res option"

definition add_sink :: "('s, 'v) data_stream \<Rightarrow> 'k \<Rightarrow> ('v, 's, 'n) stream_env \<Rightarrow> (('v, 's, 'n) stream_env \<times> ('v, 's, 'n, 'k) running) res" where
  "add_sink ds k env =
     (case env_add_node ''sink'' SinkNode 1 env of (env1, sink_id) \<Rightarrow>
      bind_res (wire_upstream ds (env_add_edge (ds_node ds) sink_id ForwardStrategy env1)) (\<lambda>(env2, input).
        Ok (env2, \<lparr>run_net = env_net env2, run_input = input, run_sink = k, run_drained = None\<rparr>)))"

text \<open>\<open>WindowedStream::add_sink\<close>.\<close>

definition ws_add_sink where
  "ws_add_sink n0 box unbox t0 order agg k ws env =
     bind_res (ws_aggregate n0 box unbox t0 order agg ws env) (\<lambda>(env', ds). add_sink ds k env')"

definition sink_element :: "('k, 'v) sink_ops \<Rightarrow> 'v stream_element \<Rightarrow> 'k \<Rightarrow> 'k \<times> unit res" where
  "sink_element sink e k =
     (case e of
        ElemRecord rec \<Rightarrow> sink_write sink k rec
      | ElemWatermark _ \<Rightarrow> (k, Ok ())
      | ElemBarrier _ \<Rightarrow> sink_flush sink k)"

definition sink_poll :: "('k, 'v) sink_ops \<Rightarrow> ('v, 's, 'n, 'k) running \<Rightarrow> ('v, 's, 'n, 'k) running" where
  "sink_poll sink r =
     (if run_drained r \<noteq> None then r
      else
        (let links = net_links (run_net r); c = run_input r;
             put = (\<lambda>l. (run_net r)\<lparr>net_links := links[c := l]\<rparr>)
         in case link_poll (links ! c) of
              (l, ReadyElement e) \<Rightarrow>
                (case sink_element sink e (run_sink r) of
                   (k, Ok _) \<Rightarrow> r\<lparr>run_net := put l, run_sink := k\<rparr>
                 | (k, Err x) \<Rightarrow> r\<lparr>run_net := put (link_drop_receiver l), run_sink := k, run_drained := Some (Err x)\<rparr>
                 | (k, Panic p) \<Rightarrow> r\<lparr>run_net := put (link_drop_receiver l), run_sink := k, run_drained := Some (Panic p)\<rparr>)
            | (l, ReadyClosed) \<Rightarrow> r\<lparr>run_net := put l, run_drained := Some (Ok ())\<rparr>
            | (l, PollPending) \<Rightarrow> r\<lparr>run_net := put l\<rparr>
            | (l, PollPanic p) \<Rightarrow> r\<lparr>run_net := put (link_drop_receiver l), run_drained := Some (Panic p)\<rparr>))"

text \<open>What happens, in any order: a spawned task is polled, the drain loop is polled, the cancellation token is cancelled
  (by a signal handler or by \<open>connect_cancel_token\<close>).\<close>

datatype run_action = PollTask nat bool | PollSink | CancelAll

fun run_step :: "('n \<Rightarrow> 'n) \<Rightarrow> ('k, 'v) sink_ops \<Rightarrow> run_action \<Rightarrow> ('v, 's, 'n, 'k) running \<Rightarrow> ('v, 's, 'n, 'k) running" where
  "run_step nf sink (PollTask k pick1) r = r\<lparr>run_net := spawned_poll nf pick1 k (run_net r)\<rparr>"
| "run_step nf sink PollSink r = sink_poll sink r"
| "run_step nf sink CancelAll r = r\<lparr>run_net := (run_net r)\<lparr>net_cancelled := True\<rparr>\<rparr>"

definition run_pipeline :: "('n \<Rightarrow> 'n) \<Rightarrow> ('k, 'v) sink_ops \<Rightarrow> run_action list \<Rightarrow> ('v, 's, 'n, 'k) running \<Rightarrow> ('v, 's, 'n, 'k) running" where
  "run_pipeline nf sink acts r = fold (run_step nf sink) acts r"

text \<open>What \<open>add_sink\<close> returns, once it returns; \<open>show_join\<close> is the text of a panicked task.\<close>

definition add_sink_result :: "(string \<Rightarrow> string) \<Rightarrow> ('v, 's, 'n, 'k) running \<Rightarrow> unit res option" where
  "add_sink_result show_join r =
     (case run_drained r of
        None \<Rightarrow> None
      | Some (Ok _) \<Rightarrow>
          (if \<exists>sp\<in>set (net_spawned (run_net r)). sp_result sp = None then None
           else Some (wait_all show_join \<lparr>sch_handles = map (\<lambda>sp. (sp_name sp, the (sp_result sp))) (net_spawned (run_net r)),
             sch_cancelled = net_cancelled (run_net r)\<rparr>))
      | Some e \<Rightarrow> Some e)"

end
