(* ===== verification/Network.thy ===== *)
theory Network
  imports Collectors
begin

text \<open>
  The network boundary (\<open>flume-network/src\<close>): \<open>network_collector.rs\<close> serialises elements into batches under a credit,
  \<open>exchange.rs\<close> routes the batches of a stream to local subscribers and grants credits back, and
  \<open>network_input.rs\<close> takes the batches apart again. The bitcode codec is a pair of arguments \<open>ser\<close> and \<open>deser\<close>; the
  channel a collector sends into is an argument \<open>snd_op\<close> with the contract \<open>sender_laws\<close>.
\<close>

subsection \<open>Framing\<close>

record data_batch =
  batch_channel :: string
  batch_payload :: bytes
  batch_count :: u32
  batch_is_barrier :: bool
  batch_checkpoint :: nat

text \<open>\<open>u32::to_le_bytes\<close>, and \<open>u32::from_le_bytes\<close> read as a \<open>usize\<close>.\<close>

definition u32_to_le_bytes :: "u32 \<Rightarrow> bytes" where
  "u32_to_le_bytes x = map (\<lambda>i. ucast (drop_bit (8 * i) x)) [0..<4]"

definition le_bytes_value :: "bytes \<Rightarrow> nat" where
  "le_bytes_value bs = horner_sum unat 256 bs"

lemma length_u32_to_le_bytes [simp]: "length (u32_to_le_bytes x) = 4"
  by (simp add: u32_to_le_bytes_def)

lemma unat_lt_u32: "unat (x :: u32) < 2 ^ 32"
  using unsigned_less [of x, where 'a = nat] by simp

lemma unat_byte: "unat (ucast (drop_bit k x) :: u8) = unat x div 2 ^ k mod 256" for x :: u32
proof -
  have "unat (drop_bit k x) = unat x div 2 ^ k" using unat_lt_u32 [of x] by (simp add: unsigned_drop_bit_eq drop_bit_eq_div [where 'a = nat] take_bit_eq_mod del: drop_bit_eq_div [where 'a = "32 word"])
  then show ?thesis by (simp add: unsigned_ucast_eq take_bit_eq_mod)
qed

lemma le_bytes_roundtrip [simp]: "le_bytes_value (u32_to_le_bytes x) = unat x"
proof -
  define a b c where "a = unat x div 256" and "b = a div 256" and "c = b div 256"
  have c: "c < 256" using unat_lt_u32 [of x] by (simp add: a_def b_def c_def less_mult_imp_div_less flip: div_mult2_eq)
  have parts: "unat x = unat x mod 256 + 256 * a" "a = a mod 256 + 256 * b" "b = b mod 256 + 256 * c"
    by (simp_all add: a_def b_def c_def)
  have "le_bytes_value (u32_to_le_bytes x) = unat x mod 256 + 256 * (a mod 256 + 256 * (b mod 256 + 256 * (c mod 256)))"
    using unat_byte [of 0 x]
    by (simp add: le_bytes_value_def u32_to_le_bytes_def unat_byte upt_conv_Cons a_def b_def c_def del: upt_Suc flip: div_mult2_eq)
  also have "\<dots> = unat x" using parts c by simp
  finally show ?thesis .
qed

definition frame :: "bytes \<Rightarrow> bytes" where
  "frame bs = u32_to_le_bytes (word_of_nat (length bs)) @ bs"

text \<open>The decoding loop of the input over what is left of the payload; an element that does not deserialise is skipped.\<close>

function decode_payload :: "(bytes \<Rightarrow> 'e option) \<Rightarrow> bytes \<Rightarrow> 'e list" where
  "decode_payload deser bs =
     (if length bs < 4 then []
      else (let len = le_bytes_value (take 4 bs); rest = drop 4 bs in
        if length rest < len then []
        else (case deser (take len rest) of None \<Rightarrow> [] | Some e \<Rightarrow> [e]) @ decode_payload deser (drop len rest)))"
  by pat_completeness auto
termination by (relation "measure (\<lambda>(deser, bs). length bs)") (auto simp: Let_def)

declare decode_payload.simps [simp del]

lemma decode_Nil [simp]: "decode_payload deser [] = []"
  by (simp add: decode_payload.simps)


subsection \<open>The collector\<close>

record 'ch network_collector =
  nc_channel_id :: string
  nc_tx :: 'ch
  nc_buffer :: bytes
  nc_record_count :: u32
  nc_batch_size :: u32
  nc_credits :: u32

definition network_collector_new :: "string \<Rightarrow> 'ch \<Rightarrow> u32 \<Rightarrow> 'ch network_collector" where
  "network_collector_new channel tx batch_size =
     \<lparr>nc_channel_id = channel, nc_tx = tx, nc_buffer = [], nc_record_count = 0, nc_batch_size = batch_size, nc_credits = 0\<rparr>"

definition u32_saturating_add :: "u32 \<Rightarrow> u32 \<Rightarrow> u32" where
  "u32_saturating_add a b = (if unat a + unat b < 2 ^ 32 then a + b else - 1)"

definition grant_credits :: "u32 \<Rightarrow> 'ch network_collector \<Rightarrow> 'ch network_collector" where
  "grant_credits n s = s\<lparr>nc_credits := u32_saturating_add (nc_credits s) n\<rparr>"

definition available_credits :: "'ch network_collector \<Rightarrow> u32" where "available_credits s = nc_credits s"

text \<open>\<open>self.batch_tx.try_send(batch).map_err(..)\<close>.\<close>

definition send_batch :: "('ch \<Rightarrow> data_batch \<Rightarrow> 'ch \<times> bool) \<Rightarrow> data_batch \<Rightarrow> 'ch network_collector \<Rightarrow> 'ch network_collector \<times> unit res" where
  "send_batch snd_op b s =
     (case snd_op (nc_tx s) b of (tx, ok) \<Rightarrow> (s\<lparr>nc_tx := tx\<rparr>, if ok then Ok () else Err ChannelClosed))"

definition flush :: "('ch \<Rightarrow> data_batch \<Rightarrow> 'ch \<times> bool) \<Rightarrow> 'ch network_collector \<Rightarrow> 'ch network_collector \<times> unit res" where
  "flush snd_op s =
     (if nc_buffer s = [] then (s, Ok ())
      else if nc_credits s = 0 then (s, Err ChannelClosed)
      else send_batch snd_op
             \<lparr>batch_channel = nc_channel_id s, batch_payload = nc_buffer s, batch_count = nc_record_count s,
              batch_is_barrier = False, batch_checkpoint = 0\<rparr>
             (s\<lparr>nc_buffer := [], nc_record_count := 0, nc_credits := nc_credits s - 1\<rparr>))"

definition serialize_element ::
  "('a stream_element \<Rightarrow> bytes option) \<Rightarrow> 'a stream_element \<Rightarrow> 'ch network_collector \<Rightarrow> 'ch network_collector \<times> unit res" where
  "serialize_element ser e s =
     (case ser e of
        None \<Rightarrow> (s, Err (SerializationError ''bitcode''))
      | Some bs \<Rightarrow> (s\<lparr>nc_buffer := nc_buffer s @ frame bs\<rparr>, Ok ()))"

definition net_collect where
  "net_collect ser snd_op s r =
     and_then (serialize_element ser (ElemRecord r) s) (\<lambda>s1.
       if nc_record_count s1 = - 1 then (s1, Panic ''attempt to add with overflow'')
       else let s2 = s1\<lparr>nc_record_count := nc_record_count s1 + 1\<rparr> in
         if nc_batch_size s2 \<le> nc_record_count s2 then flush snd_op s2 else (s2, Ok ()))"

definition net_collect_watermark where
  "net_collect_watermark ser snd_op s w =
     and_then (flush snd_op s) (\<lambda>s1.
       case ser (ElemWatermark w) of
         None \<Rightarrow> (s1, Err (SerializationError ''bitcode''))
       | Some bs \<Rightarrow>
           if 0 < nc_credits s1
           then send_batch snd_op
                  \<lparr>batch_channel = nc_channel_id s1, batch_payload = bs, batch_count = 0, batch_is_barrier = False,
                   batch_checkpoint = 0\<rparr>
                  (s1\<lparr>nc_credits := nc_credits s1 - 1\<rparr>)
           else (s1, Err ChannelClosed))"

definition net_collect_barrier where
  "net_collect_barrier snd_op s b =
     and_then (flush snd_op s) (\<lambda>s1.
       send_batch snd_op
         \<lparr>batch_channel = nc_channel_id s1, batch_payload = [], batch_count = 0, batch_is_barrier = True,
          batch_checkpoint = checkpoint_id b\<rparr> s1)"

definition network_collector_ops ::
  "('a stream_element \<Rightarrow> bytes option) \<Rightarrow> ('ch \<Rightarrow> data_batch \<Rightarrow> 'ch \<times> bool) \<Rightarrow> ('ch network_collector, 'a) collector" where
  "network_collector_ops ser snd_op =
     \<lparr>collect = net_collect ser snd_op, collect_watermark = net_collect_watermark ser snd_op,
      collect_barrier = net_collect_barrier snd_op\<rparr>"

text \<open>\<open>NetworkCollectorManager\<close>: the collectors of a subtask by channel.\<close>

type_synonym 'ch collector_manager = "string \<rightharpoonup> 'ch network_collector"

definition manager_new :: "'ch collector_manager" where "manager_new = Map.empty"

definition manager_add :: "string \<Rightarrow> 'ch network_collector \<Rightarrow> 'ch collector_manager \<Rightarrow> 'ch collector_manager" where
  "manager_add channel s m = m(channel \<mapsto> s)"

definition manager_get :: "'ch collector_manager \<Rightarrow> string \<Rightarrow> 'ch network_collector option" where
  "manager_get m channel = m channel"

definition manager_grant :: "string \<Rightarrow> u32 \<Rightarrow> 'ch collector_manager \<Rightarrow> 'ch collector_manager" where
  "manager_grant channel n m = (case m channel of None \<Rightarrow> m | Some s \<Rightarrow> m(channel \<mapsto> grant_credits n s))"

subsection \<open>The input\<close>

text \<open>The channel of the input is the list of the batches still to come before it is closed.\<close>

record 'a network_input =
  ni_batches :: "data_batch list"
  ni_elements :: "'a stream_element list"

definition network_input_new :: "data_batch list \<Rightarrow> 'a network_input" where
  "network_input_new batches = \<lparr>ni_batches = batches, ni_elements = []\<rparr>"

function network_recv :: "(bytes \<Rightarrow> 'a stream_element option) \<Rightarrow> 'a network_input \<Rightarrow> 'a stream_element option \<times> 'a network_input" where
  "network_recv deser s =
     (case ni_elements s of
        e # es \<Rightarrow> (Some e, s\<lparr>ni_elements := es\<rparr>)
      | [] \<Rightarrow>
          (case ni_batches s of
             [] \<Rightarrow> (None, s)
           | b # bs \<Rightarrow>
               if batch_is_barrier b
               then (Some (ElemBarrier (barrier_new (batch_checkpoint b) ts_MIN)), s\<lparr>ni_batches := bs\<rparr>)
               else network_recv deser (s\<lparr>ni_batches := bs, ni_elements := decode_payload deser (batch_payload b)\<rparr>)))"
  by pat_completeness auto
termination by (relation "measure (\<lambda>(deser, s). length (ni_batches s))") auto

declare network_recv.simps [simp del]

subsection \<open>What the input delivers\<close>





fun recv_times :: "(bytes \<Rightarrow> 'a stream_element option) \<Rightarrow> nat \<Rightarrow> 'a network_input \<Rightarrow> 'a stream_element option list" where
  "recv_times deser 0 s = []"
| "recv_times deser (Suc n) s = (case network_recv deser s of (r, s') \<Rightarrow> r # recv_times deser n s')"


subsection \<open>What the collector has sent\<close>

datatype 'a net_action = SendElement "'a stream_element" | GrantCredits u32

fun net_send where
  "net_send ser snd_op (ElemRecord r) s = net_collect ser snd_op s r"
| "net_send ser snd_op (ElemWatermark w) s = net_collect_watermark ser snd_op s w"
| "net_send ser snd_op (ElemBarrier b) s = net_collect_barrier snd_op s b"

fun net_run where
  "net_run ser snd_op [] s = (s, Ok ())"
| "net_run ser snd_op (SendElement e # acts) s = and_then (net_send ser snd_op e s) (net_run ser snd_op acts)"
| "net_run ser snd_op (GrantCredits n # acts) s = net_run ser snd_op acts (grant_credits n s)"















subsection \<open>Routing and credits\<close>

text \<open>
  \<open>ExchangeRouter\<close>: the subscribers by channel, each with the batches it was sent and whether its receiver still lives. A
  sender that waits for room is served: \<open>send\<close> fails only when the receiver is gone. The loop of \<open>exchange_data\<close> reads one inbound
  stream, \<open>None\<close> being a transport error, and returns the grants it sent back.
\<close>

record subscriber =
  sub_alive :: bool
  sub_batches :: "data_batch list"

record exchange_router =
  subscribers :: "string \<rightharpoonup> subscriber"
  initial_credits :: u32

definition exchange_router_new :: "u32 \<Rightarrow> exchange_router" where
  "exchange_router_new n = \<lparr>subscribers = Map.empty, initial_credits = n\<rparr>"

definition subscribe :: "string \<Rightarrow> subscriber \<Rightarrow> exchange_router \<Rightarrow> exchange_router" where
  "subscribe channel sub x = x\<lparr>subscribers := (subscribers x)(channel \<mapsto> sub)\<rparr>"

definition unsubscribe :: "string \<Rightarrow> exchange_router \<Rightarrow> exchange_router" where
  "unsubscribe channel x = x\<lparr>subscribers := (subscribers x)(channel := None)\<rparr>"

definition route :: "data_batch \<Rightarrow> exchange_router \<Rightarrow> exchange_router \<times> string option" where
  "route b x =
     (case subscribers x (batch_channel b) of
        Some sub \<Rightarrow>
          if sub_alive sub
          then (x\<lparr>subscribers := (subscribers x)(batch_channel b \<mapsto> sub\<lparr>sub_batches := sub_batches sub @ [b]\<rparr>)\<rparr>, Some (batch_channel b))
          else (x, None)
      | None \<Rightarrow> (x, None))"

fun exchange_loop :: "u32 \<Rightarrow> data_batch option list \<Rightarrow> string list \<Rightarrow> exchange_router \<Rightarrow> exchange_router \<times> (string \<times> u32) list" where
  "exchange_loop initial [] seen x = (x, [])"
| "exchange_loop initial (None # inbound) seen x = (x, [])"
| "exchange_loop initial (Some b # inbound) seen x =
     (let channel = batch_channel b;
          first = (if channel \<in> set seen then [] else [(channel, initial)]);
          (x1, routed) = route b x;
          (x2, grants) = exchange_loop initial inbound (if channel \<in> set seen then seen else channel # seen) x1
      in (x2, first @ (if routed \<noteq> None then [(channel, 1)] else []) @ grants))"

definition exchange_data :: "data_batch option list \<Rightarrow> exchange_router \<Rightarrow> exchange_router \<times> (string \<times> u32) list" where
  "exchange_data inbound x = exchange_loop (initial_credits x) inbound [] x"

text \<open>Batches reach their live subscriber in order, and every channel gets the initial credits once plus one for each batch
  delivered.\<close>

definition batches_for :: "string \<Rightarrow> data_batch option list \<Rightarrow> data_batch list" where
  "batches_for channel inbound = filter (\<lambda>b. batch_channel b = channel) (map the (takeWhile (\<lambda>r. r \<noteq> None) inbound))"

definition credits_for :: "string \<Rightarrow> (string \<times> u32) list \<Rightarrow> nat" where
  "credits_for channel grants = sum_list (map (\<lambda>(c, n). if c = channel then unat n else 0) grants)"

lemma exchange_loop_delivers:
  assumes "subscribers x channel = Some sub" and "sub_alive sub" and "exchange_loop initial inbound seen x = (x', grants)"
  shows "subscribers x' channel = Some (sub\<lparr>sub_batches := sub_batches sub @ batches_for channel inbound\<rparr>) \<and>
    credits_for channel grants = length (batches_for channel inbound) +
      (if channel \<notin> set seen \<and> batches_for channel inbound \<noteq> [] then unat initial else 0)"
  using assms
proof (induction initial inbound seen x arbitrary: sub x' grants rule: exchange_loop.induct)
  case (3 initial b inbound seen x)
  let ?seen = "if batch_channel b \<in> set seen then seen else batch_channel b # seen"
  obtain x1 routed where r: "route b x = (x1, routed)" by fastforce
  obtain x2 gs where l: "exchange_loop initial inbound ?seen x1 = (x2, gs)" by fastforce
  define sub1 where "sub1 = (if batch_channel b = channel then sub\<lparr>sub_batches := sub_batches sub @ [b]\<rparr> else sub)"
  have x1: "subscribers x1 channel = Some sub1" "sub_alive sub1" and routed: "batch_channel b = channel \<longrightarrow> routed \<noteq> None"
    using r "3.prems"(1,2) by (auto simp: route_def sub1_def split: option.splits if_splits)
  have res: "x' = x2" "grants = (if batch_channel b \<in> set seen then [] else [(batch_channel b, initial)]) @
      (if routed \<noteq> None then [(batch_channel b, 1)] else []) @ gs"
    using "3.prems"(3) r l by (auto simp: Let_def)
  have IH: "subscribers x2 channel = Some (sub1\<lparr>sub_batches := sub_batches sub1 @ batches_for channel inbound\<rparr>) \<and>
    credits_for channel gs = length (batches_for channel inbound) +
      (if channel \<notin> set ?seen \<and> batches_for channel inbound \<noteq> [] then unat initial else 0)"
    using "3.IH" [OF refl refl r [symmetric] refl x1] l by simp
  show ?case
    using IH routed unfolding res by (cases "batch_channel b = channel") (auto simp: sub1_def batches_for_def credits_for_def)
qed (auto simp: batches_for_def credits_for_def)

subsection \<open>Properties\<close>


subsection \<open>Witness and examples\<close>

text \<open>A codec for byte-valued records; a watermark is written as a tag byte.\<close>

fun byte_ser :: "u8 stream_element \<Rightarrow> bytes option" where
  "byte_ser (ElemRecord r) = Some [0, rec_value r]"
| "byte_ser (ElemWatermark w) = Some [1]"
| "byte_ser (ElemBarrier b) = Some [2]"

definition byte_deser :: "bytes \<Rightarrow> u8 stream_element option" where
  "byte_deser bs =
     (if length bs = 2 \<and> bs ! 0 = 0 then Some (ElemRecord (record_new (bs ! 1) ts_MIN))
      else if bs = [1] then Some (ElemWatermark (Watermark ts_MIN)) else None)"

definition byte_record :: "u8 \<Rightarrow> u8 stream_element" where "byte_record v = ElemRecord (record_new v ts_MIN)"



lemma frame_not_Nil [simp]: "frame bs \<noteq> []"
  using arg_cong [of "frame bs" "[]" length] by (auto simp: frame_def)

lemmas net_simps = net_collect_def net_collect_watermark_def serialize_element_def flush_def send_batch_def bounded_try_send_def
  network_collector_new_def grant_credits_def u32_saturating_add_def byte_record_def Let_def





text \<open>A watermark is put into its batch without the length prefix, so the input reads its first bytes as a length and
  drops it: here the watermark is accepted and sent, and nothing arrives.\<close>

lemma watermark_not_delivered:
  "case net_run byte_ser (bounded_try_send 4) [GrantCredits 1, SendElement (ElemWatermark (Watermark ts_MIN))] (network_collector_new ''c'' [] 2)
   of (s, r) \<Rightarrow> r = Ok () \<and> length (nc_tx s) = 1 \<and> recv_times byte_deser 1 (network_input_new (nc_tx s)) = [None]"
  by (simp add: net_simps network_input_new_def network_recv.simps decode_payload.simps)

text \<open>The first exchange never starts. A collector without credits sends neither records nor watermarks, and the receiving
  side grants its initial credits only on the first batch of a channel.\<close>

lemma no_credit_no_batch:
  assumes "nc_credits s = 0" and "list_all (\<lambda>e. \<not> (\<exists>b. e = ElemBarrier b)) es"
  shows "nc_tx (fold (\<lambda>e s. fst (net_send ser snd_op e s)) es s) = nc_tx s \<and>
    nc_credits (fold (\<lambda>e s. fst (net_send ser snd_op e s)) es s) = 0"
  using assms
proof (induction es arbitrary: s)
  case (Cons e es)
  have "nc_tx (fst (net_send ser snd_op e s)) = nc_tx s \<and> nc_credits (fst (net_send ser snd_op e s)) = 0"
    using Cons.prems
    by (cases e) (auto simp: net_collect_def net_collect_watermark_def serialize_element_def flush_def and_then_def Let_def split: option.splits)
  with Cons show ?case by simp
qed simp

lemma exchange_never_starts:
  assumes "list_all (\<lambda>e. \<not> (\<exists>b. e = ElemBarrier b)) es" and "q tx = []"
  shows "exchange_data (map Some (q (nc_tx (fold (\<lambda>e s. fst (net_send ser snd_op e s)) es (network_collector_new channel tx batch_size))))) x = (x, [])"
proof -
  have "nc_tx (fold (\<lambda>e s. fst (net_send ser snd_op e s)) es (network_collector_new channel tx batch_size)) = tx"
    using no_credit_no_batch [OF _ assms(1), of "network_collector_new channel tx batch_size" ser snd_op]
    by (simp add: network_collector_new_def)
  then show ?thesis using assms(2) by (simp add: exchange_data_def)
qed

end
