(* ===== verification/Connectors.thy ===== *)
theory Connectors
  imports Pipeline Network
begin

text \<open>
  The connectors: sources and sinks over files, TCP connections and Kafka (\<open>flume-connectors\<close>). A \<open>String\<close> is its UTF-8
  bytes. The operating system's and the brokers' answers are arguments: the bytes that a reader gets and
  where a read fails, the buffered writer of tokio, the Kafka client.
\<close>

subsection \<open>Text\<close>

text \<open>What \<open>str::from_utf8\<close> accepts.\<close>

definition continuation :: "u8 \<Rightarrow> bool" where "continuation b \<longleftrightarrow> 0x80 \<le> b \<and> b \<le> 0xBF"

fun valid_utf8 :: "bytes \<Rightarrow> bool" where
  "valid_utf8 [] = True"
| "valid_utf8 (b # bs) =
     (if b < 0x80 then valid_utf8 bs
      else if 0xC2 \<le> b \<and> b \<le> 0xDF then (case bs of c # cs \<Rightarrow> continuation c \<and> valid_utf8 cs | _ \<Rightarrow> False)
      else if 0xE0 \<le> b \<and> b \<le> 0xEF then
        (case bs of
           c # d # cs \<Rightarrow> continuation c \<and> (b = 0xE0 \<longrightarrow> 0xA0 \<le> c) \<and> (b = 0xED \<longrightarrow> c \<le> 0x9F) \<and> continuation d \<and> valid_utf8 cs
         | _ \<Rightarrow> False)
      else if 0xF0 \<le> b \<and> b \<le> 0xF4 then
        (case bs of
           c # d # e # cs \<Rightarrow> continuation c \<and> (b = 0xF0 \<longrightarrow> 0x90 \<le> c) \<and> (b = 0xF4 \<longrightarrow> c \<le> 0x8F) \<and> continuation d \<and> continuation e \<and>
             valid_utf8 cs
         | _ \<Rightarrow> False)
      else False)"

definition utf8_of :: "string \<Rightarrow> bytes" where "utf8_of s = map of_char s"

text \<open>\<open>read_line\<close> takes the bytes up to the next newline, or to the end.\<close>

fun line_chunk :: "bytes \<Rightarrow> bytes" where
  "line_chunk [] = []"
| "line_chunk (b # bs) = (if b = 10 then [b] else b # line_chunk bs)"

definition trim_end :: "u8 \<Rightarrow> bytes \<Rightarrow> bytes" where
  "trim_end b bs = rev (dropWhile (\<lambda>x. x = b) (rev bs))"

definition trim_line :: "bytes \<Rightarrow> bytes" where "trim_line bs = trim_end 13 (trim_end 10 bs)"

text \<open>A reader over bytes that never change once they are there; \<open>Some n\<close> is a read that fails after n bytes of the line.
  What a failed call leaves in the line buffer is not kept: the next call clears it before anything reads it.\<close>

definition read_line :: "nat option \<Rightarrow> bytes \<Rightarrow> nat \<Rightarrow> (string + bytes) \<times> nat" where
  "read_line fault content pos =
     (let chunk = line_chunk (drop pos content)
      in case fault of
           Some n \<Rightarrow> (Inl ''read failed'', pos + min n (length chunk))
         | None \<Rightarrow> (if valid_utf8 chunk then Inr chunk else Inl ''stream did not contain valid UTF-8'', pos + length chunk))"

subsection \<open>Files\<close>

text \<open>The files at the moment a path is opened.\<close>

type_synonym files = "string \<rightharpoonup> bytes"

record file_source =
  fsr_path :: string
  fsr_content :: bytes
  fsr_pos :: nat
  fsr_bytes_read :: u64
  fsr_line :: bytes

definition file_source_new :: "files \<Rightarrow> string \<Rightarrow> file_source res" where
  "file_source_new fs path =
     (case fs path of
        None \<Rightarrow> Err (IoError ''open'')
      | Some content \<Rightarrow> Ok \<lparr>fsr_path = path, fsr_content = content, fsr_pos = 0, fsr_bytes_read = 0, fsr_line = []\<rparr>)"

text \<open>What a call of \<open>next\<close> meets: whether its read fails, and the clock.\<close>

type_synonym read_event = "nat option \<times> duration option"

definition file_source_next :: "read_event \<Rightarrow> file_source \<Rightarrow> file_source \<times> bytes stream_element option res" where
  "file_source_next ev s =
     (case read_line (fst ev) (fsr_content s) (fsr_pos s) of
        (Inl e, pos) \<Rightarrow> (s\<lparr>fsr_line := [], fsr_pos := pos\<rparr>, Err (IoError e))
      | (Inr chunk, pos) \<Rightarrow>
          (let s1 = s\<lparr>fsr_line := chunk, fsr_pos := pos\<rparr>
           in if chunk = [] then (s1, Ok None)
              else case checked_add (fsr_bytes_read s1) (word_of_nat (length chunk)) of
                     Ok n \<Rightarrow> (s1\<lparr>fsr_bytes_read := n\<rparr>, Ok (Some (ElemRecord (record_new (trim_line chunk) (now_millis (snd ev))))))
                   | Err e \<Rightarrow> (s1, Err e)
                   | Panic p \<Rightarrow> (s1, Panic p)))"

definition file_source_snapshot :: "file_source \<Rightarrow> bytes res" where
  "file_source_snapshot s = Ok (u64_to_le_bytes (fsr_bytes_read s))"

text \<open>Seeking past the end of a file succeeds, and reading there finds nothing; an offset that is negative as a signed integer is an error.\<close>

definition file_source_restore :: "files \<Rightarrow> file_source \<Rightarrow> bytes \<Rightarrow> file_source \<times> unit res" where
  "file_source_restore fs s state =
     (if length state \<noteq> 8 then (s, Err (CheckpointError ''invalid offset''))
      else (let offset = u64_from_le_bytes state
            in case fs (fsr_path s) of
                 None \<Rightarrow> (s, Err (IoError ''open''))
               | Some content \<Rightarrow>
                   (if 2 ^ 63 \<le> unat offset then (s, Err (IoError ''seek''))
                    else (s\<lparr>fsr_content := content, fsr_pos := unat offset, fsr_bytes_read := offset\<rparr>, Ok ()))))"

text \<open>
  \<open>tokio::io::BufWriter\<close>: \<open>write_all\<close> and \<open>flush\<close> over a state \<open>'w\<close>; the boolean is success. What is promised
  of it: \<open>written\<close> has reached the file, \<open>pending\<close> is in the buffer, and is lost when the writer is dropped.
\<close>

record 'w writer_ops =
  write_all :: "'w \<Rightarrow> bytes \<Rightarrow> 'w \<times> bool"
  flush_all :: "'w \<Rightarrow> 'w \<times> bool"

locale buffered_writer =
  fixes ops :: "'w writer_ops" and written :: "'w \<Rightarrow> bytes" and pending :: "'w \<Rightarrow> bytes"
  assumes write_all: "write_all ops w bs = (w', True) \<Longrightarrow> written w' @ pending w' = written w @ pending w @ bs"
    and write_grows: "write_all ops w bs = (w', ok) \<Longrightarrow> \<exists>d. written w' = written w @ d"
    and flush_all: "flush_all ops w = (w', True) \<Longrightarrow> written w' = written w @ pending w \<and> pending w' = []"
    and flush_grows: "flush_all ops w = (w', ok) \<Longrightarrow> \<exists>d. written w' = written w @ d"

text \<open>A writer with this behaviour: a buffer of fixed capacity in front of a file on a disk with limited room.\<close>

record buf_writer =
  bw_capacity :: nat
  bw_buffer :: bytes
  bw_file :: bytes
  bw_room :: nat

definition bw_put :: "buf_writer \<Rightarrow> bytes \<Rightarrow> buf_writer \<times> bool" where
  "bw_put w bs = (w\<lparr>bw_file := bw_file w @ take (bw_room w) bs, bw_room := bw_room w - length bs\<rparr>, length bs \<le> bw_room w)"

definition bw_flush :: "buf_writer \<Rightarrow> buf_writer \<times> bool" where
  "bw_flush w = (case bw_put w (bw_buffer w) of (w', ok) \<Rightarrow> (w'\<lparr>bw_buffer := drop (bw_room w) (bw_buffer w)\<rparr>, ok))"

definition bw_write :: "buf_writer \<Rightarrow> bytes \<Rightarrow> buf_writer \<times> bool" where
  "bw_write w bs =
     (case (if bw_capacity w < length (bw_buffer w) + length bs then bw_flush w else (w, True)) of
        (w', False) \<Rightarrow> (w', False)
      | (w', True) \<Rightarrow> (if bw_capacity w \<le> length bs then bw_put w' bs else (w'\<lparr>bw_buffer := bw_buffer w' @ bs\<rparr>, True)))"

definition buf_ops :: "buf_writer writer_ops" where "buf_ops = \<lparr>write_all = bw_write, flush_all = bw_flush\<rparr>"

lemma bw_put_grows: "bw_put w bs = (w', ok) \<Longrightarrow> (\<exists>d. bw_file w' = bw_file w @ d) \<and> bw_buffer w' = bw_buffer w"
  by (auto simp: bw_put_def)

lemma bw_flush_grows: "bw_flush w = (w', ok) \<Longrightarrow> (\<exists>d. bw_file w' = bw_file w @ d)"
  by (auto simp: bw_flush_def bw_put_def)

lemma bw_flush_all: "bw_flush w = (w', True) \<Longrightarrow> bw_file w' = bw_file w @ bw_buffer w \<and> bw_buffer w' = []"
  by (auto simp: bw_flush_def bw_put_def)

interpretation buf: buffered_writer buf_ops bw_file bw_buffer
proof
  fix w w' :: buf_writer and bs :: bytes and ok
  show "flush_all buf_ops w = (w', True) \<Longrightarrow> bw_file w' = bw_file w @ bw_buffer w \<and> bw_buffer w' = []"
    using bw_flush_all by (simp add: buf_ops_def)
  show "flush_all buf_ops w = (w', ok) \<Longrightarrow> \<exists>d. bw_file w' = bw_file w @ d"
    using bw_flush_grows by (simp add: buf_ops_def)
  obtain w1 ok1 where first: "(if bw_capacity w < length (bw_buffer w) + length bs then bw_flush w else (w, True)) = (w1, ok1)" by fastforce
  from first bw_flush_grows [of w w1 ok1] have grows: "\<exists>d. bw_file w1 = bw_file w @ d" by (auto split: if_splits)
  show "\<exists>d. bw_file w' = bw_file w @ d" if "write_all buf_ops w bs = (w', ok)"
  proof -
    from that have "bw_write w bs = (w', ok)" by (simp add: buf_ops_def)
    then consider "w' = w1" | "bw_put w1 bs = (w', ok)" | "w' = w1\<lparr>bw_buffer := bw_buffer w1 @ bs\<rparr>"
      unfolding bw_write_def first by (cases ok1) (auto split: if_splits)
    then show ?thesis
    proof cases
      case 2
      from bw_put_grows [OF this] grows show ?thesis by fastforce
    qed (use grows in auto)
  qed
  show "bw_file w' @ bw_buffer w' = bw_file w @ bw_buffer w @ bs" if "write_all buf_ops w bs = (w', True)"
  proof -
    from that have wr: "bw_write w bs = (w', True)" by (simp add: buf_ops_def)
    then have ok1: "ok1 = True" unfolding bw_write_def first by (cases ok1) auto
    show ?thesis
    proof (cases "bw_capacity w \<le> length bs")
      case True
      then have "bw_file w1 = bw_file w @ bw_buffer w \<and> bw_buffer w1 = []"
        using first ok1 bw_flush_all [of w w1] by (cases "bw_buffer w") (auto split: if_splits)
      moreover have "bw_put w1 bs = (w', True)" using wr True unfolding bw_write_def first ok1 by simp
      ultimately show ?thesis by (auto simp: bw_put_def)
    next
      case False
      have "bw_file w1 @ bw_buffer w1 = bw_file w @ bw_buffer w" using first ok1 bw_flush_all [of w w1] by (auto split: if_splits)
      moreover have "w' = w1\<lparr>bw_buffer := bw_buffer w1 @ bs\<rparr>" using wr False unfolding bw_write_def first ok1 by simp
      ultimately show ?thesis by simp
    qed
  qed
qed

definition sink_result :: "(string \<Rightarrow> flume_error) \<Rightarrow> 'w \<times> bool \<Rightarrow> 'w \<times> unit res" where
  "sink_result mk r = (fst r, if snd r then Ok () else Err (mk ''write''))"

text \<open>\<open>FileSink\<close> and \<open>TcpSink\<close> write one line per record; \<open>show_value\<close> is the value's \<open>Display\<close>.\<close>

definition line_sink :: "(string \<Rightarrow> flume_error) \<Rightarrow> 'w writer_ops \<Rightarrow> ('v \<Rightarrow> bytes) \<Rightarrow> ('w, 'v) sink_ops" where
  "line_sink mk ops show_value = \<lparr>
     sink_write = (\<lambda>w rec. sink_result mk (write_all ops w (show_value (rec_value rec) @ [10]))),
     sink_flush = (\<lambda>w. sink_result mk (flush_all ops w)),
     sink_snapshot = (\<lambda>_. Ok []), sink_restore = (\<lambda>w _. (w, Ok ()))\<rparr>"

lemma line_sink_step:
  "sink_write (line_sink mk ops show_value) w rec = sink_result mk (write_all ops w (show_value (rec_value rec) @ [10]))"
  "sink_flush (line_sink mk ops show_value) w = sink_result mk (flush_all ops w)"
  by (simp_all add: line_sink_def)

definition file_sink :: "'w writer_ops \<Rightarrow> ('v \<Rightarrow> bytes) \<Rightarrow> ('w, 'v) sink_ops" where
  "file_sink = line_sink IoError"

definition file_sink_new :: "'w option \<Rightarrow> 'w res" where
  "file_sink_new created = (case created of None \<Rightarrow> Err (IoError ''create'') | Some w \<Rightarrow> Ok w)"

subsection \<open>TCP\<close>

definition tcp_sink :: "'w writer_ops \<Rightarrow> ('v \<Rightarrow> bytes) \<Rightarrow> ('w, 'v) sink_ops" where
  "tcp_sink = line_sink SinkError"

definition tcp_sink_connect :: "'w option \<Rightarrow> 'w res" where
  "tcp_sink_connect stream = (case stream of None \<Rightarrow> Err (SinkError ''connect'') | Some w \<Rightarrow> Ok w)"

text \<open>The bytes the peer sends until it closes.\<close>

record tcp_source =
  tsr_incoming :: bytes
  tsr_pos :: nat
  tsr_line :: bytes

definition tcp_source_connect :: "bytes option \<Rightarrow> tcp_source res" where
  "tcp_source_connect stream =
     (case stream of
        None \<Rightarrow> Err (SourceError ''connect'')
      | Some incoming \<Rightarrow> Ok \<lparr>tsr_incoming = incoming, tsr_pos = 0, tsr_line = []\<rparr>)"

definition tcp_source_next :: "read_event \<Rightarrow> tcp_source \<Rightarrow> tcp_source \<times> bytes stream_element option res" where
  "tcp_source_next ev s =
     (case read_line (fst ev) (tsr_incoming s) (tsr_pos s) of
        (Inl e, pos) \<Rightarrow> (s\<lparr>tsr_line := [], tsr_pos := pos\<rparr>, Err (SourceError e))
      | (Inr chunk, pos) \<Rightarrow>
          (s\<lparr>tsr_line := chunk, tsr_pos := pos\<rparr>,
           Ok (if chunk = [] then None else Some (ElemRecord (record_new (trim_line chunk) (now_millis (snd ev)))))))"

definition tcp_source_snapshot :: "tcp_source \<Rightarrow> bytes res" where "tcp_source_snapshot s = Ok []"

definition tcp_source_restore :: "tcp_source \<Rightarrow> bytes \<Rightarrow> tcp_source \<times> unit res" where "tcp_source_restore s state = (s, Ok ())"

subsection \<open>Kafka\<close>

text \<open>The builders. A client configuration is a map; \<open>order\<close> iterates the hash map of extra entries.\<close>

type_synonym client_config = "bytes \<rightharpoonup> bytes"

record kafka_source_builder =
  ksb_brokers :: bytes
  ksb_topic :: bytes
  ksb_group_id :: bytes
  ksb_extra :: client_config

definition kafka_source_builder_new :: kafka_source_builder where
  "kafka_source_builder_new = \<lparr>ksb_brokers = [], ksb_topic = [], ksb_group_id = [], ksb_extra = Map.empty\<rparr>"

definition ksb_set_brokers :: "bytes \<Rightarrow> kafka_source_builder \<Rightarrow> kafka_source_builder" where "ksb_set_brokers x b = b\<lparr>ksb_brokers := x\<rparr>"
definition ksb_set_topic :: "bytes \<Rightarrow> kafka_source_builder \<Rightarrow> kafka_source_builder" where "ksb_set_topic x b = b\<lparr>ksb_topic := x\<rparr>"
definition ksb_set_group_id :: "bytes \<Rightarrow> kafka_source_builder \<Rightarrow> kafka_source_builder" where "ksb_set_group_id x b = b\<lparr>ksb_group_id := x\<rparr>"
definition ksb_config :: "bytes \<Rightarrow> bytes \<Rightarrow> kafka_source_builder \<Rightarrow> kafka_source_builder" where
  "ksb_config k v b = b\<lparr>ksb_extra := (ksb_extra b)(k \<mapsto> v)\<rparr>"

definition set_entries :: "(client_config \<Rightarrow> bytes list) \<Rightarrow> client_config \<Rightarrow> client_config \<Rightarrow> client_config" where
  "set_entries order extra config = fold (\<lambda>k c. c(k := extra k)) (order extra) config"

text \<open>What the client library offers: a consumer over a state \<open>'k\<close>. A message has its payload, its timestamp in milliseconds and its
  key; a position is an offset or one of the symbolic ones. Partitions (\<open>i32\<close>) and offsets (\<open>i64\<close>) are words: only their bits matter here.\<close>

record kafka_message =
  km_payload :: "bytes option"
  km_timestamp :: "u64 option"
  km_key :: "bytes option"

datatype kafka_offset = AtOffset u64 | SymbolicOffset

record 'k kafka_consumer =
  kc_recv :: "'k \<Rightarrow> 'k \<times> (string + kafka_message)"
  kc_assignment :: "'k \<Rightarrow> string + u32 list"
  kc_position :: "'k \<Rightarrow> string + (u32 \<times> kafka_offset) list"
  kc_valid_offset :: "bytes \<Rightarrow> u32 \<Rightarrow> u64 \<Rightarrow> string option"
  kc_assign :: "'k \<Rightarrow> (bytes \<times> u32 \<times> u64) list \<Rightarrow> 'k \<times> string option"

record 'k kafka_source =
  ks_consumer :: 'k
  ks_topic :: bytes

definition kafka_source_build :: "(client_config \<Rightarrow> bytes list) \<Rightarrow> (client_config \<Rightarrow> string + 'k) \<Rightarrow> ('k \<Rightarrow> bytes \<Rightarrow> 'k \<times> string option) \<Rightarrow>
    kafka_source_builder \<Rightarrow> 'k kafka_source res" where
  "kafka_source_build order create subscribe_topic b =
     (if ksb_brokers b = [] then Err (ConfigError ''brokers must be set'')
      else if ksb_topic b = [] then Err (ConfigError ''topic must be set'')
      else if ksb_group_id b = [] then Err (ConfigError ''group_id must be set'')
      else
        (let config = [utf8_of ''bootstrap.servers'' \<mapsto> ksb_brokers b, utf8_of ''group.id'' \<mapsto> ksb_group_id b,
               utf8_of ''auto.offset.reset'' \<mapsto> utf8_of ''earliest'']
         in case create (set_entries order (ksb_extra b) config) of
              Inl e \<Rightarrow> Err (SourceError e)
            | Inr consumer \<Rightarrow>
                (case subscribe_topic consumer (ksb_topic b) of
                   (consumer', Some e) \<Rightarrow> Err (SourceError e)
                 | (consumer', None) \<Rightarrow> Ok \<lparr>ks_consumer = consumer', ks_topic = ksb_topic b\<rparr>)))"

definition kafka_source_next :: "'k kafka_consumer \<Rightarrow> duration option \<Rightarrow> 'k kafka_source \<Rightarrow> 'k kafka_source \<times> bytes stream_element option res" where
  "kafka_source_next kc clock s =
     (case kc_recv kc (ks_consumer s) of
        (k, Inl e) \<Rightarrow> (s\<lparr>ks_consumer := k\<rparr>, Err (SourceError e))
      | (k, Inr msg) \<Rightarrow>
          (s\<lparr>ks_consumer := k\<rparr>,
           case km_payload msg of
             None \<Rightarrow> Ok (Some (ElemRecord (record_new [] (now_millis clock))))
           | Some payload \<Rightarrow>
               (if \<not> valid_utf8 payload then Err (SourceError ''invalid utf-8'')
                else (let timestamp = (case km_timestamp msg of Some ms \<Rightarrow> EventTimestamp ms | None \<Rightarrow> now_millis clock);
                          record = record_new payload timestamp
                      in Ok (Some (ElemRecord (case km_key msg of Some key \<Rightarrow> with_key record key | None \<Rightarrow> record)))))))"

text \<open>The snapshot: the topic and, for each partition, its offset; an assigned partition without a position is stored as 0.\<close>

definition known_offsets :: "(u32 \<times> kafka_offset) list \<Rightarrow> (u32 \<times> u64) list" where
  "known_offsets positions = concat (map (\<lambda>(p, off). case off of AtOffset n \<Rightarrow> [(p, n)] | SymbolicOffset \<Rightarrow> []) positions)"

definition partition_offsets :: "(u32 \<times> kafka_offset) list \<Rightarrow> u32 list \<Rightarrow> (u32 \<times> u64) list" where
  "partition_offsets positions assignment =
     fold (\<lambda>p ps. if p \<in> fst ` set ps then ps else ps @ [(p, 0)]) assignment
       (known_offsets positions)"

definition encode_offsets :: "bytes \<Rightarrow> (u32 \<times> u64) list \<Rightarrow> bytes" where
  "encode_offsets topic ps =
     u32_to_le_bytes (word_of_nat (length topic)) @ topic @ u32_to_le_bytes (word_of_nat (length ps)) @
       concat (map (\<lambda>(p, off). u32_to_le_bytes p @ u64_to_le_bytes off) ps)"

definition kafka_source_snapshot :: "'k kafka_consumer \<Rightarrow> 'k kafka_source \<Rightarrow> bytes res" where
  "kafka_source_snapshot kc s =
     (case kc_assignment kc (ks_consumer s) of
        Inl e \<Rightarrow> Err (SourceError e)
      | Inr assignment \<Rightarrow>
          (case kc_position kc (ks_consumer s) of
             Inl e \<Rightarrow> Err (SourceError e)
           | Inr positions \<Rightarrow> Ok (encode_offsets (ks_topic s) (partition_offsets positions assignment))))"

text \<open>The loop over the partitions of a snapshot.\<close>

fun read_partitions :: "(bytes \<Rightarrow> u32 \<Rightarrow> u64 \<Rightarrow> string option) \<Rightarrow> bytes \<Rightarrow> nat \<Rightarrow> bytes \<Rightarrow> (bytes \<times> u32 \<times> u64) list res" where
  "read_partitions valid topic 0 cursor = Ok []"
| "read_partitions valid topic (Suc n) cursor =
     (if length cursor < 12 then Err (CheckpointError ''invalid state: partition data truncated'')
      else (let partition = word_of_nat (le_bytes_value (take 4 cursor)); offset = u64_from_le_bytes (take 8 (drop 4 cursor))
            in case valid topic partition offset of
                 Some e \<Rightarrow> Err (CheckpointError (''failed to set offset: '' @ e))
               | None \<Rightarrow> bind_res (read_partitions valid topic n (drop 12 cursor)) (\<lambda>ps. Ok ((topic, partition, offset) # ps))))"

definition decode_offsets :: "(bytes \<Rightarrow> u32 \<Rightarrow> u64 \<Rightarrow> string option) \<Rightarrow> bytes \<Rightarrow> bytes \<Rightarrow> (bytes \<times> u32 \<times> u64) list res" where
  "decode_offsets valid topic state =
     (if length state < 4 then Err (CheckpointError ''invalid state: too short'')
      else (let topic_len = le_bytes_value (take 4 state); cursor = drop 4 state in
        if length cursor < topic_len then Err (CheckpointError ''invalid state: topic truncated'')
        else if \<not> valid_utf8 (take topic_len cursor) then Err (CheckpointError ''invalid topic utf8'')
        else (let cursor = drop topic_len cursor in
          if length cursor < 4 then Err (CheckpointError ''invalid state: no partition count'')
          else read_partitions valid topic (le_bytes_value (take 4 cursor)) (drop 4 cursor))))"

definition kafka_source_restore :: "'k kafka_consumer \<Rightarrow> 'k kafka_source \<Rightarrow> bytes \<Rightarrow> 'k kafka_source \<times> unit res" where
  "kafka_source_restore kc s state =
     (if state = [] then (s, Ok ())
      else case decode_offsets (kc_valid_offset kc) (ks_topic s) state of
             Err e \<Rightarrow> (s, Err e)
           | Panic p \<Rightarrow> (s, Panic p)
           | Ok tpl \<Rightarrow>
               (case kc_assign kc (ks_consumer s) tpl of
                  (k, Some e) \<Rightarrow> (s\<lparr>ks_consumer := k\<rparr>, Err (SourceError e))
                | (k, None) \<Rightarrow> (s\<lparr>ks_consumer := k\<rparr>, Ok ())))"

text \<open>The sink: a producer over a state \<open>'p\<close> that sends a message to a topic and flushes.\<close>

record kafka_sink_builder =
  kkb_brokers :: bytes
  kkb_topic :: bytes
  kkb_extra :: client_config

definition kafka_sink_builder_new :: kafka_sink_builder where
  "kafka_sink_builder_new = \<lparr>kkb_brokers = [], kkb_topic = [], kkb_extra = Map.empty\<rparr>"

definition kkb_set_brokers :: "bytes \<Rightarrow> kafka_sink_builder \<Rightarrow> kafka_sink_builder" where "kkb_set_brokers x b = b\<lparr>kkb_brokers := x\<rparr>"
definition kkb_set_topic :: "bytes \<Rightarrow> kafka_sink_builder \<Rightarrow> kafka_sink_builder" where "kkb_set_topic x b = b\<lparr>kkb_topic := x\<rparr>"
definition kkb_config :: "bytes \<Rightarrow> bytes \<Rightarrow> kafka_sink_builder \<Rightarrow> kafka_sink_builder" where
  "kkb_config k v b = b\<lparr>kkb_extra := (kkb_extra b)(k \<mapsto> v)\<rparr>"

record 'p kafka_sink_state =
  kk_producer :: 'p
  kk_topic :: bytes

definition kafka_sink_build :: "(client_config \<Rightarrow> bytes list) \<Rightarrow> (client_config \<Rightarrow> string + 'p) \<Rightarrow> kafka_sink_builder \<Rightarrow> 'p kafka_sink_state res" where
  "kafka_sink_build order create b =
     (if kkb_brokers b = [] then Err (ConfigError ''brokers must be set'')
      else if kkb_topic b = [] then Err (ConfigError ''topic must be set'')
      else case create (set_entries order (kkb_extra b) [utf8_of ''bootstrap.servers'' \<mapsto> kkb_brokers b]) of
             Inl e \<Rightarrow> Err (SinkError e)
           | Inr producer \<Rightarrow> Ok \<lparr>kk_producer = producer, kk_topic = kkb_topic b\<rparr>)"

record 'p kafka_producer =
  kp_send :: "'p \<Rightarrow> bytes \<Rightarrow> bytes \<Rightarrow> bytes option \<Rightarrow> 'p \<times> string option"
  kp_flush :: "'p \<Rightarrow> 'p \<times> bool"

definition kafka_sink :: "'p kafka_producer \<Rightarrow> ('v \<Rightarrow> bytes) \<Rightarrow> ('p kafka_sink_state, 'v) sink_ops" where
  "kafka_sink kp show_value = \<lparr>
     sink_write = (\<lambda>s rec. case kp_send kp (kk_producer s) (kk_topic s) (show_value (rec_value rec)) (rec_key rec) of
        (p, None) \<Rightarrow> (s\<lparr>kk_producer := p\<rparr>, Ok ())
      | (p, Some e) \<Rightarrow> (s\<lparr>kk_producer := p\<rparr>, Err (SinkError e))),
     sink_flush = (\<lambda>s. case kp_flush kp (kk_producer s) of
        (p, True) \<Rightarrow> (s\<lparr>kk_producer := p\<rparr>, Ok ())
      | (p, False) \<Rightarrow> (s\<lparr>kk_producer := p\<rparr>, Panic ''called `Result::unwrap()` on an `Err` value'')),
     sink_snapshot = (\<lambda>_. Ok []), sink_restore = (\<lambda>s _. (s, Ok ()))\<rparr>"

end
