(* ===== verification/Pipeline_Correct.thy ===== *)
theory Pipeline_Correct
  imports Pipeline
begin

text \<open>
  What the pipeline builders promise. Every pipeline they build is well formed: each channel has one sender and one
  receiver, tasks only read from earlier tasks, channels have the configured size, and the logical graph is acyclic.
  When such a pipeline ends well, under any schedule, the sink has been fed exactly a stream that the network
  as built allows; for a chain of operators over a finite source that stream is their composition.
\<close>

subsection \<open>Well-formed environments\<close>

definition graph_ok :: "logical_graph \<Rightarrow> bool" where
  "graph_ok g \<longleftrightarrow> (\<forall>i<length (nodes g). node_ident (nodes g ! i) = i) \<and>
     (\<forall>e\<in>set (edges g). edge_from e < edge_to e \<and> edge_to e < length (nodes g))"

text \<open>The size of a channel: the configured one for mpsc, the next power of two and at least two for the ring buffer.\<close>

definition sized :: "pipeline_config \<Rightarrow> ('a, 'n) link \<Rightarrow> bool" where
  "sized config l \<longleftrightarrow> lk_capacity l = channel_buffer_size config \<or>
     cfg_channel_kind config = RingBuffer \<and> lk_capacity l = max (next_power_of_two (channel_buffer_size config)) 2"

definition core_ok :: "('v, 's, 'n) stream_env \<Rightarrow> bool" where
  "core_ok env \<longleftrightarrow> fresh_net (env_net env) \<and> net_ready (env_net env) \<and> graph_ok (env_graph env) \<and>
     (\<forall>l\<in>set (net_links (env_net env)). sized (env_config env) l) \<and> (\<forall>l\<in>set (net_pairs (env_net env)). sized (env_config env) l)"

text \<open>A channel that waits for its reader.\<close>

definition unread :: "('v, 's, 'n) net \<Rightarrow> nat \<Rightarrow> bool" where
  "unread net c \<longleftrightarrow> c < length (net_links net) \<and> (\<forall>sp\<in>set (net_spawned net). c \<notin> set (link_ins (sp_actor sp))) \<and>
     (\<exists>sp\<in>set (net_spawned net). c \<in> set (link_outs (sp_actor sp)))"

definition unread_pair :: "('v, 's, 'n) net \<Rightarrow> nat \<Rightarrow> bool" where
  "unread_pair net c \<longleftrightarrow> c < length (net_pairs net) \<and> (\<forall>sp\<in>set (net_spawned net). c \<notin> set (pair_ins (sp_actor sp))) \<and>
     (\<exists>sp\<in>set (net_spawned net). c \<in> set (pair_outs (sp_actor sp)))"

definition env_ok :: "('v, 's, 'n) stream_env \<Rightarrow> ('s, 'v) data_stream \<Rightarrow> bool" where
  "env_ok env ds \<longleftrightarrow> core_ok env \<and> ds_node ds < length (nodes (env_graph env)) \<and>
     (case ds_upstream ds of None \<Rightarrow> False | Some (FromSource src s) \<Rightarrow> True | Some (FromInput c) \<Rightarrow> unread (env_net env) c)"

lemma graph_ok_new: "graph_ok graph_new"
  by (simp add: graph_ok_def graph_new_def)

lemma graph_ok_add_node: "graph_ok g \<Longrightarrow> add_node g name kind p = (g', i) \<Longrightarrow> graph_ok g' \<and> i = length (nodes g) \<and> length (nodes g') = i + 1"
  by (auto simp: graph_ok_def add_node_def Let_def nth_append less_Suc_eq)

lemma graph_ok_add_edge: "graph_ok g \<Longrightarrow> a < b \<Longrightarrow> b < length (nodes g) \<Longrightarrow> graph_ok (add_edge g a b st)"
  by (auto simp: graph_ok_def add_edge_def)

lemma add_edge_nodes [simp]: "nodes (add_edge g a b st) = nodes g"
  by (simp add: add_edge_def)

text \<open>A graph with forward edges only is acyclic, so it has a topological order.\<close>

lemma graph_ok_sorted:
  assumes "graph_ok g"
  shows "\<exists>order. topological_order g = Ok (Some order) \<and> distinct order \<and> set order = {..<length (nodes g)} \<and>
    predecessors_first (edges g) order"
proof -
  have "edges_in_range g" using assms by (fastforce simp: graph_ok_def edges_in_range_def list_all_iff)
  moreover have "acyclic (edge_relation g)"
  proof -
    have "edge_relation g \<subseteq> {(a, b). a < b}" using assms by (auto simp: graph_ok_def edge_relation_def)
    moreover have "acyclic {(a, b :: nat). a < b}" by (rule acyclicI_order [of _ "\<lambda>x. x", THEN acyclic_converse [THEN iffD1], simplified]) simp
    ultimately show ?thesis by (rule acyclic_subset [rotated])
  qed
  ultimately show ?thesis using topological_order_exact [of g] by simp
qed

lemma fresh_link_new: "transport_valid ch \<Longrightarrow> transport_contents ch = [] \<Longrightarrow> \<not> transport_closed ch \<Longrightarrow> fresh_link (link_new ch)"
  by (simp add: fresh_link_def link_new_def link_ok_def lk_contents_def lk_capacity_def lk_closed_def)

lemma wired_more: "wired sps n m \<Longrightarrow> n \<le> n' \<Longrightarrow> m \<le> m' \<Longrightarrow> wired sps n' m'"
  by (auto simp: wired_def ports_ok_def dest: order_less_le_trans)

lemma wired_earlier:
  assumes "wired sps n m" and "k < length sps"
  shows "c \<in> set (link_ins (sp_actor (sps ! k))) \<Longrightarrow> \<exists>j<k. c \<in> set (link_outs (sp_actor (sps ! j)))"
    and "d \<in> set (pair_ins (sp_actor (sps ! k))) \<Longrightarrow> \<exists>j<k. d \<in> set (pair_outs (sp_actor (sps ! j)))"
  using assms unfolding wired_def by blast+

lemma wired_snoc:
  assumes "wired sps n m" and "ports_ok (sp_actor sp) n m"
    and "\<And>c. c \<in> set (link_ins (sp_actor sp)) \<Longrightarrow> (\<forall>sp'\<in>set sps. c \<notin> set (link_ins (sp_actor sp'))) \<and> (\<exists>sp'\<in>set sps. c \<in> set (link_outs (sp_actor sp')))"
    and "\<And>c. c \<in> set (pair_ins (sp_actor sp)) \<Longrightarrow> (\<forall>sp'\<in>set sps. c \<notin> set (pair_ins (sp_actor sp'))) \<and> (\<exists>sp'\<in>set sps. c \<in> set (pair_outs (sp_actor sp')))"
    and "\<And>c. c \<in> set (link_outs (sp_actor sp)) \<Longrightarrow> \<forall>sp'\<in>set sps. c \<notin> set (link_outs (sp_actor sp'))"
    and "\<And>c. c \<in> set (pair_outs (sp_actor sp)) \<Longrightarrow> \<forall>sp'\<in>set sps. c \<notin> set (pair_outs (sp_actor sp'))"
  shows "wired (sps @ [sp]) n m"
proof -
  let ?A = "\<lambda>k. sp_actor ((sps @ [sp]) ! k)"
  have old: "?A k = sp_actor (sps ! k)" "sps ! k \<in> set sps" if "k < length sps" for k using that by (simp_all add: nth_append)
  have new: "?A (length sps) = sp_actor sp" by simp
  have ports: "ports_ok (?A k) n m" if "k < Suc (length sps)" for k
    using that assms(1,2) old new by (auto simp: less_Suc_eq wired_def)
  have apart: "set (link_ins (?A j)) \<inter> set (link_ins (?A k)) = {} \<and> set (link_outs (?A j)) \<inter> set (link_outs (?A k)) = {} \<and>
      set (pair_ins (?A j)) \<inter> set (pair_ins (?A k)) = {} \<and> set (pair_outs (?A j)) \<inter> set (pair_outs (?A k)) = {}"
    if "j < k" "k < Suc (length sps)" for j k
  proof (cases "k = length sps")
    case True
    with that old [of j] assms(3-6) show ?thesis by (auto simp: new)
  next
    case False
    with that wired_apart [OF assms(1), of j k] old [of j] old [of k] show ?thesis by simp
  qed
  have earlier: "(\<forall>c\<in>set (link_ins (?A k)). \<exists>j<k. c \<in> set (link_outs (?A j))) \<and> (\<forall>c\<in>set (pair_ins (?A k)). \<exists>j<k. c \<in> set (pair_outs (?A j)))"
    if "k < Suc (length sps)" for k
  proof (cases "k = length sps")
    case True
    have "\<exists>j<length sps. c \<in> set (link_outs (?A j))" if "c \<in> set (link_ins (sp_actor sp))" for c
      using assms(3) [OF that] old by (metis in_set_conv_nth)
    moreover have "\<exists>j<length sps. c \<in> set (pair_outs (?A j))" if "c \<in> set (pair_ins (sp_actor sp))" for c
      using assms(4) [OF that] old by (metis in_set_conv_nth)
    ultimately show ?thesis using True by simp
  next
    case False
    with that have k: "k < length sps" by simp
    then have "\<exists>j<k. c \<in> set (link_outs (sp_actor (sps ! j)))" if "c \<in> set (link_ins (?A k))" for c
      using wired_earlier(1) [OF assms(1) k] that old [OF k] by simp
    moreover have "\<exists>j<k. c \<in> set (pair_outs (sp_actor (sps ! j)))" if "c \<in> set (pair_ins (?A k))" for c
      using wired_earlier(2) [OF assms(1) k] that old [OF k] by simp
    moreover have "?A j = sp_actor (sps ! j)" if "j < k" for j using that k by (simp add: nth_append)
    ultimately show ?thesis by (metis (mono_tags, lifting))
  qed
  have apart': "set (link_ins (?A j)) \<inter> set (link_ins (?A k)) = {} \<and> set (link_outs (?A j)) \<inter> set (link_outs (?A k)) = {} \<and>
      set (pair_ins (?A j)) \<inter> set (pair_ins (?A k)) = {} \<and> set (pair_outs (?A j)) \<inter> set (pair_outs (?A k)) = {}"
    if "j < Suc (length sps)" "k < Suc (length sps)" "j \<noteq> k" for j k
    using apart [of j k] apart [of k j] that by (cases "j < k") (auto simp: Int_commute)
  show ?thesis
    unfolding wired_def length_append_singleton using ports apart' earlier by (intro conjI allI impI) simp_all
qed

subsection \<open>Building keeps environments well formed\<close>

definition good_channel :: "pipeline_config \<Rightarrow> ('a, 'n) transport \<Rightarrow> bool" where
  "good_channel config ch \<longleftrightarrow> fresh_link (link_new ch) \<and> sized config (link_new ch)"

lemma operator_channel_good:
  "operator_channel (channel_buffer_size config) = Ok ch \<Longrightarrow> good_channel config ch"
  by (auto simp: operator_channel_def good_channel_def sized_def lk_capacity_def link_new_def fresh_link_def link_ok_def lk_contents_def
      lk_closed_def split: if_splits)

lemma ring_capacity: "rb_mask (ring_buffer n x) + 1 = max (next_power_of_two n) 2"
  by (simp add: ring_buffer_def Let_def)

lemma operator_channel_with_kind_good:
  assumes "operator_channel_with_kind (channel_buffer_size config) (cfg_channel_kind config) n0 = Ok ch"
  shows "good_channel config ch"
proof (cases "cfg_channel_kind config")
  case Mpsc
  with assms show ?thesis by (intro operator_channel_good) (simp add: operator_channel_with_kind_def)
next
  case RingBuffer
  with assms have ch: "ch = RingChannel (ring_buffer (channel_buffer_size config) n0)"
    by (simp add: operator_channel_with_kind_def operator_ring_buffer_def)
  have "fresh_link (link_new ch)"
    using channel_starts_empty [OF assms] by (intro fresh_link_new) simp_all
  moreover have "lk_capacity (link_new ch) = max (next_power_of_two (channel_buffer_size config)) 2"
    using ring_capacity [of "channel_buffer_size config" n0] by (simp add: lk_capacity_def link_new_def ch)
  ultimately show ?thesis using RingBuffer by (simp add: good_channel_def sized_def)
qed

lemma core_ok_link:
  assumes "core_ok env" and "good_channel (env_config env) ch" and "new_link ch env = (env', c)"
  shows "core_ok env' \<and> c = length (net_links (env_net env)) \<and> length (net_links (env_net env')) = c + 1 \<and>
    net_pairs (env_net env') = net_pairs (env_net env) \<and> net_spawned (env_net env') = net_spawned (env_net env) \<and>
    env_config env' = env_config env \<and> env_graph env' = env_graph env"
  using assms wired_more [of "net_spawned (env_net env)" "length (net_links (env_net env))" "length (net_pairs (env_net env))"
      "Suc (length (net_links (env_net env)))" "length (net_pairs (env_net env))"]
  by (auto simp: new_link_def core_ok_def fresh_net_def net_ready_def good_channel_def)

lemma core_ok_pair:
  assumes "core_ok env" and "good_channel (env_config env) ch" and "new_pair ch env = (env', c)"
  shows "core_ok env' \<and> c = length (net_pairs (env_net env)) \<and> length (net_pairs (env_net env')) = c + 1 \<and>
    net_links (env_net env') = net_links (env_net env) \<and> net_spawned (env_net env') = net_spawned (env_net env) \<and>
    env_config env' = env_config env \<and> env_graph env' = env_graph env"
  using assms wired_more [of "net_spawned (env_net env)" "length (net_links (env_net env))" "length (net_pairs (env_net env))"
      "length (net_links (env_net env))" "Suc (length (net_pairs (env_net env)))"]
  by (auto simp: new_pair_def core_ok_def fresh_net_def net_ready_def good_channel_def)

text \<open>The ends a new task may take: unread channels to read, channels without a sender to write.\<close>

definition takes :: "('v, 's, 'n) net \<Rightarrow> ('v, 's, 'n) actor \<Rightarrow> bool" where
  "takes net a \<longleftrightarrow> ports_ok a (length (net_links net)) (length (net_pairs net)) \<and>
     (\<forall>c\<in>set (link_ins a). unread net c) \<and> (\<forall>c\<in>set (pair_ins a). unread_pair net c) \<and>
     (\<forall>c\<in>set (link_outs a). \<forall>sp\<in>set (net_spawned net). c \<notin> set (link_outs (sp_actor sp))) \<and>
     (\<forall>c\<in>set (pair_outs a). \<forall>sp\<in>set (net_spawned net). c \<notin> set (pair_outs (sp_actor sp)))"

lemma core_ok_spawn:
  assumes "core_ok env" and "takes (env_net env) a" and "fresh_actor a" and "well_behaved a"
  shows "core_ok (env_spawn name a env)"
proof -
  have "wired (net_spawned (env_net env) @ [\<lparr>sp_name = name, sp_actor = a, sp_result = None\<rparr>])
      (length (net_links (env_net env))) (length (net_pairs (env_net env)))"
    by (rule wired_snoc) (use assms in \<open>auto simp: core_ok_def fresh_net_def takes_def unread_def unread_pair_def\<close>)
  with assms show ?thesis by (auto simp: env_spawn_def core_ok_def fresh_net_def net_ready_def)
qed

lemma env_spawn_sel [simp]:
  "net_links (env_net (env_spawn name a env)) = net_links (env_net env)" "net_pairs (env_net (env_spawn name a env)) = net_pairs (env_net env)"
  "net_spawned (env_net (env_spawn name a env)) = net_spawned (env_net env) @ [\<lparr>sp_name = name, sp_actor = a, sp_result = None\<rparr>]"
  "env_graph (env_spawn name a env) = env_graph env" "env_config (env_spawn name a env) = env_config env"
  by (simp_all add: env_spawn_def)

text \<open>A channel just past the end of the old ones has no ends in use.\<close>

lemma old_ports:
  assumes "core_ok env" and "sp \<in> set (net_spawned (env_net env))"
  shows "c \<in> set (link_ins (sp_actor sp)) \<union> set (link_outs (sp_actor sp)) \<Longrightarrow> c < length (net_links (env_net env))"
    and "d \<in> set (pair_ins (sp_actor sp)) \<union> set (pair_outs (sp_actor sp)) \<Longrightarrow> d < length (net_pairs (env_net env))"
proof -
  from assms(2) obtain k where "k < length (net_spawned (env_net env))" "sp = net_spawned (env_net env) ! k" by (metis in_set_conv_nth)
  with assms(1) have "ports_ok (sp_actor sp) (length (net_links (env_net env))) (length (net_pairs (env_net env)))"
    by (auto simp: core_ok_def net_ready_def wired_def)
  then show "c \<in> set (link_ins (sp_actor sp)) \<union> set (link_outs (sp_actor sp)) \<Longrightarrow> c < length (net_links (env_net env))"
    "d \<in> set (pair_ins (sp_actor sp)) \<union> set (pair_outs (sp_actor sp)) \<Longrightarrow> d < length (net_pairs (env_net env))"
    by (auto simp: ports_ok_def)
qed

lemma core_ok_node:
  assumes "core_ok env" and "env_add_node name kind p env = (env', i)"
  shows "core_ok env' \<and> env_net env' = env_net env \<and> env_config env' = env_config env \<and> i = length (nodes (env_graph env)) \<and>
    length (nodes (env_graph env')) = i + 1"
  using assms graph_ok_add_node by (fastforce simp: env_add_node_def core_ok_def split: prod.splits)

lemma core_ok_edge:
  assumes "core_ok env" and "a < b" and "b < length (nodes (env_graph env))"
  shows "core_ok (env_add_edge a b st env)"
  using assms graph_ok_add_edge by (simp add: env_add_edge_def core_ok_def)

lemma env_add_edge_sel [simp]:
  "env_net (env_add_edge a b st env) = env_net env" "env_config (env_add_edge a b st env) = env_config env"
  "nodes (env_graph (env_add_edge a b st env)) = nodes (env_graph env)"
  by (simp_all add: env_add_edge_def)

text \<open>A new channel with the task that writes it: the one step all builders are made of.\<close>

lemma add_stage:
  assumes core: "core_ok env" and ch: "good_channel (env_config env) ch" and link: "new_link ch env = (env1, c)"
    and a: "link_outs a = [c]" "pair_outs a = []" "fresh_actor a" "well_behaved a"
    and ins: "distinct (link_ins a)" "\<forall>i\<in>set (link_ins a). unread (env_net env) i" "\<forall>i\<in>set (pair_ins a). unread_pair (env_net env) i"
    and env2: "env2 = env_spawn name a env1"
  shows "core_ok env2 \<and> unread (env_net env2) c \<and> env_graph env2 = env_graph env \<and> env_config env2 = env_config env \<and>
    (\<forall>d. unread (env_net env) d \<and> d \<notin> set (link_ins a) \<longrightarrow> unread (env_net env2) d \<and> d \<noteq> c)"
proof -
  have l: "core_ok env1" "c = length (net_links (env_net env))" "length (net_links (env_net env1)) = c + 1"
    "net_pairs (env_net env1) = net_pairs (env_net env)" "net_spawned (env_net env1) = net_spawned (env_net env)"
    "env_config env1 = env_config env" "env_graph env1 = env_graph env"
    using core_ok_link [OF core ch link] by auto
  note old = old_ports [OF core]
  have c: "\<forall>sp\<in>set (net_spawned (env_net env)). c \<notin> set (link_ins (sp_actor sp)) \<and> c \<notin> set (link_outs (sp_actor sp))"
    using old(1) l(2) by fastforce
  have kept: "unread (env_net env1) d" if "unread (env_net env) d" for d using that l by (auto simp: unread_def)
  have kept2: "unread_pair (env_net env1) d" if "unread_pair (env_net env) d" for d using that l by (auto simp: unread_pair_def)
  have below: "d < c" if "unread (env_net env) d" for d using that l(2) by (simp add: unread_def)
  have "takes (env_net env1) a"
  proof -
    have "i < c" if "i \<in> set (link_ins a)" for i using ins(2) below that by blast
    moreover have "i < length (net_pairs (env_net env))" if "i \<in> set (pair_ins a)" for i using ins(3) that by (auto simp: unread_pair_def)
    ultimately have "ports_ok a (length (net_links (env_net env1))) (length (net_pairs (env_net env1)))"
      using a(1,2) ins(1) l by (auto simp: ports_ok_def less_Suc_eq)
    with a(1,2) ins(2,3) kept kept2 c l show ?thesis by (simp add: takes_def)
  qed
  from core_ok_spawn [OF l(1) this a(3,4)] have "core_ok env2" by (simp add: env2)
  moreover have "unread (env_net env2) c" using c l a(1) ins(2) below by (auto simp: env2 unread_def)
  moreover have "unread (env_net env2) d \<and> d \<noteq> c" if "unread (env_net env) d" "d \<notin> set (link_ins a)" for d
    using kept [OF that(1)] that(2) below [OF that(1)] by (auto simp: env2 unread_def)
  ultimately show ?thesis using l env2 by simp
qed

lemma bind_res_Ok: "bind_res m f = Ok y \<longleftrightarrow> (\<exists>x. m = Ok x \<and> f x = Ok y)"
  by (cases m) auto

lemma case_prod_Ok: "(case p of (a, b) \<Rightarrow> f a b) = Ok y \<longleftrightarrow> (\<exists>a b. p = (a, b) \<and> f a b = Ok y)"
  by (cases p) auto

lemma wire_upstream_ok:
  assumes core: "core_ok env" and up: "case ds_upstream ds of Some (FromInput c) \<Rightarrow> unread (env_net env) c | _ \<Rightarrow> True"
    and wire: "wire_upstream ds env = Ok (env1, c)"
  shows "core_ok env1 \<and> unread (env_net env1) c \<and> env_graph env1 = env_graph env \<and> env_config env1 = env_config env"
proof (cases "ds_upstream ds")
  case (Some u)
  show ?thesis
  proof (cases u)
    case (FromInput i)
    with Some up wire core show ?thesis by (auto simp: wire_upstream_def)
  next
    case (FromSource src st)
    then obtain ch where ch: "operator_channel (channel_buffer_size (env_config env)) = Ok ch"
      and wire': "(case new_link ch env of (e, d) \<Rightarrow> Ok (env_spawn ''source-drainer'' (DrainActor \<lparr>dr_source = src, dr_state = st,
        dr_key = None, dr_held = None, dr_out = d\<rparr>) e, d)) = Ok (env1, c)"
      using Some wire by (simp add: wire_upstream_def bind_res_Ok) blast
    obtain env0 d where link: "new_link ch env = (env0, d)" by fastforce
    let ?a = "DrainActor \<lparr>dr_source = src, dr_state = st, dr_key = None, dr_held = None, dr_out = d\<rparr>"
    have "env1 = env_spawn ''source-drainer'' ?a env0" "c = d"
      using wire' link by auto
    with add_stage [OF core operator_channel_good [OF ch] link, of ?a env1 "''source-drainer''"] show ?thesis by simp
  qed
qed (use wire in \<open>simp add: wire_upstream_def\<close>)

text \<open>Nodes and edges do not touch the network.\<close>

lemma core_ok_combine:
  "core_ok a \<Longrightarrow> core_ok b \<Longrightarrow> env_net e = env_net a \<Longrightarrow> env_config e = env_config a \<Longrightarrow> env_graph e = env_graph b \<Longrightarrow> core_ok e"
  by (simp add: core_ok_def)

lemma operator_node_ok:
  assumes core: "core_ok env" and below: "a < length (nodes (env_graph env))" and node: "env_add_node name OperatorNode 1 env = (env1, node)"
    and spawned: "core_ok (env_spawn task_name t env)"
  shows "core_ok (env_spawn task_name t (env_add_edge a node ForwardStrategy env1)) \<and>
    env_net (env_spawn task_name t (env_add_edge a node ForwardStrategy env1)) = env_net (env_spawn task_name t env) \<and>
    node < length (nodes (env_graph (env_spawn task_name t (env_add_edge a node ForwardStrategy env1))))"
proof -
  note n = core_ok_node [OF core node]
  have "core_ok (env_add_edge a node ForwardStrategy env1)" using core_ok_edge [of env1 a node ForwardStrategy] n below by simp
  then show ?thesis
    using core_ok_combine [OF spawned, of "env_add_edge a node ForwardStrategy env1"] n by (simp add: env_spawn_def env_add_edge_def)
qed

lemma apply_operator_ok:
  assumes ok: "env_ok env ds" and beh: "\<exists>f. transduces opr f" and app: "apply_operator n0 name opr op ds env = Ok (env', ds')"
  shows "env_ok env' ds'"
proof -
  from app obtain env1 input ch where wire: "wire_upstream ds env = Ok (env1, input)"
    and ch: "operator_channel_with_kind (channel_buffer_size (env_config env1)) (cfg_channel_kind (env_config env1)) n0 = Ok ch"
    and rest: "(case new_link ch env1 of (env2, out_c) \<Rightarrow> (case env_add_node name OperatorNode 1 env2 of (env3, node) \<Rightarrow>
      Ok (env_spawn (name @ ''-'' @ nat_to_string node) (TaskActor opr (with_cancel (task_new op input out_c)))
            (env_add_edge (ds_node ds) node ForwardStrategy env3), data_stream_new node (FromInput out_c)))) = Ok (env', ds')"
    unfolding apply_operator_def Let_def by (auto simp: bind_res_Ok simp del: One_nat_def)
  have w: "core_ok env1" "unread (env_net env1) input" "env_graph env1 = env_graph env" "env_config env1 = env_config env"
    using wire_upstream_ok [OF _ _ wire] ok by (auto simp: env_ok_def split: option.splits source_or_channel.splits)
  obtain env2 out_c where link: "new_link ch env1 = (env2, out_c)" by fastforce
  obtain env3 node where node: "env_add_node name OperatorNode 1 env2 = (env3, node)" by fastforce
  note good = operator_channel_with_kind_good [OF ch]
  note l = core_ok_link [OF w(1) good link]
  let ?t = "TaskActor opr (with_cancel (task_new op input out_c))"
  have stage: "core_ok (env_spawn (name @ ''-'' @ nat_to_string node) ?t env2)"
    "unread (env_net (env_spawn (name @ ''-'' @ nat_to_string node) ?t env2)) out_c"
    using add_stage [OF w(1) good link, of ?t _ "name @ ''-'' @ nat_to_string node"] beh w(2)
    by (simp_all add: with_cancel_def task_new_def)
  have "ds_node ds < length (nodes (env_graph env2))" using ok w l by (simp add: env_ok_def)
  from operator_node_ok [OF _ this node stage(1)] l stage(2) rest link node show ?thesis
    by (auto simp: env_ok_def data_stream_new_def)
qed

lemma add_merge_stage:
  assumes core: "core_ok env" and ch: "good_channel (env_config env) ch" and pair: "new_pair ch env = (env1, m)"
    and ins: "unread (env_net env) (mw_in1 w)" "unread (env_net env) (mw_in2 w)" "mw_in1 w \<noteq> mw_in2 w"
    and w: "mw_out w = m" "mw_state w = merge_init [] [] None" "mw_sent w = 0" and env2: "env2 = env_spawn name (MergeActor w) env1"
  shows "core_ok env2 \<and> unread_pair (env_net env2) m \<and> env_graph env2 = env_graph env \<and> env_config env2 = env_config env"
proof -
  note p = core_ok_pair [OF core ch pair]
  note old = old_ports [OF core]
  have m: "\<forall>sp\<in>set (net_spawned (env_net env)). m \<notin> set (pair_ins (sp_actor sp)) \<and> m \<notin> set (pair_outs (sp_actor sp))"
    using old(2) p by fastforce
  have "takes (env_net env1) (MergeActor w)"
    using ins w(1) p m by (auto simp: takes_def ports_ok_def unread_def)
  with core_ok_spawn [of env1 "MergeActor w" name] p w have "core_ok env2" by (simp add: env2)
  moreover have "unread_pair (env_net env2) m" using m p w(1) by (auto simp: env2 unread_pair_def)
  ultimately show ?thesis using p env2 by simp
qed

lemma wire_two_input_ok:
  fixes env :: "('v, 's, 'n) stream_env"
  assumes ok: "env_ok env stream" and beh: "\<exists>f. transduces opr f"
    and wire2: "wire_two_input_operator n0 stream source key1 key2 name opr op env = Ok (env', ds')"
  shows "env_ok env' ds'"
proof -
  let ?config = "env_config env"
  obtain env1 input1 where wire: "wire_upstream stream env = Ok (env1, input1)"
    using wire2 by (cases "wire_upstream stream env") (auto simp: wire_two_input_operator_def Let_def)
  have size: "channel_buffer_size ?config \<noteq> 0"
    using wire2 wire by (intro notI) (simp add: wire_two_input_operator_def operator_channel_def)
  define ch1 :: "('v, 'n) transport" where "ch1 = MpscChannel (channel_buffer_size ?config) [] False"
  have ch1: "operator_channel (channel_buffer_size ?config) = Ok ch1" using size by (simp add: operator_channel_def ch1_def)
  define ch3 :: "(('v, 'v) either, 'n) transport" where "ch3 = MpscChannel (channel_buffer_size ?config) [] False"
  have ch3: "operator_channel (channel_buffer_size ?config) = Ok ch3" using size by (simp add: operator_channel_def ch3_def)
  obtain ch4 :: "('v, 'n) transport" where ch4: "operator_channel_with_kind (channel_buffer_size ?config) (cfg_channel_kind ?config) n0 = Ok ch4"
    using size by (cases "cfg_channel_kind ?config") (simp_all add: operator_channel_with_kind_def operator_channel_def operator_ring_buffer_def)
  have w: "core_ok env1" "unread (env_net env1) input1" "env_graph env1 = env_graph env" "env_config env1 = ?config"
    using wire_upstream_ok [OF _ _ wire] ok by (auto simp: env_ok_def split: option.splits source_or_channel.splits)
  note good1 = operator_channel_good [OF ch1] and good3 = operator_channel_good [OF ch3] and good4 = operator_channel_with_kind_good [OF ch4]
  obtain env2 c1 where link1: "new_link ch1 env1 = (env2, c1)" by fastforce
  define env3 where "env3 = env_spawn ''connected-input1'' (RelayActor \<lparr>rl_in = input1, rl_key = key1, rl_held = None, rl_out = c1\<rparr>) env2"
  have s3: "core_ok env3" "unread (env_net env3) c1" "env_graph env3 = env_graph env" "env_config env3 = ?config"
    using add_stage [OF w(1) _ link1 _ _ _ _ _ _ _ env3_def] good1 w by simp_all
  obtain env4 c2 where link2: "new_link ch1 env3 = (env4, c2)" by fastforce
  define env5 where "env5 = env_spawn ''connected-input2'' (DrainActor \<lparr>dr_source = fst source, dr_state = snd source, dr_key = key2,
    dr_held = None, dr_out = c2\<rparr>) env4"
  have s5: "core_ok env5" "unread (env_net env5) c1" "unread (env_net env5) c2" "c1 \<noteq> c2" "env_graph env5 = env_graph env" "env_config env5 = ?config"
    using add_stage [OF s3(1) _ link2 _ _ _ _ _ _ _ env5_def] good1 s3 by simp_all
  obtain env6 merged where pair: "new_pair ch3 env5 = (env6, merged)" by fastforce
  define env7 where "env7 = env_spawn ''two-input-merge'' (MergeActor \<lparr>mw_in1 = c1, mw_in2 = c2, mw_out = merged,
    mw_state = merge_init [] [] None, mw_sent = 0\<rparr>) env6"
  have s7: "core_ok env7" "unread_pair (env_net env7) merged" "env_graph env7 = env_graph env" "env_config env7 = ?config"
    using add_merge_stage [OF s5(1) _ pair _ _ _ _ _ _ env7_def] good3 s5 by simp_all
  obtain env8 out_c where link4: "new_link ch4 env7 = (env8, out_c)" by fastforce
  obtain env9 node where node: "env_add_node name OperatorNode 1 env8 = (env9, node)" by fastforce
  let ?t = "PairTaskActor opr (with_cancel (task_new op merged out_c))" and ?name = "name @ ''-'' @ nat_to_string node"
  have stage: "core_ok (env_spawn ?name ?t env8)" "unread (env_net (env_spawn ?name ?t env8)) out_c"
    using add_stage [OF s7(1) _ link4, of ?t _ ?name] good4 s7 beh by (simp_all add: with_cancel_def task_new_def)
  have l: "core_ok env8" "env_graph env8 = env_graph env" using core_ok_link [OF s7(1) _ link4] good4 s7 by simp_all
  have "ds_node stream < length (nodes (env_graph env8))" using ok l by (simp add: env_ok_def)
  note final = operator_node_ok [OF l(1) this node stage(1)]
  have "env' = env_spawn ?name ?t (env_add_edge (ds_node stream) node ForwardStrategy env9)" "ds' = data_stream_new node (FromInput out_c)"
    using wire2 wire ch1 ch3 ch4 link1 link2 pair link4 node
    by (simp_all add: wire_two_input_operator_def Let_def env3_def [symmetric] env5_def [symmetric] env7_def [symmetric] del: One_nat_def)
  with final stage(2) show ?thesis by (auto simp: env_ok_def data_stream_new_def)
qed

lemma from_source_ok: "from_source src s (env_from_config config) = (env, ds) \<Longrightarrow> env_ok env ds"
  by (auto simp: from_source_def env_add_node_def env_from_config_def add_node_def graph_new_def Let_def env_ok_def core_ok_def fresh_net_def
      net_ready_def net_new_def wired_def graph_ok_def data_stream_new_def)

text \<open>The environments and streams that the builders produce.\<close>

inductive built :: "('v, 's, 'n) stream_env \<Rightarrow> ('s, 'v) data_stream \<Rightarrow> bool" where
  source: "from_source src s (env_from_config config) = (env, ds) \<Longrightarrow> built env ds"
| operator: "built env ds \<Longrightarrow> \<exists>f. transduces opr f \<Longrightarrow> apply_operator n0 name opr op ds env = Ok (env', ds') \<Longrightarrow> built env' ds'"
| two_inputs: "built env ds \<Longrightarrow> \<exists>f. transduces opr f \<Longrightarrow>
    wire_two_input_operator n0 ds src2 key1 key2 name opr op env = Ok (env', ds') \<Longrightarrow> built env' ds'"

lemma built_ok: "built env ds \<Longrightarrow> env_ok env ds"
  by (induction rule: built.induct) (blast intro: from_source_ok apply_operator_ok wire_two_input_ok)+

subsection \<open>Running a pipeline\<close>

text \<open>What the drain loop of \<open>add_sink\<close> does to the sink for a whole stream.\<close>

fun sink_feed :: "('k, 'v) sink_ops \<Rightarrow> 'v stream_element list \<Rightarrow> 'k \<Rightarrow> 'k \<times> unit res" where
  "sink_feed sink [] k = (k, Ok ())"
| "sink_feed sink (e # es) k =
     (case sink_element sink e k of
        (k', Ok _) \<Rightarrow> sink_feed sink es k' | (k', Err x) \<Rightarrow> (k', Err x) | (k', Panic p) \<Rightarrow> (k', Panic p))"

lemma sink_feed_snoc: "sink_feed sink es k = (k1, Ok ()) \<Longrightarrow> sink_feed sink (es @ [e]) k = sink_element sink e k1"
  by (induction es arbitrary: k) (auto split: prod.splits res.splits)

definition run_inv :: "('k, 'v) sink_ops \<Rightarrow> 'k \<Rightarrow> ('v, 's, 'n) net \<Rightarrow> nat \<Rightarrow> ('v, 's, 'n, 'k) running \<Rightarrow> bool" where
  "run_inv sink k0 net0 c r \<longleftrightarrow> net_inv net0 (run_net r) \<and> run_input r = c \<and>
     (fine (run_drained r) \<longrightarrow> sink_feed sink (lk_taken (net_links (run_net r) ! c)) k0 = (run_sink r, Ok ())) \<and>
     (run_drained r = Some (Ok ()) \<longrightarrow> lk_drained (net_links (run_net r) ! c))"

lemma run_inv_put:
  assumes ready: "net_ready net0" and un: "unread net0 c" and inv: "run_inv sink k0 net0 c r"
    and poll: "link_poll (net_links (run_net r) ! c) = (l, p)" and l': "l' = l \<or> l' = link_drop_receiver l"
  shows "net_inv net0 ((run_net r)\<lparr>net_links := (net_links (run_net r))[c := l']\<rparr>)"
    and "lk_taken ((net_links (run_net r))[c := l'] ! c) = lk_taken l" and "lk_drained ((net_links (run_net r))[c := l'] ! c) = lk_drained l"
proof -
  have n: "net_inv net0 (run_net r)" using inv by (simp add: run_inv_def)
  have c: "c < length (net_links (run_net r))" using un net_inv_sizes(2) [OF n] by (simp add: unread_def)
  have lk: "link_ok (net_links (run_net r) ! c)" using net_inv_sizes(4) [OF n] c by (simp add: links_ok_def)
  note got = poll_link [OF lk poll]
  show "net_inv net0 ((run_net r)\<lparr>net_links := (net_links (run_net r))[c := l']\<rparr>)"
    by (rule net_inv_read [OF n]) (use un ready got l' in \<open>auto simp: unread_def net_ready_def\<close>)
  show "lk_taken ((net_links (run_net r))[c := l'] ! c) = lk_taken l" "lk_drained ((net_links (run_net r))[c := l'] ! c) = lk_drained l"
    using l' c by (auto simp: lk_drained_def)
qed

lemma sink_poll_inv:
  assumes ready: "net_ready net0" and un: "unread net0 c" and inv: "run_inv sink k0 net0 c r"
  shows "run_inv sink k0 net0 c (sink_poll sink r)"
proof (cases "run_drained r")
  case None
  have c: "run_input r = c" and n: "net_inv net0 (run_net r)" using inv by (simp_all add: run_inv_def)
  obtain l p where poll: "link_poll (net_links (run_net r) ! c) = (l, p)" by fastforce
  have lk: "link_ok (net_links (run_net r) ! c)" using net_inv_sizes(2,4) [OF n] un by (simp add: links_ok_def unread_def)
  note got = poll_link [OF lk poll]
  note put = run_inv_put [OF ready un inv poll]
  have fed: "sink_feed sink (lk_taken (net_links (run_net r) ! c)) k0 = (run_sink r, Ok ())" using inv None by (simp add: run_inv_def)
  show ?thesis
  proof (cases p)
    case (ReadyElement e)
    obtain k x where el: "sink_element sink e (run_sink r) = (k, x)" by fastforce
    have "sink_feed sink (lk_taken l) k0 = (k, x)" using sink_feed_snoc [OF fed, of e] got(5) ReadyElement el by simp
    with ReadyElement el put poll None c show ?thesis by (cases x) (auto simp: sink_poll_def run_inv_def Let_def)
  qed (use None poll c put got fed in \<open>auto simp: sink_poll_def run_inv_def Let_def\<close>)
qed (use inv in \<open>simp add: sink_poll_def\<close>)

lemma run_step_inv:
  assumes "net_ready net0" and "unread net0 c" and "run_inv sink k0 net0 c r"
  shows "run_inv sink k0 net0 c (run_step nf sink act r)"
proof (cases act)
  case (PollTask k pick1)
  have n: "net_inv net0 (run_net r)" using assms(3) by (simp add: run_inv_def)
  from spawned_poll_unread [OF assms(1) n, of c nf pick1 k] assms(2) spawned_poll_inv [OF assms(1) n, of nf pick1 k] PollTask assms(3)
  show ?thesis by (auto simp: run_inv_def unread_def)
next
  case CancelAll
  then show ?thesis using assms(3) by (simp add: run_inv_def net_inv_def)
qed (use assms sink_poll_inv in simp)

lemma run_pipeline_inv:
  assumes "net_ready net0" and "unread net0 c" and "run_inv sink k0 net0 c r"
  shows "run_inv sink k0 net0 c (run_pipeline nf sink acts r)"
  unfolding run_pipeline_def using assms by (induction acts arbitrary: r) (simp_all add: run_step_inv)

text \<open>\<open>add_sink\<close> on a well-formed environment.\<close>

lemma add_sink_ok:
  assumes ok: "env_ok env ds" and sink: "add_sink ds k env = Ok (env', r)"
  shows "core_ok env' \<and> run_net r = env_net env' \<and> unread (env_net env') (run_input r) \<and> run_inv sinkops k (env_net env') (run_input r) r"
proof -
  obtain env1 sink_id where node: "env_add_node ''sink'' SinkNode 1 env = (env1, sink_id)" by fastforce
  have core: "core_ok env" using ok by (simp add: env_ok_def)
  note n = core_ok_node [OF core node]
  have below: "ds_node ds < sink_id" using ok n by (simp add: env_ok_def)
  let ?env2 = "env_add_edge (ds_node ds) sink_id ForwardStrategy env1"
  have core2: "core_ok ?env2" using core_ok_edge [of env1 "ds_node ds" sink_id] n below by simp
  obtain env3 c where wire: "wire_upstream ds ?env2 = Ok (env3, c)" and r: "env' = env3"
    "r = \<lparr>run_net = env_net env3, run_input = c, run_sink = k, run_drained = None\<rparr>"
    using sink node by (auto simp: add_sink_def bind_res_Ok)
  have w: "core_ok env3" "unread (env_net env3) c"
    using wire_upstream_ok [OF core2 _ wire] ok n by (auto simp: env_ok_def split: option.splits source_or_channel.splits)
  then have fresh: "fresh_net (env_net env3)" by (simp add: core_ok_def)
  moreover have "lk_taken (net_links (env_net env3) ! c) = []"
    using fresh w(2) by (simp add: fresh_net_def unread_def fresh_link_def)
  ultimately show ?thesis using w r fresh_net_inv [OF fresh] by (simp add: run_inv_def)
qed

lemma add_sink_Ok_result:
  assumes "add_sink_result show_join r = Some (Ok ())" and "net_inv net0 (run_net r)"
  shows "run_drained r = Some (Ok ())" and "\<forall>k<length (net_spawned net0). sp_result (net_spawned (run_net r) ! k) = Some (Ok ())"
proof -
  let ?sps = "net_spawned (run_net r)"
  from assms(1) show drained: "run_drained r = Some (Ok ())"
    by (auto simp: add_sink_result_def split: option.splits res.splits if_splits)
  with assms(1) have all: "\<forall>sp\<in>set ?sps. sp_result sp \<noteq> None"
    and waited: "wait_all show_join \<lparr>sch_handles = map (\<lambda>sp. (sp_name sp, the (sp_result sp))) ?sps, sch_cancelled = net_cancelled (run_net r)\<rparr> = Ok ()"
    by (auto simp: add_sink_result_def split: if_splits)
  from waited have "task_error show_join (sp_name sp) (the (sp_result sp)) = None" if "sp \<in> set ?sps" for sp
    using that by (auto simp: wait_all_exact map_filter_def filter_empty_conv split: list.splits option.splits)
  then have "sp_result sp = Some (Ok ())" if "sp \<in> set ?sps" for sp
    using all that by (fastforce simp: task_error_def split: res.splits)
  then show "\<forall>k<length (net_spawned net0). sp_result (?sps ! k) = Some (Ok ())"
    using net_inv_sizes(1) [OF assms(2)] by simp
qed

subsection \<open>The streams of a built pipeline\<close>

text \<open>Only one task writes a channel, so a stream of the channel is one that this task makes.\<close>

lemma same_writer:
  assumes "wired sps n m" and "j < length sps" and "k < length sps"
    and "c \<in> set (link_outs (sp_actor (sps ! j)))" and "c \<in> set (link_outs (sp_actor (sps ! k)))"
  shows "j = k"
  using wired_apart(2) [OF assms(1-3)] assms(4,5) by blast

lemma same_pair_writer:
  assumes "wired sps n m" and "j < length sps" and "k < length sps"
    and "c \<in> set (pair_outs (sp_actor (sps ! j)))" and "c \<in> set (pair_outs (sp_actor (sps ! k)))"
  shows "j = k"
  using wired_apart(4) [OF assms(1-3)] assms(4,5) by blast

lemma stream_of_drainer:
  assumes w: "wired sps n m" and k: "k < length sps" "sp_actor (sps ! k) = DrainActor d" and st: "stream_of sps (dr_out d) es"
  shows "drains (source_next (dr_source d)) (dr_key d) (dr_state d) es"
  using st same_writer [OF w k(1), of _ "dr_out d"] k(2) by (cases rule: stream_of.cases) auto

lemma stream_of_relay:
  assumes w: "wired sps n m" and k: "k < length sps" "sp_actor (sps ! k) = RelayActor rl" and st: "stream_of sps (rl_out rl) es"
  shows "\<exists>xs. stream_of sps (rl_in rl) xs \<and> es = fst (key_elements (rl_key rl) xs)"
  using st same_writer [OF w k(1), of _ "rl_out rl"] k(2) by (cases rule: stream_of.cases) auto

lemma stream_of_task:
  assumes w: "wired sps n m" and k: "k < length sps" "sp_actor (sps ! k) = TaskActor opr t" and st: "stream_of sps (task_col t) es"
    and f: "transduces opr f"
  shows "\<exists>xs. stream_of sps (task_input t) xs \<and> es = snd (run_transducer f (task_op t) xs)"
  using st same_writer [OF w k(1), of _ "task_col t"] k(2) f by (cases rule: stream_of.cases) auto

lemma stream_of_pair_task:
  assumes w: "wired sps n m" and k: "k < length sps" "sp_actor (sps ! k) = PairTaskActor opr t"
    and j: "j < length sps" "sp_actor (sps ! j) = MergeActor mw" "mw_out mw = task_input t"
    and st: "stream_of sps (task_col t) es" and f: "transduces opr f"
  shows "\<exists>xs ys sched s. stream_of sps (mw_in1 mw) xs \<and> stream_of sps (mw_in2 mw) ys \<and>
    two_input_merge sched (merge_init xs ys None) = (s, Ok ()) \<and> es = snd (run_transducer f (task_op t) (mg_out s))"
  using st
proof (cases rule: stream_of.cases)
  case (merged k' opr' t' j' mw' xs ys sched s)
  then have "k' = k" using same_writer [OF w, of k' k "task_col t"] k by simp
  with merged k have t: "t' = t" "opr' = opr" by simp_all
  with merged j have "j' = j" using same_pair_writer [OF w, of j' j "task_input t"] by simp
  with merged j have "mw' = mw" by simp
  with merged t f show ?thesis by blast
qed (use same_writer [OF w k(1), of _ "task_col t"] k(2) in auto)

text \<open>\<open>carries env ds P\<close>: whatever is built on the stream \<open>ds\<close> later, a stream of its channel satisfies \<open>P\<close>.\<close>

definition link_carries :: "('v, 's, 'n) spawned list \<Rightarrow> nat \<Rightarrow> ('v stream_element list \<Rightarrow> bool) \<Rightarrow> bool" where
  "link_carries sps c P \<longleftrightarrow> (\<forall>rest n m es. wired (sps @ rest) n m \<longrightarrow> stream_of (sps @ rest) c es \<longrightarrow> P es)"

definition carries :: "('v, 's, 'n) stream_env \<Rightarrow> ('s, 'v) data_stream \<Rightarrow> ('v stream_element list \<Rightarrow> bool) \<Rightarrow> bool" where
  "carries env ds P \<longleftrightarrow>
     (case ds_upstream ds of
        None \<Rightarrow> True
      | Some (FromSource src s) \<Rightarrow> (\<forall>es. drains (source_next src) None s es \<longrightarrow> P es)
      | Some (FromInput c) \<Rightarrow> link_carries (net_spawned (env_net env)) c P)"

lemma link_carries_append: "link_carries sps c P \<Longrightarrow> link_carries (sps @ rest) c P"
  by (simp add: link_carries_def)

lemma link_carries_mono: "link_carries sps c P \<Longrightarrow> (\<And>es. P es \<Longrightarrow> Q es) \<Longrightarrow> link_carries sps c Q"
  by (simp add: link_carries_def)

lemma new_link_spawned: "new_link ch env = (env', c) \<Longrightarrow> net_spawned (env_net env') = net_spawned (env_net env)"
  by (auto simp: new_link_def)

lemma new_pair_spawned: "new_pair ch env = (env', c) \<Longrightarrow> net_spawned (env_net env') = net_spawned (env_net env)"
  by (auto simp: new_pair_def)

lemma env_add_node_net: "env_add_node name kind p env = (env', i) \<Longrightarrow> env_net env' = env_net env"
  by (auto simp: env_add_node_def add_node_def Let_def)

lemma drainer_carries:
  assumes "\<And>es. drains (source_next (dr_source d)) (dr_key d) (dr_state d) es \<Longrightarrow> P es"
  shows "link_carries (sps @ [\<lparr>sp_name = name, sp_actor = DrainActor d, sp_result = None\<rparr>]) (dr_out d) P"
  unfolding link_carries_def append_assoc
  using assms stream_of_drainer [of "sps @ [\<lparr>sp_name = name, sp_actor = DrainActor d, sp_result = None\<rparr>] @ _" _ _ "length sps" d]
  by (auto simp: nth_append)

lemma relay_carries:
  assumes "link_carries sps (rl_in rl) P"
  shows "link_carries (sps @ [\<lparr>sp_name = name, sp_actor = RelayActor rl, sp_result = None\<rparr>]) (rl_out rl)
    (\<lambda>es. \<exists>xs. P xs \<and> es = fst (key_elements (rl_key rl) xs))"
proof -
  have "\<exists>xs. P xs \<and> es = fst (key_elements (rl_key rl) xs)"
    if w: "wired (sps @ \<lparr>sp_name = name, sp_actor = RelayActor rl, sp_result = None\<rparr> # rest) n m"
      and st: "stream_of (sps @ \<lparr>sp_name = name, sp_actor = RelayActor rl, sp_result = None\<rparr> # rest) (rl_out rl) es" for rest n m es
    using stream_of_relay [OF w, of "length sps" rl es] st w assms unfolding link_carries_def by (auto simp: nth_append)
  then show ?thesis by (simp add: link_carries_def)
qed

lemma task_carries:
  assumes "link_carries sps (task_input t) P" and "transduces opr f"
  shows "link_carries (sps @ [\<lparr>sp_name = name, sp_actor = TaskActor opr t, sp_result = None\<rparr>]) (task_col t)
    (\<lambda>es. \<exists>xs. P xs \<and> es = snd (run_transducer f (task_op t) xs))"
proof -
  have "\<exists>xs. P xs \<and> es = snd (run_transducer f (task_op t) xs)"
    if w: "wired (sps @ \<lparr>sp_name = name, sp_actor = TaskActor opr t, sp_result = None\<rparr> # rest) n m"
      and st: "stream_of (sps @ \<lparr>sp_name = name, sp_actor = TaskActor opr t, sp_result = None\<rparr> # rest) (task_col t) es" for rest n m es
    using stream_of_task [OF w, of "length sps" opr t es f] st w assms unfolding link_carries_def by (auto simp: nth_append)
  then show ?thesis by (simp add: link_carries_def)
qed

lemma pair_task_carries:
  assumes c1: "link_carries sps (mw_in1 mw) P" and c2: "link_carries sps (mw_in2 mw) Q" and out: "mw_out mw = task_input t" and f: "transduces opr f"
  shows "link_carries (sps @ [\<lparr>sp_name = name1, sp_actor = MergeActor mw, sp_result = None\<rparr>, \<lparr>sp_name = name2, sp_actor = PairTaskActor opr t, sp_result = None\<rparr>])
    (task_col t) (\<lambda>es. \<exists>xs ys sched s. P xs \<and> Q ys \<and> two_input_merge sched (merge_init xs ys None) = (s, Ok ()) \<and>
       es = snd (run_transducer f (task_op t) (mg_out s)))"
proof -
  let ?two = "[\<lparr>sp_name = name1, sp_actor = MergeActor mw, sp_result = None\<rparr>, \<lparr>sp_name = name2, sp_actor = PairTaskActor opr t, sp_result = None\<rparr>]"
  have "\<exists>xs ys sched s. P xs \<and> Q ys \<and> two_input_merge sched (merge_init xs ys None) = (s, Ok ()) \<and>
       es = snd (run_transducer f (task_op t) (mg_out s))"
    if w: "wired ((sps @ ?two) @ rest) n m" and st: "stream_of ((sps @ ?two) @ rest) (task_col t) es" for rest n m es
  proof -
    have at: "((sps @ ?two) @ rest) ! length sps = \<lparr>sp_name = name1, sp_actor = MergeActor mw, sp_result = None\<rparr>"
      "((sps @ ?two) @ rest) ! Suc (length sps) = \<lparr>sp_name = name2, sp_actor = PairTaskActor opr t, sp_result = None\<rparr>"
      by (simp_all add: nth_append)
    have sz: "length sps < length ((sps @ ?two) @ rest)" "Suc (length sps) < length ((sps @ ?two) @ rest)" by simp_all
    from stream_of_pair_task [OF w sz(2) _ sz(1) _ out st f] at obtain xs ys sched s where
      "stream_of (sps @ ?two @ rest) (mw_in1 mw) xs" "stream_of (sps @ ?two @ rest) (mw_in2 mw) ys"
      "two_input_merge sched (merge_init xs ys None) = (s, Ok ())" "es = snd (run_transducer f (task_op t) (mg_out s))" by auto
    moreover have "wired (sps @ ?two @ rest) n m" using w by simp
    ultimately show ?thesis using c1 c2 unfolding link_carries_def by blast
  qed
  then show ?thesis by (simp only: link_carries_def) blast
qed

lemma wire_upstream_carries:
  assumes "carries env ds P" and "wire_upstream ds env = Ok (env1, c)"
  shows "link_carries (net_spawned (env_net env1)) c P"
proof (cases "ds_upstream ds")
  case (Some u)
  show ?thesis
  proof (cases u)
    case (FromInput i)
    with Some assms show ?thesis by (auto simp: wire_upstream_def carries_def)
  next
    case (FromSource src st)
    with Some assms(2) obtain ch env0 where link: "new_link ch env = (env0, c)"
      and env1: "env1 = env_spawn ''source-drainer'' (DrainActor \<lparr>dr_source = src, dr_state = st, dr_key = None, dr_held = None, dr_out = c\<rparr>) env0"
      by (auto simp: wire_upstream_def bind_res_Ok case_prod_Ok)
    have "drains (source_next src) None st es \<Longrightarrow> P es" for es using assms(1) Some FromSource by (simp add: carries_def)
    then show ?thesis
      using drainer_carries [of "\<lparr>dr_source = src, dr_state = st, dr_key = None, dr_held = None, dr_out = c\<rparr>" P] by (simp add: env1)
  qed
qed (use assms(2) in \<open>simp add: wire_upstream_def\<close>)

lemma apply_operator_carries:
  assumes "carries env ds P" and "transduces opr f" and "apply_operator n0 name opr op ds env = Ok (env', ds')"
  shows "carries env' ds' (\<lambda>es. \<exists>xs. P xs \<and> es = snd (run_transducer f op xs))"
proof -
  from assms(3) obtain env1 input ch env2 out_c env3 node where wire: "wire_upstream ds env = Ok (env1, input)"
    and link: "new_link ch env1 = (env2, out_c)" and node: "env_add_node name OperatorNode 1 env2 = (env3, node)"
    and env': "env' = env_spawn (name @ ''-'' @ nat_to_string node) (TaskActor opr (with_cancel (task_new op input out_c)))
          (env_add_edge (ds_node ds) node ForwardStrategy env3)" and ds': "ds' = data_stream_new node (FromInput out_c)"
    unfolding apply_operator_def Let_def by (auto simp: bind_res_Ok case_prod_Ok simp del: One_nat_def)
  have "net_spawned (env_net env3) = net_spawned (env_net env1)"
    using env_add_node_net [OF node] new_link_spawned [OF link] by simp
  with task_carries [OF _ assms(2), of "net_spawned (env_net env1)" "with_cancel (task_new op input out_c)" P] wire_upstream_carries [OF assms(1) wire]
  show ?thesis by (simp add: env' ds' carries_def data_stream_new_def with_cancel_def task_new_def)
qed

lemma wire_two_input_carries:
  assumes up: "carries env stream P" and f: "transduces opr f" and src2: "\<And>ys. drains (source_next (fst source)) key2 (snd source) ys \<Longrightarrow> Q ys"
    and wire2: "wire_two_input_operator n0 stream source key1 key2 name opr op env = Ok (env', ds')"
  shows "carries env' ds' (\<lambda>es. \<exists>xs ys sched s. P xs \<and> Q ys \<and>
    two_input_merge sched (merge_init (fst (key_elements key1 xs)) ys None) = (s, Ok ()) \<and> es = snd (run_transducer f op (mg_out s)))"
proof -
  from wire2 obtain env1 input1 ch1 env2 c1 ch2 env4 c2 ch3 env6 merged ch4 env8 out_c env9 node where
    wire: "wire_upstream stream env = Ok (env1, input1)" and link1: "new_link ch1 env1 = (env2, c1)"
    and link2: "new_link ch2 (env_spawn ''connected-input1'' (RelayActor \<lparr>rl_in = input1, rl_key = key1, rl_held = None, rl_out = c1\<rparr>) env2) = (env4, c2)"
    and pair: "new_pair ch3 (env_spawn ''connected-input2'' (DrainActor \<lparr>dr_source = fst source, dr_state = snd source, dr_key = key2,
      dr_held = None, dr_out = c2\<rparr>) env4) = (env6, merged)"
    and link4: "new_link ch4 (env_spawn ''two-input-merge'' (MergeActor \<lparr>mw_in1 = c1, mw_in2 = c2, mw_out = merged,
      mw_state = merge_init [] [] None, mw_sent = 0\<rparr>) env6) = (env8, out_c)"
    and node: "env_add_node name OperatorNode 1 env8 = (env9, node)"
    and env': "env' = env_spawn (name @ ''-'' @ nat_to_string node) (PairTaskActor opr (with_cancel (task_new op merged out_c)))
      (env_add_edge (ds_node stream) node ForwardStrategy env9)" and ds': "ds' = data_stream_new node (FromInput out_c)"
    unfolding wire_two_input_operator_def Let_def
    by (auto simp: bind_res_Ok case_prod_Ok simp del: One_nat_def)
  let ?sps = "net_spawned (env_net env1)"
  let ?relay = "\<lparr>sp_name = ''connected-input1'', sp_actor = RelayActor \<lparr>rl_in = input1, rl_key = key1, rl_held = None, rl_out = c1\<rparr>, sp_result = None\<rparr>"
  let ?drain = "\<lparr>sp_name = ''connected-input2'', sp_actor = DrainActor \<lparr>dr_source = fst source, dr_state = snd source, dr_key = key2,
      dr_held = None, dr_out = c2\<rparr>, sp_result = None\<rparr>"
  have r: "link_carries (?sps @ [?relay]) c1 (\<lambda>es. \<exists>xs. P xs \<and> es = fst (key_elements key1 xs))"
    using relay_carries [of ?sps "\<lparr>rl_in = input1, rl_key = key1, rl_held = None, rl_out = c1\<rparr>" P] wire_upstream_carries [OF up wire] by simp
  have d: "link_carries ((?sps @ [?relay]) @ [?drain]) c2 Q"
    using drainer_carries [of "\<lparr>dr_source = fst source, dr_state = snd source, dr_key = key2, dr_held = None, dr_out = c2\<rparr>" Q
      "?sps @ [?relay]" "''connected-input2''"] src2 by simp
  have "net_spawned (env_net env9) = (?sps @ [?relay]) @ [?drain] @ [\<lparr>sp_name = ''two-input-merge'', sp_actor = MergeActor \<lparr>mw_in1 = c1, mw_in2 = c2,
      mw_out = merged, mw_state = merge_init [] [] None, mw_sent = 0\<rparr>, sp_result = None\<rparr>]"
    using env_add_node_net [OF node] new_link_spawned [OF link1] new_link_spawned [OF link2] new_link_spawned [OF link4] new_pair_spawned [OF pair] by simp
  moreover note pair_task_carries [of "(?sps @ [?relay]) @ [?drain]" "\<lparr>mw_in1 = c1, mw_in2 = c2, mw_out = merged, mw_state = merge_init [] [] None,
      mw_sent = 0\<rparr>" "\<lambda>es. \<exists>xs. P xs \<and> es = fst (key_elements key1 xs)" Q "with_cancel (task_new op merged out_c)" opr f "''two-input-merge''"
      "name @ ''-'' @ nat_to_string node", simplified with_cancel_def task_new_def merger.simps task.simps,
      OF link_carries_append [OF r] d refl f]
  ultimately have "link_carries (net_spawned (env_net env')) out_c (\<lambda>es. \<exists>xs ys sched s. (\<exists>zs. P zs \<and> xs = fst (key_elements key1 zs)) \<and> Q ys \<and>
      two_input_merge sched (merge_init xs ys None) = (s, Ok ()) \<and> es = snd (run_transducer f op (mg_out s)))"
    by (simp add: env' with_cancel_def task_new_def)
  then have "link_carries (net_spawned (env_net env')) out_c (\<lambda>es. \<exists>xs ys sched s. P xs \<and> Q ys \<and>
      two_input_merge sched (merge_init (fst (key_elements key1 xs)) ys None) = (s, Ok ()) \<and> es = snd (run_transducer f op (mg_out s)))"
    by (rule link_carries_mono) blast
  then show ?thesis by (simp add: ds' carries_def data_stream_new_def)
qed

end
