(* ===== verification/Operator_Contract.thy ===== *)
theory Operator_Contract
  imports Dataflow_Steps Window_Operator Interval_Join
begin

text \<open>
  The operators of the library satisfy the contract \<open>transduces\<close>: what they emit and the state they reach when they
  succeed do not depend on the collector they are given. \<open>lawful\<close> is the contract of a piece of an operator, with
  one composition lemma per shape the code has: a constant, a collector call followed by the rest, a loop
  followed by the rest, a change of the state.
\<close>

subsection \<open>Pieces of an operator\<close>

definition lawful_as :: "((('v, 'n) link, 'v) collector \<Rightarrow> ('v, 'n) link \<Rightarrow> 'x \<times> ('v, 'n) link \<times> unit res) \<Rightarrow> 'x \<Rightarrow> 'v stream_element list \<Rightarrow> bool" where
  "lawful_as g x ys \<longleftrightarrow> (\<forall>col good c x' c' r. collector_laws col lk_sent good \<longrightarrow> good c \<longrightarrow> g col c = (x', c', r) \<longrightarrow>
     good c' \<and> (r = Ok () \<longrightarrow> x' = x \<and> lk_sent c' = lk_sent c @ ys))"

definition lawful :: "((('v, 'n) link, 'v) collector \<Rightarrow> ('v, 'n) link \<Rightarrow> 'x \<times> ('v, 'n) link \<times> unit res) \<Rightarrow> bool" where
  "lawful g \<longleftrightarrow> (\<exists>x ys. lawful_as g x ys)"

lemma lawful_asD:
  assumes "lawful_as g x ys" and "collector_laws col lk_sent good" and "good c" and "g col c = (x', c', r)"
  shows "good c'" and "r = Ok () \<Longrightarrow> x' = x \<and> lk_sent c' = lk_sent c @ ys"
  using assms unfolding lawful_as_def by blast+

named_theorems lawful_rules \<open>composition of lawful pieces\<close>

lemma lawful_const [lawful_rules]: "lawful (\<lambda>col c. (x, c, r))"
  unfolding lawful_def lawful_as_def by (intro exI [of _ x] exI [of _ "[]"]) auto

lemma lawful_watermark [lawful_rules]: "lawful (\<lambda>col c. (x, collect_watermark col c w))"
proof -
  have "good c' \<and> (r = Ok () \<longrightarrow> x' = x \<and> lk_sent c' = lk_sent c @ [ElemWatermark w])"
    if "collector_laws col lk_sent good" "good c" "(x, collect_watermark col c w) = (x', c', r)" for col good c x' c' r
    using collector_laws.watermark_emits [OF that(1,2), of w] collector_laws.watermark_inv [OF that(1,2), of w] that(3)
    by (auto simp: emits_def)
  then have "lawful_as (\<lambda>col c. (x, collect_watermark col c w)) x [ElemWatermark w]" unfolding lawful_as_def by blast
  then show ?thesis unfolding lawful_def by blast
qed

lemma lawful_barrier [lawful_rules]: "lawful (\<lambda>col c. (x, collect_barrier col c b))"
proof -
  have "good c' \<and> (r = Ok () \<longrightarrow> x' = x \<and> lk_sent c' = lk_sent c @ [ElemBarrier b])"
    if "collector_laws col lk_sent good" "good c" "(x, collect_barrier col c b) = (x', c', r)" for col good c x' c' r
    using collector_laws.barrier_emits [OF that(1,2), of b] collector_laws.barrier_inv [OF that(1,2), of b] that(3)
    by (auto simp: emits_def)
  then have "lawful_as (\<lambda>col c. (x, collect_barrier col c b)) x [ElemBarrier b]" unfolding lawful_as_def by blast
  then show ?thesis unfolding lawful_def by blast
qed

lemma lawful_collect [lawful_rules]: "lawful (\<lambda>col c. (x, collect col c rec))"
proof -
  have "good c' \<and> (r = Ok () \<longrightarrow> x' = x \<and> lk_sent c' = lk_sent c @ [ElemRecord rec])"
    if "collector_laws col lk_sent good" "good c" "(x, collect col c rec) = (x', c', r)" for col good c x' c' r
    using collector_laws.collect_emits [OF that(1,2), of rec] collector_laws.collect_inv [OF that(1,2), of rec] that(3)
    by (auto simp: emits_def)
  then have "lawful_as (\<lambda>col c. (x, collect col c rec)) x [ElemRecord rec]" unfolding lawful_as_def by blast
  then show ?thesis unfolding lawful_def by blast
qed

text \<open>One piece and then, when it succeeded, the rest.\<close>

lemma lawful_bind [lawful_rules]:
  assumes g: "lawful g" and h: "\<And>x. lawful (h x)"
  shows "lawful (\<lambda>col c. case g col c of (x, c', Ok _) \<Rightarrow> h x col c' | (x, c', Err e) \<Rightarrow> (e1 x, c', Err e) | (x, c', Panic p) \<Rightarrow> (e2 x, c', Panic p))"
proof -
  obtain x ys where g: "lawful_as g x ys" using assms(1) by (auto simp: lawful_def)
  obtain z zs where h: "lawful_as (h x) z zs" using assms(2) [of x] by (auto simp: lawful_def)
  have "lawful_as (\<lambda>col c. case g col c of (x, c', Ok _) \<Rightarrow> h x col c' | (x, c', Err e) \<Rightarrow> (e1 x, c', Err e) | (x, c', Panic p) \<Rightarrow> (e2 x, c', Panic p)) z (ys @ zs)"
    unfolding lawful_as_def
  proof (intro allI impI)
    fix col good c x' c' r
    assume laws: "collector_laws col lk_sent good" and good: "good c"
      and run: "(case g col c of (x, c', Ok _) \<Rightarrow> h x col c' | (x, c', Err e) \<Rightarrow> (e1 x, c', Err e) | (x, c', Panic p) \<Rightarrow> (e2 x, c', Panic p)) = (x', c', r)"
    obtain x1 c1 r1 where first: "g col c = (x1, c1, r1)" using prod_cases3 by blast
    note one = lawful_asD [OF g laws good first]
    show "good c' \<and> (r = Ok () \<longrightarrow> x' = z \<and> lk_sent c' = lk_sent c @ ys @ zs)"
    proof (cases r1)
      case (Ok u)
      with one have "x1 = x" "lk_sent c1 = lk_sent c @ ys" by simp_all
      with lawful_asD [OF h laws one(1)] run first Ok show ?thesis by fastforce
    qed (use one run first in auto)
  qed
  then show ?thesis unfolding lawful_def by blast
qed

lemma lawful_map [lawful_rules]:
  assumes "lawful g"
  shows "lawful (\<lambda>col c. case g col c of (x, c', r) \<Rightarrow> (m x, c', r))"
proof -
  obtain x ys where g: "lawful_as g x ys" using assms by (auto simp: lawful_def)
  have "lawful_as (\<lambda>col c. case g col c of (x, c', r) \<Rightarrow> (m x, c', r)) (m x) ys"
    unfolding lawful_as_def
  proof (intro allI impI)
    fix col good c x' c' r
    assume laws: "collector_laws col lk_sent good" and good: "good c" and run: "(case g col c of (x, c', r) \<Rightarrow> (m x, c', r)) = (x', c', r)"
    obtain x1 c1 r1 where first: "g col c = (x1, c1, r1)" using prod_cases3 by blast
    with lawful_asD [OF g laws good first] run show "good c' \<and> (r = Ok () \<longrightarrow> x' = m x \<and> lk_sent c' = lk_sent c @ ys)" by auto
  qed
  then show ?thesis unfolding lawful_def by blast
qed

text \<open>The same for pieces without a state, which return the collector and the result only.\<close>

definition lawful2 :: "((('v, 'n) link, 'v) collector \<Rightarrow> ('v, 'n) link \<Rightarrow> ('v, 'n) link \<times> unit res) \<Rightarrow> bool" where
  "lawful2 g \<longleftrightarrow> lawful (\<lambda>col c. ((), g col c))"

lemma lawful2_const [lawful_rules]: "lawful2 (\<lambda>col c. (c, r))"
  unfolding lawful2_def by (rule lawful_const)

lemma lawful2_collect [lawful_rules]: "lawful2 (\<lambda>col c. collect col c rec)"
  unfolding lawful2_def by (rule lawful_collect)

lemma lawful_bind2 [lawful_rules]:
  assumes "lawful2 g" and "lawful h"
  shows "lawful (\<lambda>col c. case g col c of (c', Ok _) \<Rightarrow> h col c' | (c', Err e) \<Rightarrow> (x1, c', Err e) | (c', Panic p) \<Rightarrow> (x2, c', Panic p))"
  using lawful_bind [of "\<lambda>col c. ((), g col c)" "\<lambda>_. h" "\<lambda>_. x1" "\<lambda>_. x2"] assms by (simp add: lawful2_def)

lemma lawful2_and_then [lawful_rules]:
  assumes "lawful2 g" and "lawful2 h"
  shows "lawful2 (\<lambda>col c. and_then (g col c) (\<lambda>c'. h col c'))"
proof -
  have "(\<lambda>col c. ((), and_then (g col c) (h col))) =
      (\<lambda>col c. case g col c of (c', Ok _) \<Rightarrow> ((), h col c') | (c', Err e) \<Rightarrow> ((), c', Err e) | (c', Panic p) \<Rightarrow> ((), c', Panic p))"
    by (intro ext) (auto simp: and_then_def split: prod.splits res.splits)
  with lawful_bind2 [of g "\<lambda>col c. ((), h col c)" "()" "()"] assms show ?thesis by (simp add: lawful2_def)
qed

lemma transduces_lawful:
  assumes "\<And>s e. lawful (\<lambda>col c. operator_step opr col e s c)"
  shows "\<exists>f. transduces opr f"
proof -
  have "\<forall>s e. \<exists>out. lawful_as (\<lambda>col c. operator_step opr col e s c) (fst out) (snd out)"
    using assms by (auto simp: lawful_def)
  then obtain f where "\<forall>s e. lawful_as (\<lambda>col c. operator_step opr col e s c) (fst (f s e)) (snd (f s e))" by metis
  then have "transduces opr f" unfolding transduces_def lawful_as_def by blast
  then show ?thesis by blast
qed

lemma lawful_cong: "(\<And>col c. g col c = h col c) \<Longrightarrow> lawful h \<Longrightarrow> lawful g"
  by (auto simp: lawful_def lawful_as_def)

lemma lawful2_cong: "(\<And>col c. g col c = h col c) \<Longrightarrow> lawful2 h \<Longrightarrow> lawful2 g"
  unfolding lawful2_def by (rule lawful_cong) auto

lemma lawful_case: "(\<And>a b. p = (a, b) \<Longrightarrow> lawful (g a b)) \<Longrightarrow> lawful (\<lambda>col c. case p of (a, b) \<Rightarrow> g a b col c)"
  by (cases p) simp

subsection \<open>The operators\<close>

lemma fire_windows_lawful: "lawful2 (\<lambda>col c. fire_windows agg m col c ks)"
proof (induct ks)
  case Nil
  show ?case by (rule lawful2_cong, simp) (rule lawful2_const)
next
  case (Cons wk wks)
  show ?case
  proof (cases "m wk")
    case None
    then show ?thesis using Cons by (intro lawful2_cong [OF _ Cons]) simp
  next
    case (Some acc)
    show ?thesis
    proof (cases "checked_sub (as_millis (win_end (wk_window wk))) 1")
      case (Ok t)
      show ?thesis by (rule lawful2_cong, simp add: Some Ok) (rule lawful2_and_then [OF lawful2_collect Cons])
    qed (rule lawful2_cong, simp add: Some, rule lawful2_const)+
  qed
qed

lemma window_operator_transduces: "\<exists>f. transduces (window_operator assigner tr agg order) f"
proof (rule transduces_lawful)
  show "lawful (\<lambda>col c. operator_step (window_operator assigner tr agg order) col e s c)" for s e
  proof (cases e)
    case (ElemRecord rec)
    obtain s' r where "window_process_record assigner agg s rec = (s', r)" by fastforce
    with ElemRecord show ?thesis by (intro lawful_cong [OF _ lawful_const [of s' r]]) simp
  next
    case (ElemWatermark w)
    obtain fire purge tr' where "evaluate_trigger tr (win_trigger s) (wm_timestamp w) (order (accumulators s)) = (fire, purge, tr')"
      using prod_cases3 by blast
    moreover obtain m' pool' where "purge_windows (accumulators s) (key_pool s) purge = (m', pool')" by fastforce
    ultimately show ?thesis
      using ElemWatermark
      by (intro lawful_cong [OF _ lawful_bind2 [OF fire_windows_lawful [of agg "accumulators s" fire]
            lawful_watermark [of "s\<lparr>win_trigger := tr', accumulators := m', key_pool := pool'\<rparr>" w],
            of "s\<lparr>win_trigger := tr'\<rparr>" "s\<lparr>win_trigger := tr'\<rparr>"]])
        (simp add: window_process_watermark_def Let_def)
  next
    case (ElemBarrier b)
    then show ?thesis by (intro lawful_cong [OF _ lawful_barrier]) simp
  qed
qed

lemma join_rights_lawful: "lawful (\<lambda>col c. join_rights jf col key l rs f c)"
proof (induction rs arbitrary: f)
  case Nil
  show ?case by (rule lawful_cong [OF _ lawful_const]) (cases l, simp)
next
  case (Cons r rs)
  obtain lv lt rv rt where lr: "l = (lv, lt)" "r = (rv, rt)" by (cases l; cases r)
  obtain out f' where "jf f lv rv = (out, f')" by fastforce
  with lr show ?case
    by (intro lawful_cong [OF _ lawful_bind2 [OF lawful2_collect [of "with_key (record_new out (max lt rt)) key"] Cons [of f'], of f' f']]) (simp add: lr(1))
qed

lemma join_lefts_lawful: "lawful (\<lambda>col c. join_lefts jf col key ls rs f c)"
proof (induction ls arbitrary: f)
  case Nil
  show ?case by (rule lawful_cong [OF _ lawful_const]) simp
next
  case (Cons l ls)
  show ?case by (rule lawful_cong [OF _ lawful_bind [OF join_rights_lawful Cons]]) simp
qed

lemma join_fire_lawful: "lawful (\<lambda>col c. join_fire jf col m ks f c)"
proof (induction ks arbitrary: f)
  case Nil
  show ?case by (rule lawful_cong [OF _ lawful_const]) simp
next
  case (Cons wk wks)
  show ?case
  proof (cases "m wk")
    case None
    then show ?thesis by (intro lawful_cong [OF _ Cons]) simp
  next
    case (Some js)
    then show ?thesis by (intro lawful_cong [OF _ lawful_bind [OF join_lefts_lawful Cons]]) simp
  qed
qed

lemma window_join_transduces: "\<exists>f. transduces (window_join_operator assigner tr jf order) f"
proof (rule transduces_lawful)
  show "lawful (\<lambda>col c. operator_step (window_join_operator assigner tr jf order) col e s c)" for s e
  proof (cases e)
    case (ElemRecord rec)
    obtain s' r where "join_process_record assigner s rec = (s', r)" by fastforce
    with ElemRecord show ?thesis by (intro lawful_cong [OF _ lawful_const [of s' r]]) (simp add: window_join_operator_def)
  next
    case (ElemWatermark w)
    obtain fire purge tr' where "evaluate_trigger tr (wj_trigger s) (wm_timestamp w) (order (wj_state s)) = (fire, purge, tr')"
      using prod_cases3 by blast
    moreover obtain m' pool' where "purge_windows (wj_state s) (wj_pool s) purge = (m', pool')" by fastforce
    ultimately show ?thesis
      using ElemWatermark by (intro lawful_cong [OF _ lawful_bind [OF join_fire_lawful lawful_watermark]])
        (simp add: window_join_operator_def join_process_watermark_def)
  next
    case (ElemBarrier b)
    then show ?thesis by (intro lawful_cong [OF _ lawful_barrier]) (simp add: window_join_operator_def)
  qed
qed

lemma emit_results_lawful: "lawful2 (\<lambda>col c. emit_results col vs key t c)"
proof (induction vs)
  case Nil
  show ?case by (rule lawful2_cong [OF _ lawful2_const]) simp
next
  case (Cons v vs)
  show ?case by (rule lawful2_cong [OF _ lawful2_and_then [OF lawful2_collect Cons]]) simp
qed

lemma cogroup_fire_lawful: "lawful (\<lambda>col c. cogroup_fire cf col m ks f c)"
proof (induction ks arbitrary: f)
  case Nil
  show ?case by (rule lawful_cong [OF _ lawful_const]) simp
next
  case (Cons wk wks)
  show ?case
  proof (cases "m wk")
    case None
    then show ?thesis by (intro lawful_cong [OF _ Cons]) simp
  next
    case (Some cs)
    obtain results f' where res: "cf f (wk_key wk) (cg_left cs) (cg_right cs) = (results, f')" by fastforce
    show ?thesis
    proof (cases "checked_sub (as_millis (win_end (wk_window wk))) 1")
      case (Ok t)
      with Some res show ?thesis by (intro lawful_cong [OF _ lawful_bind2 [OF emit_results_lawful [of results "wk_key wk" "EventTimestamp t"] Cons [of f'], of f' f']]) simp
    next
      case (Err e)
      with Some res show ?thesis by (intro lawful_cong [OF _ lawful_const [of f' "Err e"]]) simp
    next
      case (Panic p)
      with Some res show ?thesis by (intro lawful_cong [OF _ lawful_const [of f' "Panic p"]]) simp
    qed
  qed
qed

lemma window_cogroup_transduces: "\<exists>f. transduces (window_cogroup_operator assigner tr cf order) f"
proof (rule transduces_lawful)
  show "lawful (\<lambda>col c. operator_step (window_cogroup_operator assigner tr cf order) col e s c)" for s e
  proof (cases e)
    case (ElemRecord rec)
    obtain s' r where "cogroup_process_record assigner s rec = (s', r)" by fastforce
    with ElemRecord show ?thesis by (intro lawful_cong [OF _ lawful_const [of s' r]]) (simp add: window_cogroup_operator_def)
  next
    case (ElemWatermark w)
    obtain fire purge tr' where "evaluate_trigger tr (wc_trigger s) (wm_timestamp w) (order (wc_state s)) = (fire, purge, tr')"
      using prod_cases3 by blast
    moreover obtain m' pool' where "purge_windows (wc_state s) (wc_pool s) purge = (m', pool')" by fastforce
    ultimately show ?thesis
      using ElemWatermark by (intro lawful_cong [OF _ lawful_bind [OF cogroup_fire_lawful lawful_watermark]])
        (simp add: window_cogroup_operator_def cogroup_process_watermark_def)
  next
    case (ElemBarrier b)
    then show ?thesis by (intro lawful_cong [OF _ lawful_barrier]) (simp add: window_cogroup_operator_def)
  qed
qed

lemma interval_emit_values_lawful: "lawful (\<lambda>col c. interval_emit_values g col key t xs f c)"
proof (induction xs arbitrary: f)
  case Nil
  show ?case by (rule lawful_cong [OF _ lawful_const]) simp
next
  case (Cons x xs)
  obtain out f' where "g f x = (out, f')" by fastforce
  then show ?case by (intro lawful_cong [OF _ lawful_bind2 [OF lawful2_collect [of "with_key (record_new out t) key"] Cons [of f'], of f' f']]) simp
qed

lemma interval_emit_range_lawful: "lawful (\<lambda>col c. interval_emit_range g col key t m f c)"
proof (induction m arbitrary: f)
  case Nil
  show ?case by (rule lawful_cong [OF _ lawful_const]) simp
next
  case (Cons e m)
  obtain t' xs where "e = (t', xs)" by fastforce
  then show ?case by (intro lawful_cong [OF _ lawful_bind [OF interval_emit_values_lawful Cons]]) simp
qed

lemma interval_probe_lawful: "lawful (\<lambda>col c. case res of
        Ok entries \<Rightarrow> (case interval_emit_range g col key t entries f c of (f', c', r) \<Rightarrow> (s'\<lparr>ij_fn := f'\<rparr>, c', r))
      | Err e \<Rightarrow> (s', c, Err e) | Panic p \<Rightarrow> (s', c, Panic p))"
  by (cases res) (simp_all only: res.case lawful_const lawful_map [OF interval_emit_range_lawful, where m = "\<lambda>f'. s'\<lparr>ij_fn := f'\<rparr>"])

lemma interval_record_lawful: "lawful (\<lambda>col c. interval_process_record jf s rec col c)"
  unfolding interval_process_record_def [abs_def] Let_def
  by (cases "rec_value rec") (simp_all only: either.case interval_probe_lawful)

lemma interval_join_transduces: "\<exists>f. transduces (interval_join_operator jf) f"
proof (rule transduces_lawful)
  show "lawful (\<lambda>col c. operator_step (interval_join_operator jf) col e s c)" for s e
  proof (cases e)
    case (ElemRecord rec)
    then show ?thesis by (intro lawful_cong [OF _ interval_record_lawful]) (simp add: interval_join_operator_def)
  next
    case (ElemWatermark w)
    then show ?thesis by (intro lawful_cong [OF _ lawful_watermark]) (simp add: interval_join_operator_def interval_process_watermark_def Let_def)
  next
    case (ElemBarrier b)
    then show ?thesis by (intro lawful_cong [OF _ lawful_barrier]) (simp add: interval_join_operator_def)
  qed
qed

end
