(* ===== verification/Pipeline_Theorems.thy ===== *)
theory Pipeline_Theorems
  imports Pipeline_Correct Operator_Contract
begin

text \<open>
  Pipelines from end to end: a pipeline that \<open>flume-api\<close> builds is well formed, its channels are bounded, and when
  \<open>add_sink\<close> returns \<open>Ok\<close>, after any interleaving of its tasks, the sink was fed the stream that the operators compute
  from the sources.
\<close>

subsection \<open>A run that ends well\<close>

lemma carries_net: "env_net env' = env_net env \<Longrightarrow> carries env' ds P = carries env ds P"
  by (simp add: carries_def cong: option.case_cong source_or_channel.case_cong)

lemma carries_mono: "carries env ds P \<Longrightarrow> (\<And>es. P es \<Longrightarrow> Q es) \<Longrightarrow> carries env ds Q"
  by (auto simp: carries_def split: option.splits source_or_channel.splits intro: link_carries_mono)

lemma add_sink_carries:
  assumes "carries env ds P" and "add_sink ds k env = Ok (env', r0)"
  shows "link_carries (net_spawned (env_net env')) (run_input r0) P"
proof -
  obtain env1 sink_id where node: "env_add_node ''sink'' SinkNode 1 env = (env1, sink_id)" by fastforce
  let ?env2 = "env_add_edge (ds_node ds) sink_id ForwardStrategy env1"
  from assms(2) node obtain c where wire: "wire_upstream ds ?env2 = Ok (env', c)" and "run_input r0 = c"
    by (auto simp: add_sink_def bind_res_Ok)
  moreover have "carries ?env2 ds P" using assms(1) env_add_node_net [OF node] carries_net [of ?env2 env] by simp
  ultimately show ?thesis using wire_upstream_carries by blast
qed

lemma pipeline_run:
  fixes env env' :: "('v, 's, 'n) stream_env"
  assumes ok: "env_ok env ds" and sink: "add_sink ds k env = Ok (env', r0)"
    and result: "add_sink_result show_join (run_pipeline nf sinkops acts r0) = Some (Ok ())"
  shows "\<exists>es. stream_of (net_spawned (env_net env')) (run_input r0) es \<and>
    sink_feed sinkops es k = (run_sink (run_pipeline nf sinkops acts r0), Ok ())"
proof -
  let ?r = "run_pipeline nf sinkops acts r0" and ?net0 = "env_net env'" and ?c = "run_input r0"
  from add_sink_ok [OF ok sink] have core: "core_ok env'" and un: "unread ?net0 ?c" and inv0: "run_inv sinkops k ?net0 ?c r0" by blast+
  from core have ready: "net_ready ?net0" by (simp add: core_ok_def)
  note inv = run_pipeline_inv [OF ready un inv0, of nf acts]
  from inv have net: "net_inv ?net0 (run_net ?r)" by (simp add: run_inv_def)
  note ended = add_sink_Ok_result [OF result net]
  from un obtain j where j: "j < length (net_spawned ?net0)" "?c \<in> set (link_outs (sp_actor (net_spawned ?net0 ! j)))"
    unfolding unread_def by (metis in_set_conv_nth)
  with finished_streams [OF ready net ended(2) j(1)] have "stream_of (net_spawned ?net0) ?c (lk_sent (net_links (run_net ?r) ! ?c))" by blast
  moreover from inv ended(1) have "lk_drained (net_links (run_net ?r) ! ?c)"
    "sink_feed sinkops (lk_taken (net_links (run_net ?r) ! ?c)) k = (run_sink ?r, Ok ())" by (simp_all add: run_inv_def)
  ultimately show ?thesis by (auto simp: lk_drained_def)
qed

lemma pipeline_run_carries:
  assumes ok: "env_ok env ds" and sink: "add_sink ds k env = Ok (env', r0)" and car: "carries env ds P"
    and result: "add_sink_result show_join (run_pipeline nf sinkops acts r0) = Some (Ok ())"
  shows "\<exists>es. P es \<and> sink_feed sinkops es k = (run_sink (run_pipeline nf sinkops acts r0), Ok ())"
proof -
  from pipeline_run [OF ok sink result] obtain es where st: "stream_of (net_spawned (env_net env')) (run_input r0) es"
    and fed: "sink_feed sinkops es k = (run_sink (run_pipeline nf sinkops acts r0), Ok ())" by blast
  have "fresh_net (env_net env')" using add_sink_ok [OF ok sink] by (simp add: core_ok_def)
  then have "wired (net_spawned (env_net env') @ []) (length (net_links (env_net env'))) (length (net_pairs (env_net env')))"
    by (simp add: fresh_net_def)
  moreover have "stream_of (net_spawned (env_net env') @ []) (run_input r0) es" using st by simp
  ultimately have "P es" using add_sink_carries [OF car sink] unfolding link_carries_def by blast
  with fed show ?thesis by blast
qed

subsection \<open>Chains of operators\<close>

text \<open>A chain of builder calls, and the stream it stands for.\<close>

fun add_stages :: "('n \<times> string \<times> ('s, ('v, 'n) link, 'v, 'v) operator \<times> 's) list \<Rightarrow> ('s, 'v) data_stream \<Rightarrow> ('v, 's, 'n) stream_env \<Rightarrow>
    (('v, 's, 'n) stream_env \<times> ('s, 'v) data_stream) res" where
  "add_stages [] ds env = Ok (env, ds)"
| "add_stages ((n0, name, opr, op) # stages) ds env =
     bind_res (apply_operator n0 name opr op ds env) (\<lambda>(env', ds'). add_stages stages ds' env')"

fun chain :: "(('s \<Rightarrow> 'v stream_element \<Rightarrow> 's \<times> 'v stream_element list) \<times> 's) list \<Rightarrow> 'v stream_element list \<Rightarrow> 'v stream_element list" where
  "chain [] xs = xs"
| "chain ((f, s) # fs) xs = chain fs (snd (run_transducer f s xs))"

text \<open>\<open>f\<close> is what the operator of a stage computes from the state it starts with.\<close>

definition stage_computes where
  "stage_computes stage fs \<longleftrightarrow> (case (stage, fs) of ((n0, name, opr, op), (f, s)) \<Rightarrow> transduces opr f \<and> s = op)"

lemma add_stages_ok:
  assumes "env_ok env ds" and "carries env ds P" and "list_all2 stage_computes stages fs" and "add_stages stages ds env = Ok (env', ds')"
  shows "env_ok env' ds' \<and> carries env' ds' (\<lambda>es. \<exists>xs. P xs \<and> es = chain fs xs)"
  using assms
proof (induction stages arbitrary: env ds P fs)
  case Nil
  then show ?case by simp
next
  case (Cons stage stages)
  obtain n0 name opr op where stage: "stage = (n0, name, opr, op)" by (cases stage)
  from Cons.prems(3) obtain f fs' where fs: "fs = (f, op) # fs'" and f: "transduces opr f" and rest: "list_all2 stage_computes stages fs'"
    unfolding stage list_all2_Cons1 by (auto simp: stage_computes_def [of "(n0, name, opr, op)"])
  have "bind_res (apply_operator n0 name opr op ds env) (\<lambda>(env1, ds1). add_stages stages ds1 env1) = Ok (env', ds')"
    using Cons.prems(4) by (simp add: stage)
  then obtain env1 ds1 where one: "apply_operator n0 name opr op ds env = Ok (env1, ds1)"
    and more: "add_stages stages ds1 env1 = Ok (env', ds')" unfolding bind_res_Ok by auto
  have "env_ok env1 ds1" using apply_operator_ok [OF Cons.prems(1) _ one] f by blast
  from Cons.IH [OF this apply_operator_carries [OF Cons.prems(2) f one] rest more]
  have "env_ok env' ds'" "carries env' ds' (\<lambda>es. \<exists>xs. (\<exists>zs. P zs \<and> xs = snd (run_transducer f op zs)) \<and> es = chain fs' xs)" by simp_all
  moreover have "(\<lambda>es. \<exists>xs. (\<exists>zs. P zs \<and> xs = snd (run_transducer f op zs)) \<and> es = chain fs' xs) = (\<lambda>es. \<exists>xs. P xs \<and> es = chain fs xs)"
    by (auto simp: fs)
  ultimately show ?case by simp
qed

lemma from_source_carries:
  "from_source src s env0 = (env, ds) \<Longrightarrow> carries env ds (\<lambda>es. drains (source_next src) None s es)"
  by (auto simp: from_source_def carries_def data_stream_new_def split: prod.splits)

lemma drains_unique: "drains src key s xs \<Longrightarrow> drains src key s ys \<Longrightarrow> ys = xs"
proof (induction arbitrary: ys rule: drains.induct)
  case (ended s s' key)
  from ended(2) show ?case
  proof cases
    case ended
    then show ?thesis by simp
  next
    case (delivered s1 e1 e1' key1 es1)
    with ended(1) show ?thesis by simp
  qed
next
  case (delivered s s' e key e' key' es)
  from delivered(5) show ?case
  proof cases
    case ended
    with delivered(1) show ?thesis by simp
  next
    case (delivered s1 e1 e1' key1 es1)
    with \<open>src s = (s', Ok (Some e))\<close> have "s1 = s'" "e1 = e" by simp_all
    with delivered(3) \<open>apply_key key e = (e', key')\<close> have "e1' = e'" "key1 = key'" by simp_all
    with delivered(1,4) \<open>s1 = s'\<close> \<open>\<And>ys. drains src key' s' ys \<Longrightarrow> ys = es\<close> show ?thesis by simp
  qed
qed

lemma chain_run:
  assumes "from_source src s (env_from_config config) = (env0, ds0)" and "list_all2 stage_computes stages fs"
    and "add_stages stages ds0 env0 = Ok (env1, ds1)" and "add_sink ds1 k env1 = Ok (env2, r0)"
    and "add_sink_result show_join (run_pipeline nf sinkops acts r0) = Some (Ok ())"
  shows "\<exists>xs. drains (source_next src) None s xs \<and> sink_feed sinkops (chain fs xs) k = (run_sink (run_pipeline nf sinkops acts r0), Ok ())"
  using pipeline_run_carries [OF _ assms(4) _ assms(5)]
    add_stages_ok [OF from_source_ok [OF assms(1)] from_source_carries [OF assms(1)] assms(2,3)] by blast

subsection \<open>What the API calls build\<close>

lemma boxed_transduces: "\<exists>f. transduces opr f \<Longrightarrow> \<exists>f. transduces (boxed box unbox opr) f"
proof -
  assume "\<exists>f. transduces opr f"
  then obtain f where f: "transduces opr f" by blast
  have "inv c' \<and> (r = Ok () \<longrightarrow> s' = fst (apfst box (f (unbox s) e)) \<and> lk_sent c' = lk_sent c @ snd (apfst box (f (unbox s) e)))"
    if laws: "collector_laws col lk_sent inv" "inv c" and step: "operator_step (boxed box unbox opr) col e s c = (s', c', r)"
    for col inv c e s s' c' r
  proof -
    obtain t where inner: "operator_step opr col e (unbox s) c = (t, c', r)" and s': "s' = box t"
      using step by (cases e) (auto simp: boxed_def apfst_def map_prod_def split: prod.splits)
    from f laws inner have "inv c' \<and> (r = Ok () \<longrightarrow> t = fst (f (unbox s) e) \<and> lk_sent c' = lk_sent c @ snd (f (unbox s) e))"
      unfolding transduces_def by blast
    with s' show ?thesis by simp
  qed
  then have "transduces (boxed box unbox opr) (\<lambda>s e. apfst box (f (unbox s) e))" unfolding transduces_def by blast
  then show ?thesis by blast
qed

lemmas library_transduces =
  map_op.elementwise_operator_axioms [THEN elementwise_transduces] filter_op.elementwise_operator_axioms [THEN elementwise_transduces]
  flat_map_op.elementwise_operator_axioms [THEN elementwise_transduces] key_by_op.elementwise_operator_axioms [THEN elementwise_transduces]

text \<open>
  Every call of the builder API builds. The contract of a process operator is a premise: it holds of the user functions
  that return the errors of the collector they are given.
\<close>

lemma built_collection: "from_collection box unbox clock items (env_from_config config) = (env, ds) \<Longrightarrow> built env ds"
  unfolding from_collection_def by (rule built.source)

lemma built_stateless:
  assumes "built env ds"
  shows "ds_map n0 g s ds env = Ok (env', ds') \<Longrightarrow> built env' ds'"
    and "ds_filter n0 p s ds env = Ok (env', ds') \<Longrightarrow> built env' ds'"
    and "ds_flat_map n0 h s ds env = Ok (env', ds') \<Longrightarrow> built env' ds'"
    and "ds_key_by n0 hash ke s ds env = Ok (env', ds') \<Longrightarrow> built env' ds'"
  unfolding ds_map_def ds_filter_def ds_flat_map_def ds_key_by_def
  by (rule built.operator [OF assms exI], rule library_transduces, assumption)+

lemma built_process:
  fixes env :: "('v, 's, 'n) stream_env"
  assumes "built env ds"
  shows "\<exists>f. transduces (process_operator pf None :: ((_, unit) process_op, ('v, 'n) link, 'v, 'v) operator) f \<Longrightarrow>
      ds_process n0 box unbox pf s ds env = Ok (env', ds') \<Longrightarrow> built env' ds'"
    and "\<exists>f. transduces (keyed_process_operator kpf None :: ((_, unit) process_op, ('v, 'n) link, 'v, 'v) operator) f \<Longrightarrow>
      ds_process_keyed n0 box unbox kpf s ds env = Ok (env', ds') \<Longrightarrow> built env' ds'"
  unfolding ds_process_def ds_process_keyed_def using built.operator [OF assms boxed_transduces] by blast+

lemma built_aggregate:
  assumes "built env (ws_stream ws)" and "ws_aggregate n0 box unbox t0 order agg ws env = Ok (env', ds')"
  shows "built env' ds'"
proof -
  obtain tr t where "(case ws_trigger ws of None \<Rightarrow> (default_trigger, t0) | Some tr \<Rightarrow> tr) = (tr, t)" by fastforce
  with assms(2) have "apply_operator n0 ''window'' (boxed box unbox (window_operator (ws_assigner ws) tr agg order))
      (box (window_state_new t)) (ws_stream ws) env = Ok (env', ds')" by (simp add: ws_aggregate_def)
  with assms(1) boxed_transduces [OF window_operator_transduces] show ?thesis by (rule built.operator)
qed

lemma built_co_process:
  fixes env :: "('v, 's, 'n) stream_env"
  assumes "built env (cs_stream cs)" and "\<exists>f. transduces (co_process_operator cpf None :: ((_, unit) process_op, ('v, 'n) link, ('v, 'v) either, 'v) operator) f"
    and "cs_process n0 box unbox cpf s cs env = Ok (env', ds')"
  shows "built env' ds'"
  using assms(3) unfolding cs_process_def wire_two_input_def by (rule built.two_inputs [OF assms(1) boxed_transduces [OF assms(2)]])

lemma built_joins:
  assumes "built env (cs_stream js)"
  shows "join_apply n0 box unbox order jf s js env = Ok (env', ds') \<Longrightarrow> built env' ds'"
    and "join_cogroup n0 box2 unbox2 order2 cf t js env = Ok (env', ds') \<Longrightarrow> built env' ds'"
  unfolding join_apply_def join_cogroup_def
  by (rule built.two_inputs [OF assms boxed_transduces], rule window_join_transduces window_cogroup_transduces, assumption)+

lemma built_interval_join:
  "built env (cs_stream bis) \<Longrightarrow> interval_process n0 box unbox jf s bis env = Ok (env', ds') \<Longrightarrow> built env' ds'"
  unfolding interval_process_def by (rule built.two_inputs [OF _ boxed_transduces [OF interval_join_transduces]])

subsection \<open>Pipelines of pure functions\<close>

text \<open>The values of a stream, and what pure maps, filters and flat maps make of them.\<close>

definition values_of :: "'v stream_element list \<Rightarrow> 'v list" where
  "values_of es = concat (map (\<lambda>e. case e of ElemRecord rec \<Rightarrow> [rec_value rec] | _ \<Rightarrow> []) es)"

lemma values_of_simps [simp]:
  "values_of [] = []" "values_of (ElemRecord rec # es) = rec_value rec # values_of es"
  "values_of (ElemWatermark w # es) = values_of es" "values_of (ElemBarrier b # es) = values_of es"
  "values_of (xs @ ys) = values_of xs @ values_of ys" "values_of (map (\<lambda>x. ElemRecord (h x)) vs) = map (\<lambda>x. rec_value (h x)) vs"
  by (simp_all add: values_of_def) (induction vs; simp)

datatype 'v pure_stage = PureMap "'v \<Rightarrow> 'v" | PureFilter "'v \<Rightarrow> bool" | PureFlatMap "'v \<Rightarrow> 'v list"

fun pure_stage_values :: "'v pure_stage \<Rightarrow> 'v list \<Rightarrow> 'v list" where
  "pure_stage_values (PureMap f) vs = map f vs"
| "pure_stage_values (PureFilter p) vs = filter p vs"
| "pure_stage_values (PureFlatMap g) vs = concat (map g vs)"

definition pure_values :: "'v pure_stage list \<Rightarrow> 'v list \<Rightarrow> 'v list" where
  "pure_values stages vs = fold pure_stage_values stages vs"

text \<open>The builder calls for such a pipeline; the closures capture \<open>s0\<close> and do not change it.\<close>

fun add_pure_stage :: "'n \<Rightarrow> 's \<Rightarrow> 'v pure_stage \<Rightarrow> ('s, 'v) data_stream \<Rightarrow> ('v, 's, 'n) stream_env \<Rightarrow>
    (('v, 's, 'n) stream_env \<times> ('s, 'v) data_stream) res" where
  "add_pure_stage n0 s0 (PureMap f) = ds_map n0 (\<lambda>s v. (f v, s)) s0"
| "add_pure_stage n0 s0 (PureFilter p) = ds_filter n0 (\<lambda>s v. (p v, s)) s0"
| "add_pure_stage n0 s0 (PureFlatMap g) = ds_flat_map n0 (\<lambda>s v. (g v, s)) s0"

fun add_pure_stages :: "'n \<Rightarrow> 's \<Rightarrow> 'v pure_stage list \<Rightarrow> ('s, 'v) data_stream \<Rightarrow> ('v, 's, 'n) stream_env \<Rightarrow>
    (('v, 's, 'n) stream_env \<times> ('s, 'v) data_stream) res" where
  "add_pure_stages n0 s0 [] ds env = Ok (env, ds)"
| "add_pure_stages n0 s0 (st # stages) ds env =
     bind_res (add_pure_stage n0 s0 st ds env) (\<lambda>(env', ds'). add_pure_stages n0 s0 stages ds' env')"

lemma run_elementwise: "run_transducer (elementwise_step expand) s es = prod.swap (elementwise expand s es)"
proof (induction es arbitrary: s)
  case (Cons e es)
  then show ?case by (cases e) (simp_all add: elementwise_step_def split: prod.split)
qed simp

lemma pure_expands:
  "values_of (fst (elementwise (map_expand (\<lambda>s v. (f v, s))) s es)) = map f (values_of es)"
  "values_of (fst (elementwise (filter_expand (\<lambda>s v. (p v, s))) s es)) = filter p (values_of es)"
  "values_of (fst (elementwise (flat_map_expand (\<lambda>s v. (g v, s))) s es)) = concat (map g (values_of es))"
proof (induction es)
  case (Cons e es)
  {
    case 1
    with Cons show ?case by (cases e) (simp_all add: map_expand_def split_def Let_def)
  next
    case 2
    with Cons show ?case by (cases e) (simp_all add: filter_expand_def split_def Let_def)
  next
    case 3
    with Cons show ?case by (cases e) (simp_all add: flat_map_expand_def split_def Let_def comp_def)
  }
qed simp_all

lemma add_pure_stage_ok:
  assumes "env_ok env ds" and "carries env ds (\<lambda>es. values_of es = vs)" and "add_pure_stage n0 s0 st ds env = Ok (env', ds')"
  shows "env_ok env' ds' \<and> carries env' ds' (\<lambda>es. values_of es = pure_stage_values st vs)"
proof -
  obtain name opr expand where app: "apply_operator n0 name opr s0 ds env = Ok (env', ds')" and opr: "transduces opr (elementwise_step expand)"
    and out: "\<And>es. values_of (fst (elementwise expand s0 es)) = pure_stage_values st (values_of es)"
  proof (cases st)
    case (PureMap f)
    with assms(3) show ?thesis
      by (intro that [of "''map''" "map_operator (\<lambda>s v. (f v, s))"]) (auto simp: ds_map_def pure_expands intro: library_transduces)
  next
    case (PureFilter p)
    with assms(3) show ?thesis
      by (intro that [of "''filter''" "filter_operator (\<lambda>s v. (p v, s))"]) (auto simp: ds_filter_def pure_expands intro: library_transduces)
  next
    case (PureFlatMap g)
    with assms(3) show ?thesis
      by (intro that [of "''flat_map''" "flat_map_operator (\<lambda>s v. (g v, s))"]) (auto simp: ds_flat_map_def pure_expands intro: library_transduces)
  qed
  have "env_ok env' ds'" using apply_operator_ok [OF assms(1) _ app] opr by blast
  moreover have "carries env' ds' (\<lambda>es. values_of es = pure_stage_values st vs)"
    by (rule carries_mono [OF apply_operator_carries [OF assms(2) opr app]]) (use out in \<open>auto simp: run_elementwise\<close>)
  ultimately show ?thesis by simp
qed

lemma add_pure_stages_ok:
  assumes "env_ok env ds" and "carries env ds (\<lambda>es. values_of es = vs)" and "add_pure_stages n0 s0 stages ds env = Ok (env', ds')"
  shows "env_ok env' ds' \<and> carries env' ds' (\<lambda>es. values_of es = pure_values stages vs)"
  using assms
proof (induction stages arbitrary: env ds vs)
  case (Cons st stages)
  from Cons.prems(3) obtain env1 ds1 where one: "add_pure_stage n0 s0 st ds env = Ok (env1, ds1)"
    and more: "add_pure_stages n0 s0 stages ds1 env1 = Ok (env', ds')" by (simp add: bind_res_Ok) fast
  note first = add_pure_stage_ok [OF Cons.prems(1,2) one]
  from Cons.IH [OF conjunct1 [OF first] conjunct2 [OF first] more] show ?case by (simp add: pure_values_def)
qed (simp add: pure_values_def)

text \<open>The in-memory source delivers its items; the collecting sink keeps the values it is fed.\<close>

lemma in_memory_drains:
  fixes s :: 's and xs :: "'v stream_element list"
  assumes "drains (source_next (boxed_source box unbox (in_memory_source clock))) None s xs" and "\<And>x. unbox (box x) = x"
  shows "values_of xs = ims_items (unbox s)"
  using assms(1)
proof (induction key \<equiv> "None :: ('s, 'v) key_extractor option" s xs rule: drains.induct)
  case (ended s s')
  then show ?case by (auto simp: boxed_source_def in_memory_source_def in_memory_next_def apfst_def map_prod_def split: list.splits)
next
  case (delivered s s' e e' key' es)
  then show ?case
    by (auto simp: boxed_source_def in_memory_source_def in_memory_next_def apfst_def map_prod_def record_new_def assms(2) split: list.splits)
qed

lemma collect_sink_feed:
  "\<not> cks_poisoned k \<Longrightarrow> sink_feed collect_sink es k = (k\<lparr>cks_results := cks_results k @ values_of es\<rparr>, Ok ())"
proof (induction es arbitrary: k)
  case (Cons e es)
  then show ?case by (cases e) (simp_all add: sink_element_def collect_sink_def)
qed simp

subsection \<open>Bounds\<close>

definition channel_bound :: "pipeline_config \<Rightarrow> nat" where
  "channel_bound config = (case cfg_channel_kind config of
     Mpsc \<Rightarrow> channel_buffer_size config | RingBuffer \<Rightarrow> max (next_power_of_two (channel_buffer_size config)) 2)"

lemma channel_bound_exact:
  "case cfg_channel_kind config of
     Mpsc \<Rightarrow> channel_bound config = channel_buffer_size config
   | RingBuffer \<Rightarrow> (\<exists>k. channel_bound config = 2 ^ k) \<and> max (channel_buffer_size config) 2 \<le> channel_bound config \<and>
       channel_bound config < 2 * max (channel_buffer_size config) 2"
proof -
  let ?n = "channel_buffer_size config"
  have "\<exists>k. max (next_power_of_two ?n) 2 = 2 ^ k"
    using next_power_of_two_ge [of ?n] by (metis max_def power_one_right)
  then show ?thesis
    using next_power_of_two_ge [of ?n] next_power_of_two_less [of ?n] by (auto simp: channel_bound_def split: channel_kind.split)
qed

lemma run_channels_bounded:
  assumes ok: "env_ok env ds" and sink: "add_sink ds k env = Ok (env', r0)"
  shows "l \<in> set (net_links (run_net (run_pipeline nf sinkops acts r0))) \<Longrightarrow> length (lk_contents l) \<le> channel_bound (env_config env')"
    and "p \<in> set (net_pairs (run_net (run_pipeline nf sinkops acts r0))) \<Longrightarrow> length (lk_contents p) \<le> channel_bound (env_config env')"
proof -
  let ?now = "run_net (run_pipeline nf sinkops acts r0)" and ?start = "env_net env'"
  from add_sink_ok [OF ok sink] have core: "core_ok env'" and un: "unread ?start (run_input r0)" and inv0: "run_inv sinkops k ?start (run_input r0) r0" by blast+
  from core have "net_ready ?start" by (simp add: core_ok_def)
  from run_pipeline_inv [OF this un inv0, of nf acts] have net: "net_inv ?start ?now" by (simp add: run_inv_def)
  have cap: "sized (env_config env') x \<Longrightarrow> lk_capacity x \<le> channel_bound (env_config env')" for x :: "('x, 'c) link"
    using next_power_of_two_ge [of "channel_buffer_size (env_config env')"] by (auto simp: sized_def channel_bound_def split: channel_kind.splits)
  show "length (lk_contents l) \<le> channel_bound (env_config env')" if "l \<in> set (net_links ?now)"
  proof -
    from that obtain i where i: "i < length (net_links ?now)" "l = net_links ?now ! i" by (metis in_set_conv_nth)
    with net have "link_ok l" "lk_capacity l = lk_capacity (net_links ?start ! i)" "i < length (net_links ?start)"
      by (auto simp: net_inv_def links_ok_def list_eq_iff_nth_eq)
    with core cap [of "net_links ?start ! i"] show ?thesis by (fastforce simp: link_ok_def core_ok_def)
  qed
  show "length (lk_contents p) \<le> channel_bound (env_config env')" if "p \<in> set (net_pairs ?now)"
  proof -
    from that obtain i where i: "i < length (net_pairs ?now)" "p = net_pairs ?now ! i" by (metis in_set_conv_nth)
    with net have "link_ok p" "lk_capacity p = lk_capacity (net_pairs ?start ! i)" "i < length (net_pairs ?start)"
      by (auto simp: net_inv_def links_ok_def list_eq_iff_nth_eq)
    with core cap [of "net_pairs ?start ! i"] show ?thesis by (fastforce simp: link_ok_def core_ok_def)
  qed
qed

lemma sum_list_bounded: "\<forall>x\<in>set xs. f x \<le> (n :: nat) \<Longrightarrow> sum_list (map f xs) \<le> length xs * n"
  using sum_list_mono [of xs f "\<lambda>_. n"] by (simp add: sum_list_triv)

subsection \<open>Examples\<close>

text \<open>A source and a map with a collecting sink, over both kinds of channel, and a map of two merged sources; each with a
  schedule under which it runs to its end.\<close>

definition example_config :: "channel_kind \<Rightarrow> pipeline_config" where
  "example_config kind = default_config\<lparr>channel_buffer_size := 4, cfg_channel_kind := kind\<rparr>"

definition example_start :: "('s, nat) source_ops \<Rightarrow> 's \<Rightarrow> 's \<Rightarrow> (nat, unit) transport \<Rightarrow> (nat, 's, unit, nat collect_sink) running" where
  "example_start src s s0 ch =
    \<lparr>run_net = \<lparr>net_links = [link_new (MpscChannel 4 [] False), link_new ch], net_pairs = [],
       net_spawned = [
         \<lparr>sp_name = ''source-drainer'', sp_actor = DrainActor \<lparr>dr_source = src, dr_state = s, dr_key = None, dr_held = None, dr_out = 0\<rparr>,
          sp_result = None\<rparr>,
         \<lparr>sp_name = ''map-'' @ nat_to_string 1, sp_actor = TaskActor (map_operator (\<lambda>s v. (Suc v, s)))
            \<lparr>task_op = s0, task_col = 1, task_input = 0, task_has_token = True, task_token = False, task_draining = False,
             task_records = 0, task_result = None\<rparr>, sp_result = None\<rparr>], net_cancelled = False\<rparr>,
     run_input = 1, run_sink = collect_sink_new, run_drained = None\<rparr>"

definition example_schedule :: "run_action list" where
  "example_schedule = [PollTask 0 True, PollTask 0 True, PollTask 0 True, PollTask 1 True, PollTask 1 True, PollSink, PollSink]"

definition example_interleaved :: "run_action list" where
  "example_interleaved = [PollTask 1 False, PollTask 0 True, PollSink, PollTask 0 True, PollTask 1 True, PollSink, PollTask 0 True,
     PollTask 1 True, PollSink]"

lemma example_mpsc_ends: "add_sink_result (\<lambda>s. s) (run_pipeline id collect_sink example_schedule
    (example_start timestamped_source [ElemRecord (record_new 3 ts)] [] (MpscChannel 4 [] False))) = Some (Ok ())"
  by code_simp

lemma example_ring_ends: "add_sink_result (\<lambda>s. s) (run_pipeline id collect_sink example_interleaved
    (example_start timestamped_source [ElemRecord (record_new 3 ts)] [] (RingChannel (ring_buffer 4 ())))) = Some (Ok ())"
  by code_simp

lemma example_collection_ends: "add_sink_result (\<lambda>s. s) (run_pipeline id collect_sink example_schedule
    (example_start (boxed_source id id (in_memory_source clock)) (in_memory_new [3]) (in_memory_new []) (MpscChannel 4 [] False))) = Some (Ok ())"
  by code_simp

lemmas builder_defs = from_source_def env_add_node_def env_from_config_def add_node_def graph_new_def net_new_def data_stream_new_def
  wire_upstream_def new_link_def env_spawn_def apply_operator_def operator_channel_def operator_channel_with_kind_def operator_ring_buffer_def
  env_add_edge_def add_edge_def ds_map_def add_sink_def with_cancel_def task_new_def link_new_def example_config_def default_config_def Let_def

lemma example_mpsc_built: "\<exists>env0 ds0 env1 ds1 env2. from_source src s (env_from_config (example_config Mpsc)) = (env0, ds0) \<and>
   add_pure_stages () s0 [PureMap Suc] ds0 env0 = Ok (env1, ds1) \<and>
   add_sink ds1 collect_sink_new env1 = Ok (env2, example_start src s s0 (MpscChannel 4 [] False))"
  by (simp add: builder_defs example_start_def)

lemma example_ring_built: "\<exists>env0 ds0 env1 ds1 env2. from_source src s (env_from_config (example_config RingBuffer)) = (env0, ds0) \<and>
   add_pure_stages () s0 [PureMap Suc] ds0 env0 = Ok (env1, ds1) \<and>
   add_sink ds1 collect_sink_new env1 = Ok (env2, example_start src s s0 (RingChannel (ring_buffer 4 ())))"
  by (simp add: builder_defs example_start_def)

lemma example_stages: "add_pure_stages n0 s0 [PureMap Suc] = add_stages [(n0, ''map'', map_operator (\<lambda>s v. (Suc v, s)), s0)]"
  by (intro ext) (simp add: ds_map_def)

lemma example_computes:
  "list_all2 stage_computes [(n0, ''map'', map_operator (\<lambda>s v. (Suc v, s)), s0)] [(elementwise_step (map_expand (\<lambda>s v. (Suc v, s))), s0)]"
  by (simp add: stage_computes_def library_transduces)

lemma example_is_built:
  assumes "from_source src s (env_from_config config) = (env0, ds0)" and "add_pure_stages n0 s0 [PureMap Suc] ds0 env0 = Ok (env1, ds1)"
  shows "built env1 ds1"
  using built_stateless(1) [OF built.source [OF assms(1)]] assms(2) by (auto simp: bind_res_Ok)

definition co_map :: "'s \<Rightarrow> (nat, nat) either \<Rightarrow> nat \<times> 's" where
  "co_map s v = (case v of Left n \<Rightarrow> n | Right n \<Rightarrow> n + 10, s)"

definition example_two :: "nat stream_element list \<Rightarrow> nat stream_element list \<Rightarrow> (nat, nat stream_element list, unit, nat collect_sink) running" where
  "example_two es fs =
    \<lparr>run_net = \<lparr>net_links = [link_new (MpscChannel 4 [] False), link_new (MpscChannel 4 [] False), link_new (MpscChannel 4 [] False),
         link_new (MpscChannel 4 [] False)], net_pairs = [link_new (MpscChannel 4 [] False)],
       net_spawned = [
         \<lparr>sp_name = ''source-drainer'', sp_actor = DrainActor \<lparr>dr_source = timestamped_source, dr_state = es, dr_key = None, dr_held = None,
            dr_out = 0\<rparr>, sp_result = None\<rparr>,
         \<lparr>sp_name = ''connected-input1'', sp_actor = RelayActor \<lparr>rl_in = 0, rl_key = None, rl_held = None, rl_out = 1\<rparr>, sp_result = None\<rparr>,
         \<lparr>sp_name = ''connected-input2'', sp_actor = DrainActor \<lparr>dr_source = timestamped_source, dr_state = fs, dr_key = None, dr_held = None,
            dr_out = 2\<rparr>, sp_result = None\<rparr>,
         \<lparr>sp_name = ''two-input-merge'', sp_actor = MergeActor \<lparr>mw_in1 = 1, mw_in2 = 2, mw_out = 0, mw_state = merge_init [] [] None,
            mw_sent = 0\<rparr>, sp_result = None\<rparr>,
         \<lparr>sp_name = ''co_map-'' @ nat_to_string 1, sp_actor = PairTaskActor (map_operator co_map)
            \<lparr>task_op = [], task_col = 3, task_input = 0, task_has_token = True, task_token = False, task_draining = False,
             task_records = 0, task_result = None\<rparr>, sp_result = None\<rparr>], net_cancelled = False\<rparr>,
     run_input = 3, run_sink = collect_sink_new, run_drained = None\<rparr>"

definition example_two_schedule :: "run_action list" where
  "example_two_schedule = replicate 3 (PollTask 0 True) @ replicate 3 (PollTask 1 True) @ replicate 3 (PollTask 2 True) @
     replicate 8 (PollTask 3 True) @ replicate 3 (PollTask 4 True) @ replicate 3 PollSink"

lemma example_two_ends: "add_sink_result (\<lambda>s. s) (run_pipeline id collect_sink example_two_schedule
    (example_two [ElemRecord (record_new 3 ts)] [ElemRecord (record_new 4 ts)])) = Some (Ok ())"
  by code_simp

lemma example_two_built: "\<exists>env0 ds0 env1 ds1 env2. from_source timestamped_source es (env_from_config (example_config Mpsc)) = (env0, ds0) \<and>
   wire_two_input_operator () ds0 (timestamped_source, fs) None None ''co_map'' (map_operator co_map) [] env0 = Ok (env1, ds1) \<and>
   add_sink ds1 collect_sink_new env1 = Ok (env2, example_two es fs)"
  by (simp add: builder_defs wire_two_input_operator_def new_pair_def example_two_def numeral_3_eq_3 numeral_2_eq_2)

subsection \<open>Properties\<close>

text \<open>C38. Every pipeline that the builder API builds, sink included, is well formed: every channel has at most one writer and one
  reader, a task only reads channels of tasks spawned before it, all channels start empty and open, exactly the
  sink's channel is left for \<open>add_sink\<close> to read, and the logical graph has a topological order of all its nodes, in
  which every stage comes after its inputs.\<close>

theorem pipeline_well_formed:
  assumes "built env ds" and "add_sink ds k env = Ok (env', r)"
  shows "wired (net_spawned (env_net env')) (length (net_links (env_net env'))) (length (net_pairs (env_net env'))) \<and>
    (\<forall>l\<in>set (net_links (env_net env')). fresh_link l) \<and> (\<forall>l\<in>set (net_pairs (env_net env')). fresh_link l) \<and>
    unread (env_net env') (run_input r) \<and> run_net r = env_net env' \<and>
    (\<exists>order. topological_order (env_graph env') = Ok (Some order) \<and> distinct order \<and>
       set order = {..<length (nodes (env_graph env'))} \<and> predecessors_first (edges (env_graph env')) order)"
  using add_sink_ok [OF built_ok [OF assms(1)] assms(2)] graph_ok_sorted [of "env_graph env'"]
  by (simp add: core_ok_def fresh_net_def)

theorem pipeline_well_formed_witness:
  "\<exists>(env :: (nat, nat stream_element list, unit) stream_env) ds env' r. built env ds \<and> add_sink ds (collect_sink_new :: nat collect_sink) env = Ok (env', r) \<and>
     wired (net_spawned (env_net env')) (length (net_links (env_net env'))) (length (net_pairs (env_net env'))) \<and>
     (\<exists>order. topological_order (env_graph env') = Ok (Some order))"
proof -
  obtain env0 ds0 env1 ds1 env2 where src: "from_source timestamped_source [] (env_from_config (example_config Mpsc)) = (env0, ds0)"
    and mapped: "add_pure_stages () [] [PureMap Suc] ds0 env0 = Ok (env1, ds1)"
    and sink: "add_sink ds1 collect_sink_new env1 = Ok (env2, example_start timestamped_source [] [] (MpscChannel 4 [] False))"
    using example_mpsc_built [of timestamped_source "[]" "[]"] by blast
  note b = example_is_built [OF src mapped]
  from b sink pipeline_well_formed [OF b sink] show ?thesis by blast
qed

text \<open>C3. A run refines the dataflow of the pipeline. Whatever the interleaving of the tasks, the sink and cancellations: when
  \<open>add_sink\<close> returns Ok, the sink has been fed, element by element and without an error, a stream that the network as built
  prescribes for its channel: what the sources deliver, transformed by every operator in turn and merged in some
  order of arrival, with nothing lost, duplicated or reordered by the channels.\<close>

theorem pipeline_refines_streams:
  assumes "built env ds" and "add_sink ds k env = Ok (env', r0)"
    and "add_sink_result show_join (run_pipeline nf sinkops acts r0) = Some (Ok ())"
  shows "\<exists>es. stream_of (net_spawned (env_net env')) (run_input r0) es \<and>
    sink_feed sinkops es k = (run_sink (run_pipeline nf sinkops acts r0), Ok ())"
  by (rule pipeline_run [OF built_ok [OF assms(1)] assms(2,3)])

theorem pipeline_refines_streams_witness:
  "\<exists>(env :: (nat, nat stream_element list, unit) stream_env) ds env' r0. built env ds \<and> add_sink ds collect_sink_new env = Ok (env', r0) \<and>
     add_sink_result (\<lambda>s. s) (run_pipeline id collect_sink example_interleaved r0) = Some (Ok ()) \<and>
     (\<exists>es. stream_of (net_spawned (env_net env')) (run_input r0) es \<and>
       sink_feed collect_sink es collect_sink_new = (run_sink (run_pipeline id collect_sink example_interleaved r0), Ok ()))"
proof -
  obtain env0 ds0 env1 ds1 env2 where src: "from_source timestamped_source [ElemRecord (record_new 3 ts_MIN)] (env_from_config (example_config RingBuffer)) = (env0, ds0)"
    and mapped: "add_pure_stages () [] [PureMap Suc] ds0 env0 = Ok (env1, ds1)"
    and sink: "add_sink ds1 collect_sink_new env1 =
      Ok (env2, example_start timestamped_source [ElemRecord (record_new 3 ts_MIN)] [] (RingChannel (ring_buffer 4 ())))"
    using example_ring_built [of timestamped_source "[ElemRecord (record_new 3 ts_MIN)]" "[]"] by blast
  note built = example_is_built [OF src mapped]
  from built sink example_ring_ends pipeline_refines_streams [OF built sink example_ring_ends] show ?thesis by blast
qed

text \<open>The output of a chain of operators is their sequential composition, applied to what the source delivers,
  for every kind and size of channel and every interleaving.\<close>

lemma operator_chain_output:
  assumes "from_source src s (env_from_config config) = (env0, ds0)" and "list_all2 stage_computes stages fs"
    and "add_stages stages ds0 env0 = Ok (env1, ds1)" and "add_sink ds1 k env1 = Ok (env2, r0)"
    and "add_sink_result show_join (run_pipeline nf sinkops acts r0) = Some (Ok ())"
  shows "\<exists>xs. drains (source_next src) None s xs \<and> sink_feed sinkops (chain fs xs) k = (run_sink (run_pipeline nf sinkops acts r0), Ok ())"
  by (rule chain_run [OF assms])

lemma operator_chain_output_example:
  "\<exists>xs env0 ds0 env1 ds1 env2 r0. from_source timestamped_source [ElemRecord (record_new 3 ts_MIN)] (env_from_config (example_config RingBuffer)) = (env0, ds0) \<and>
     add_stages [((), ''map'', map_operator (\<lambda>s v. (Suc v, s)), [])] ds0 env0 = Ok (env1, ds1) \<and> add_sink ds1 collect_sink_new env1 = Ok (env2, r0) \<and>
     drains (source_next timestamped_source) None [ElemRecord (record_new 3 ts_MIN)] xs \<and>
     sink_feed collect_sink (chain [(elementwise_step (map_expand (\<lambda>s v. (Suc v, s))), [] :: nat stream_element list)] xs) collect_sink_new =
       (run_sink (run_pipeline id collect_sink example_interleaved r0), Ok ())"
proof -
  obtain env0 ds0 env1 ds1 env2 where src: "from_source timestamped_source [ElemRecord (record_new 3 ts_MIN)] (env_from_config (example_config RingBuffer)) = (env0, ds0)"
    and mapped: "add_stages [((), ''map'', map_operator (\<lambda>s v. (Suc v, s)), [])] ds0 env0 = Ok (env1, ds1)"
    and sink: "add_sink ds1 collect_sink_new env1 =
      Ok (env2, example_start timestamped_source [ElemRecord (record_new 3 ts_MIN)] [] (RingChannel (ring_buffer 4 ())))"
    using example_ring_built [of timestamped_source "[ElemRecord (record_new 3 ts_MIN)]" "[]"] unfolding example_stages by blast
  from operator_chain_output [OF src example_computes mapped sink example_ring_ends] src mapped sink show ?thesis by blast
qed

text \<open>C37. The result of a pipeline does not depend on its configuration or schedule: two runs of the same chain of
  operators over the same source that end well leave the sink in the same state, whatever the channels, their sizes
  and the interleaving of each.\<close>

theorem pipeline_schedule_independent:
  assumes "from_source src s (env_from_config config) = (env0, ds0)" and "list_all2 stage_computes stages fs"
    and "add_stages stages ds0 env0 = Ok (env1, ds1)" and "add_sink ds1 k env1 = Ok (env2, r0)"
    and "add_sink_result show_join (run_pipeline nf sinkops acts r0) = Some (Ok ())"
    and "from_source src s (env_from_config config') = (env0', ds0')" and "list_all2 stage_computes stages' fs"
    and "add_stages stages' ds0' env0' = Ok (env1', ds1')" and "add_sink ds1' k env1' = Ok (env2', r0')"
    and "add_sink_result show_join (run_pipeline nf' sinkops acts' r0') = Some (Ok ())"
  shows "run_sink (run_pipeline nf sinkops acts r0) = run_sink (run_pipeline nf' sinkops acts' r0')"
proof -
  obtain xs where xs: "drains (source_next src) None s xs"
    "sink_feed sinkops (chain fs xs) k = (run_sink (run_pipeline nf sinkops acts r0), Ok ())"
    using chain_run [OF assms(1-5)] by blast
  obtain ys where ys: "drains (source_next src) None s ys"
    "sink_feed sinkops (chain fs ys) k = (run_sink (run_pipeline nf' sinkops acts' r0'), Ok ())"
    using chain_run [OF assms(6-10)] by blast
  from xs(2) ys(2) drains_unique [OF xs(1) ys(1)] show ?thesis by simp
qed

theorem pipeline_schedule_independent_witness:
  "run_sink (run_pipeline id collect_sink example_schedule
     (example_start timestamped_source [ElemRecord (record_new 3 ts_MIN)] [] (MpscChannel 4 [] False))) =
   run_sink (run_pipeline id collect_sink example_interleaved
     (example_start timestamped_source [ElemRecord (record_new 3 ts_MIN)] [] (RingChannel (ring_buffer 4 ()))))"
proof -
  let ?src = "timestamped_source :: (nat stream_element list, nat) source_ops" and ?es = "[ElemRecord (record_new (3 :: nat) ts_MIN)]"
  obtain env0 ds0 env1 ds1 env2 where mpsc: "from_source ?src ?es (env_from_config (example_config Mpsc)) = (env0, ds0)"
    "add_stages [((), ''map'', map_operator (\<lambda>s v. (Suc v, s)), [])] ds0 env0 = Ok (env1, ds1)"
    "add_sink ds1 collect_sink_new env1 = Ok (env2, example_start ?src ?es [] (MpscChannel 4 [] False))"
    using example_mpsc_built [of timestamped_source "[ElemRecord (record_new 3 ts_MIN)]" "[]"] unfolding example_stages by blast
  obtain env0' ds0' env1' ds1' env2' where ring: "from_source ?src ?es (env_from_config (example_config RingBuffer)) = (env0', ds0')"
    "add_stages [((), ''map'', map_operator (\<lambda>s v. (Suc v, s)), [])] ds0' env0' = Ok (env1', ds1')"
    "add_sink ds1' collect_sink_new env1' = Ok (env2', example_start ?src ?es [] (RingChannel (ring_buffer 4 ())))"
    using example_ring_built [of timestamped_source "[ElemRecord (record_new 3 ts_MIN)]" "[]"] unfolding example_stages by blast
  show ?thesis
    by (rule pipeline_schedule_independent [OF mpsc(1) example_computes mpsc(2,3) example_mpsc_ends ring(1) example_computes ring(2,3) example_ring_ends])
qed

text \<open>C2. A pipeline of maps, filters and flat maps over a collection, with a collecting sink: when \<open>add_sink\<close> returns Ok the sink
  holds exactly what these functions make of the list of items, in order.\<close>

theorem collection_pipeline_results:
  assumes "\<And>x. unbox (box x) = x" and "from_collection box unbox clock items (env_from_config config) = (env0, ds0)"
    and "add_pure_stages n0 s0 stages ds0 env0 = Ok (env1, ds1)" and "add_sink ds1 collect_sink_new env1 = Ok (env2, r0)"
    and "add_sink_result show_join (run_pipeline nf collect_sink acts r0) = Some (Ok ())"
  shows "cks_results (run_sink (run_pipeline nf collect_sink acts r0)) = pure_values stages items"
proof -
  note src = assms(2) [unfolded from_collection_def]
  have "carries env0 ds0 (\<lambda>es. values_of es = items)"
    by (rule carries_mono [OF from_source_carries [OF src]]) (use in_memory_drains assms(1) in \<open>fastforce simp: in_memory_new_def\<close>)
  note built = add_pure_stages_ok [OF from_source_ok [OF src] this assms(3)]
  from pipeline_run_carries [OF conjunct1 [OF built] assms(4) conjunct2 [OF built] assms(5)]
  obtain es where "values_of es = pure_values stages items"
    "sink_feed collect_sink es collect_sink_new = (run_sink (run_pipeline nf collect_sink acts r0), Ok ())" by blast
  moreover have "sink_feed collect_sink es collect_sink_new = (\<lparr>cks_results = values_of es, cks_poisoned = False\<rparr>, Ok ())"
    using collect_sink_feed [of collect_sink_new es] by (simp add: collect_sink_new_def)
  ultimately show ?thesis by (metis collect_sink.select_convs(1) fst_conv)
qed

theorem collection_pipeline_results_witness:
  "cks_results (run_sink (run_pipeline id collect_sink example_schedule
     (example_start (boxed_source id id (in_memory_source (\<lambda>_. None))) (in_memory_new [3]) (in_memory_new []) (MpscChannel 4 [] False)))) = [4]"
proof -
  obtain env0 ds0 env1 ds1 env2 where ex: "from_collection id id (\<lambda>_. None) [3] (env_from_config (example_config Mpsc)) = (env0, ds0)"
    "add_pure_stages () (in_memory_new []) [PureMap Suc] ds0 env0 = Ok (env1, ds1)"
    "add_sink ds1 collect_sink_new env1 = Ok (env2, example_start (boxed_source id id (in_memory_source (\<lambda>_. None))) (in_memory_new [3]) (in_memory_new [])
      (MpscChannel 4 [] False))"
    using example_mpsc_built [of "boxed_source id id (in_memory_source (\<lambda>_. None))" "in_memory_new [3]" "in_memory_new []"]
    unfolding from_collection_def id_apply by blast
  show ?thesis using collection_pipeline_results [OF _ ex example_collection_ends] by (simp add: pure_values_def)
qed

text \<open>C4. A two-input operator over two sources: the sink gets what the operator makes of the merge of the two streams, keyed
  by their extractors, in some order of arrival; \<open>merge_consistent_cut\<close> says what every such merge keeps.\<close>

theorem two_input_pipeline_output:
  assumes "from_source src1 s1 (env_from_config config) = (env0, ds0)" and "transduces opr f"
    and "wire_two_input_operator n0 ds0 (src2, s2) key1 key2 name opr op env0 = Ok (env1, ds1)" and "add_sink ds1 k env1 = Ok (env2, r0)"
    and "add_sink_result show_join (run_pipeline nf sinkops acts r0) = Some (Ok ())"
  shows "\<exists>xs ys sched m. drains (source_next src1) None s1 xs \<and> drains (source_next src2) key2 s2 ys \<and>
    two_input_merge sched (merge_init (fst (key_elements key1 xs)) ys None) = (m, Ok ()) \<and>
    sink_feed sinkops (snd (run_transducer f op (mg_out m))) k = (run_sink (run_pipeline nf sinkops acts r0), Ok ())"
proof -
  note ok = from_source_ok [OF assms(1)]
  have "env_ok env1 ds1" using wire_two_input_ok [OF ok _ assms(3)] assms(2) by blast
  moreover have "carries env1 ds1 (\<lambda>es. \<exists>xs ys sched m. drains (source_next src1) None s1 xs \<and> drains (source_next src2) key2 s2 ys \<and>
      two_input_merge sched (merge_init (fst (key_elements key1 xs)) ys None) = (m, Ok ()) \<and> es = snd (run_transducer f op (mg_out m)))"
    using wire_two_input_carries [OF from_source_carries [OF assms(1)] assms(2) _ assms(3)] by simp
  ultimately obtain es where "\<exists>xs ys sched m. drains (source_next src1) None s1 xs \<and> drains (source_next src2) key2 s2 ys \<and>
      two_input_merge sched (merge_init (fst (key_elements key1 xs)) ys None) = (m, Ok ()) \<and> es = snd (run_transducer f op (mg_out m))"
    "sink_feed sinkops es k = (run_sink (run_pipeline nf sinkops acts r0), Ok ())"
    using pipeline_run_carries [OF _ assms(4) _ assms(5)] by blast
  then show ?thesis by blast
qed

theorem two_input_pipeline_output_witness:
  "\<exists>xs ys sched m. drains (source_next timestamped_source) None [ElemRecord (record_new (3 :: nat) ts_MIN)] xs \<and>
     drains (source_next timestamped_source) None [ElemRecord (record_new 4 ts_MIN)] ys \<and>
     two_input_merge sched (merge_init (fst (key_elements (None :: (nat stream_element list, nat) key_extractor option) xs)) ys None) = (m, Ok ()) \<and>
     sink_feed collect_sink (snd (run_transducer (elementwise_step (map_expand co_map)) ([] :: nat stream_element list) (mg_out m))) collect_sink_new =
       (run_sink (run_pipeline id collect_sink example_two_schedule
          (example_two [ElemRecord (record_new 3 ts_MIN)] [ElemRecord (record_new 4 ts_MIN)])), Ok ())"
proof -
  obtain env0 ds0 env1 ds1 env2 where ex: "from_source timestamped_source [ElemRecord (record_new 3 ts_MIN)] (env_from_config (example_config Mpsc)) = (env0, ds0)"
    "wire_two_input_operator () ds0 (timestamped_source, [ElemRecord (record_new 4 ts_MIN)]) None None ''co_map'' (map_operator co_map) [] env0 = Ok (env1, ds1)"
    "add_sink ds1 collect_sink_new env1 = Ok (env2, example_two [ElemRecord (record_new 3 ts_MIN)] [ElemRecord (record_new 4 ts_MIN)])"
    using example_two_built [of "[ElemRecord (record_new 3 ts_MIN)]" "[ElemRecord (record_new 4 ts_MIN)]"] by blast
  show ?thesis by (rule two_input_pipeline_output [OF ex(1) library_transduces(1) ex(2,3) example_two_ends])
qed

text \<open>C39. Channels are bounded. At every moment of every run, every channel of the pipeline holds at most as many elements as its
  kind allows, so all channels together hold at most that many times their number: with mpsc channels the configured buffer
  size, with ring buffers that size rounded up to a power of two, which is at least two and less than twice the size (or than four).\<close>

theorem pipeline_memory_bound:
  assumes "built env ds" and "add_sink ds k env = Ok (env', r0)" and "net = run_net (run_pipeline nf sinkops acts r0)"
    and "sz = channel_buffer_size (env_config env')" and "bound = channel_bound (env_config env')"
  shows "(case cfg_channel_kind (env_config env') of
       Mpsc \<Rightarrow> bound = sz
     | RingBuffer \<Rightarrow> (\<exists>k. bound = 2 ^ k) \<and> max sz 2 \<le> bound \<and> bound < 2 * max sz 2) \<and>
    (\<forall>l\<in>set (net_links net). length (lk_contents l) \<le> bound) \<and>
    (\<forall>l\<in>set (net_pairs net). length (lk_contents l) \<le> bound) \<and>
    (\<Sum>l\<leftarrow>net_links net. length (lk_contents l)) + (\<Sum>l\<leftarrow>net_pairs net. length (lk_contents l))
      \<le> (length (net_links net) + length (net_pairs net)) * bound"
proof -
  note b = run_channels_bounded [OF built_ok [OF assms(1)] assms(2), of _ nf sinkops acts, folded assms(3)]
  from b have "\<forall>l\<in>set (net_links net). length (lk_contents l) \<le> channel_bound (env_config env')"
    "\<forall>l\<in>set (net_pairs net). length (lk_contents l) \<le> channel_bound (env_config env')" by blast+
  with sum_list_bounded [of "net_links net"] sum_list_bounded [of "net_pairs net"] channel_bound_exact [of "env_config env'"] show ?thesis
    unfolding assms(4,5) by (intro conjI) (assumption | simp add: add_mult_distrib add_mono)+
qed

theorem pipeline_memory_bound_witness:
  "\<exists>(env :: (nat, nat stream_element list, unit) stream_env) ds env' r0 net. built env ds \<and> add_sink ds collect_sink_new env = Ok (env', r0) \<and>
     net = run_net (run_pipeline id collect_sink example_schedule r0) \<and> channel_bound (env_config env') = 4 \<and>
     (\<forall>l\<in>set (net_links net). length (lk_contents l) \<le> channel_bound (env_config env'))"
proof -
  obtain env0 ds0 env1 ds1 env2 where src: "from_source timestamped_source [ElemRecord (record_new 3 ts_MIN)] (env_from_config (example_config Mpsc)) = (env0, ds0)"
    and mapped: "add_pure_stages () [] [PureMap Suc] ds0 env0 = Ok (env1, ds1)"
    and sink: "add_sink ds1 collect_sink_new env1 =
      Ok (env2, example_start timestamped_source [ElemRecord (record_new 3 ts_MIN)] [] (MpscChannel 4 [] False))"
    using example_mpsc_built [of timestamped_source "[ElemRecord (record_new 3 ts_MIN)]" "[]"] by blast
  have "channel_bound (env_config env2) = 4" using src mapped sink by (auto simp: builder_defs channel_bound_def)
  with example_is_built [OF src mapped] sink pipeline_memory_bound [OF example_is_built [OF src mapped] sink refl refl refl, of id collect_sink example_schedule]
  show ?thesis by blast
qed

end
