(* ===== verification/Connector_Theorems.thy ===== *)
theory Connector_Theorems
  imports Connectors Pipeline_Theorems
begin

text \<open>
  The connectors do what a pipeline relies on: a file source delivers the lines of its file and continues after a restore
  where the snapshot was taken, the offsets of a Kafka source survive the encoding of a snapshot and a truncated snapshot is rejected,
  a line sink has written everything before a barrier once the barrier has been handled.
\<close>

subsection \<open>Lines\<close>

lemma line_chunk_prefix: "take (length (line_chunk bs)) bs = line_chunk bs"
  by (induction bs) auto

lemma line_chunk_Nil [simp]: "line_chunk bs = [] \<longleftrightarrow> bs = []"
  by (cases bs) auto

lemma line_chunk_length: "length (line_chunk bs) \<le> length bs"
  by (induction bs) auto

text \<open>The lines of a text, with their newlines.\<close>

function text_lines :: "bytes \<Rightarrow> bytes list" where
  "text_lines bs = (if bs = [] then [] else line_chunk bs # text_lines (drop (length (line_chunk bs)) bs))"
  by pat_completeness auto
termination by (relation "measure length") auto

declare text_lines.simps [simp del]

lemma text_lines_Nil [simp]: "text_lines [] = []"
  by (simp add: text_lines.simps)

lemma text_lines_step: "bs \<noteq> [] \<Longrightarrow> text_lines bs = line_chunk bs # text_lines (drop (length (line_chunk bs)) bs)"
  by (subst text_lines.simps) simp

lemma text_lines_concat: "concat (text_lines bs) = bs"
proof (induction bs rule: text_lines.induct)
  case (1 bs)
  show ?case
  proof (cases "bs = []")
    case False
    with 1 have "concat (text_lines bs) = line_chunk bs @ drop (length (line_chunk bs)) bs" by (simp add: text_lines_step)
    then show ?thesis using append_take_drop_id [of "length (line_chunk bs)" bs] by (simp add: line_chunk_prefix)
  qed simp
qed

lemma line_chunk_newlines: "10 \<notin> set (butlast (line_chunk bs))"
  by (induction bs) auto

text \<open>A line has a newline only at its end.\<close>

lemma text_lines_newlines: "c \<in> set (text_lines bs) \<Longrightarrow> c \<noteq> [] \<and> 10 \<notin> set (butlast c)"
proof (induction bs rule: text_lines.induct)
  case (1 bs)
  show ?case
  proof (cases "bs = []")
    case False
    from 1(2) text_lines_step [OF False] have "c = line_chunk bs \<or> c \<in> set (text_lines (drop (length (line_chunk bs)) bs))" by simp
    then show ?thesis
    proof
      assume "c = line_chunk bs"
      with False line_chunk_newlines [of bs] show ?thesis by simp
    qed (rule 1(1) [OF False])
  qed (use 1(2) in simp)
qed

subsection \<open>The file source\<close>

definition file_source_in :: "files \<Rightarrow> (nat \<Rightarrow> read_event) \<Rightarrow> (file_source \<times> nat, bytes) source_ops" where
  "file_source_in fs evs = \<lparr>
     source_next = (\<lambda>(s, n). case file_source_next (evs n) s of (s', r) \<Rightarrow> ((s', n + 1), r)),
     source_snapshot = (\<lambda>(s, n). file_source_snapshot s),
     source_restore = (\<lambda>(s, n) state. case file_source_restore fs s state of (s', r) \<Rightarrow> ((s', n), r))\<rparr>"

lemma file_next_cases:
  assumes "rest = drop (fsr_pos s) (fsr_content s)" and "file_source_next ev s = (s', r)"
  shows "fst ev = None \<Longrightarrow> rest = [] \<Longrightarrow> r = Ok None"
    and "r = Ok None \<Longrightarrow> rest = []"
    and "r = Ok (Some e) \<Longrightarrow> rest \<noteq> [] \<and> e = ElemRecord (record_new (trim_line (line_chunk rest)) (now_millis (snd ev))) \<and>
       fsr_content s' = fsr_content s \<and> fsr_pos s' = length (line_chunk rest) + fsr_pos s"
  using assms by (auto simp: file_source_next_def read_line_def Let_def split: if_splits res.splits option.splits)

lemma file_drains:
  assumes "drains (source_next (file_source_in fs evs)) None sn xs"
  shows "values_of xs = map trim_line (text_lines (drop (fsr_pos (fst sn)) (fsr_content (fst sn))))"
  using assms(1)
proof (induction key \<equiv> "None :: (file_source \<times> nat, bytes) key_extractor option" sn xs rule: drains.induct)
  case (ended sn sn')
  obtain s n where sn: "sn = (s, n)" by fastforce
  with ended show ?case
    using file_next_cases(2) [of _ s "evs n"] by (auto simp: file_source_in_def split: prod.splits)
next
  case (delivered sn sn' e e' key' es)
  obtain s n s' n' where sn: "sn = (s, n)" "sn' = (s', n')" by fastforce
  from delivered(1) sn have "file_source_next (evs n) s = (s', Ok (Some e))" by (auto simp: file_source_in_def split: prod.splits)
  note got = file_next_cases(3) [OF refl this refl]
  from delivered(2) have "e' = e" "key' = None" by simp_all
  with delivered(4) got sn show ?case by (simp add: text_lines_step record_new_def)
qed

lemma file_drains_exists:
  assumes "\<forall>n. fst (evs n) = None" and "list_all valid_utf8 (text_lines (drop (fsr_pos s) (fsr_content s)))"
    and "unat (fsr_bytes_read s) + length (drop (fsr_pos s) (fsr_content s)) < 2 ^ 64"
  shows "\<exists>xs. drains (source_next (file_source_in fs evs)) None (s, n) xs"
  using assms(2,3)
proof (induction "drop (fsr_pos s) (fsr_content s)" arbitrary: s n rule: text_lines.induct)
  case 1
  let ?rest = "drop (fsr_pos s) (fsr_content s)"
  obtain s' r where step: "file_source_next (evs n) s = (s', r)" by fastforce
  have src: "source_next (file_source_in fs evs) (s, n) = ((s', n + 1), r)" by (simp add: file_source_in_def step)
  show ?case
  proof (cases "?rest = []")
    case True
    with file_next_cases(1) [OF refl step spec [OF assms(1)]] src show ?thesis by (auto intro: drains.ended)
  next
    case False
    let ?n = "length (line_chunk ?rest)"
    have len: "?n \<le> length ?rest" by (rule line_chunk_length)
    have "valid_utf8 (line_chunk ?rest)" using 1(2) False by (simp add: text_lines_step)
    moreover have small: "unat (fsr_bytes_read s) + ?n < 2 ^ 64" using 1(3) len by linarith
    moreover have word: "unat (word_of_nat ?n :: u64) = ?n" using small by (simp add: unat_of_nat)
    ultimately have r: "\<exists>e. r = Ok (Some e)" and s': "unat (fsr_bytes_read s') = unat (fsr_bytes_read s) + ?n"
      using step False spec [OF assms(1), of n]
      by (auto simp: file_source_next_def read_line_def Let_def checked_add_def unat_add_no_overflow split: if_splits)
    then obtain e where e: "r = Ok (Some e)" by blast
    note got = file_next_cases(3) [OF refl step e]
    then have rest': "drop (fsr_pos s') (fsr_content s') = drop ?n ?rest" by (simp add: drop_drop)
    have "list_all valid_utf8 (text_lines (drop (fsr_pos s') (fsr_content s')))"
      using 1(2) text_lines_step [OF False] unfolding rest' by simp
    moreover have "unat (fsr_bytes_read s') + length (drop (fsr_pos s') (fsr_content s')) < 2 ^ 64"
      using 1(3) s' len unfolding rest' by simp
    ultimately have "\<exists>xs. drains (source_next (file_source_in fs evs)) None (s', n + 1) xs"
      using 1(1) [OF False rest' [symmetric]] by blast
    then obtain xs where "drains (source_next (file_source_in fs evs)) None (s', n + 1) xs" by blast
    with src e drains.delivered [of _ "(s, n)" "(s', n + 1)" e None e None xs] show ?thesis by auto
  qed
qed

text \<open>Calls of \<open>next\<close> up to the end or an error.\<close>

fun file_run :: "read_event list \<Rightarrow> file_source \<Rightarrow> (file_source \<times> bytes stream_element list) res" where
  "file_run [] s = Ok (s, [])"
| "file_run (ev # evs) s =
     (case file_source_next ev s of
        (s', Ok (Some e)) \<Rightarrow> bind_res (file_run evs s') (\<lambda>(s2, es). Ok (s2, e # es))
      | (s', Ok None) \<Rightarrow> Ok (s', [])
      | (s', Err x) \<Rightarrow> Err x
      | (s', Panic p) \<Rightarrow> Panic p)"

definition delivered :: "(file_source \<times> bytes stream_element list) res \<Rightarrow> bytes stream_element list res" where
  "delivered r = bind_res r (\<lambda>(s, es). Ok es)"

lemma file_next_line: "file_source_next ev (s\<lparr>fsr_line := x\<rparr>) = (case file_source_next ev s of (s', r) \<Rightarrow> (s', r))"
  by (auto simp: file_source_next_def Let_def split: prod.splits sum.splits res.splits)

lemma file_run_line: "delivered (file_run evs (s\<lparr>fsr_line := x\<rparr>)) = delivered (file_run evs s)"
  by (cases evs) (simp_all add: delivered_def file_next_line split: prod.splits)

text \<open>The snapshot is the position of the reader.\<close>

lemma file_next_position:
  assumes "file_source_next ev s = (s', Ok r)" and "fsr_pos s = unat (fsr_bytes_read s)" and "length (fsr_content s) < 2 ^ 64" and "fsr_pos s \<le> length (fsr_content s)"
  shows "fsr_pos s' = unat (fsr_bytes_read s') \<and> fsr_content s' = fsr_content s \<and> fsr_path s' = fsr_path s \<and>
    fsr_pos s' \<le> length (fsr_content s)"
proof -
  let ?n = "length (line_chunk (drop (fsr_pos s) (fsr_content s)))"
  have chunk: "?n \<le> length (fsr_content s) - fsr_pos s" using line_chunk_length [of "drop (fsr_pos s) (fsr_content s)"] by simp
  then have "?n < 2 ^ 64" using assms(3) by simp
  then have "unat (word_of_nat ?n :: u64) = ?n" by (rule unat_of_nat_u64)
  with assms(1,2,4) chunk show ?thesis
    by (auto simp: file_source_next_def read_line_def Let_def checked_add_def unat_add_no_overflow split: option.splits if_splits)
qed

lemma file_run_position:
  assumes "file_run evs s = Ok (s', es)" and "fsr_pos s = unat (fsr_bytes_read s)" and "length (fsr_content s) < 2 ^ 64" and "fsr_pos s \<le> length (fsr_content s)"
  shows "fsr_pos s' = unat (fsr_bytes_read s') \<and> fsr_content s' = fsr_content s \<and> fsr_path s' = fsr_path s \<and>
    fsr_pos s' \<le> length (fsr_content s)"
  using assms
proof (induction evs arbitrary: s es)
  case (Cons ev evs)
  obtain s1 r where step: "file_source_next ev s = (s1, r)" by fastforce
  with Cons.prems(1) obtain o1 where r: "r = Ok o1" by (cases r) auto
  note p = file_next_position [OF step [unfolded r] Cons.prems(2-4)]
  show ?case
  proof (cases o1)
    case None
    with Cons.prems(1) step r p show ?thesis by simp
  next
    case (Some e)
    with Cons.prems(1) step r obtain es' where "file_run evs s1 = Ok (s', es')" by (auto simp: bind_res_Ok)
    from Cons.IH [OF this] p Cons.prems(3) show ?thesis by simp
  qed
qed simp

lemma file_run_append:
  assumes "file_run evs s = Ok (s', es)" and "length es = length evs"
  shows "delivered (file_run (evs @ evs') s) = bind_res (delivered (file_run evs' s')) (\<lambda>es'. Ok (es @ es'))"
  using assms
proof (induction evs arbitrary: s es)
  case Nil
  then show ?case by (cases "file_run evs' s'") (auto simp: delivered_def split: prod.splits)
next
  case (Cons ev evs)
  obtain s1 r where step: "file_source_next ev s = (s1, r)" by fastforce
  with Cons.prems obtain e where r: "r = Ok (Some e)" by (cases r) (auto split: option.splits)
  with Cons.prems(1) step obtain es1 where run: "file_run evs s1 = Ok (s', es1)" and es: "es = e # es1" by (auto simp: bind_res_Ok)
  with Cons.prems(2) have "length es1 = length evs" by simp
  note ih = Cons.IH [OF run this]
  have "delivered (file_run ((ev # evs) @ evs') s) = bind_res (delivered (file_run (evs @ evs') s1)) (\<lambda>es. Ok (e # es))"
    using step r by (cases "file_run (evs @ evs') s1") (auto simp: delivered_def)
  then show ?case unfolding ih es by (cases "delivered (file_run evs' s')") simp_all
qed

text \<open>\<open>from_le_bytes\<close> inverts \<open>to_le_bytes\<close>.\<close>

lemma horner_bytes: "horner_sum ucast (2 ^ 8) (map (\<lambda>i. ucast (drop_bit (8 * i) x) :: u8) [0..<n]) = take_bit (8 * n) x" for x :: u64
proof (induction n)
  case (Suc n)
  have "horner_sum ucast (2 ^ 8) (map (\<lambda>i. ucast (drop_bit (8 * i) x) :: u8) [0..<Suc n]) =
      take_bit (8 * n) x + (2 ^ 8) ^ n * ucast (ucast (drop_bit (8 * n) x) :: u8)"
    using Suc by (simp add: horner_sum_append)
  also have "\<dots> = take_bit (8 * n) x + push_bit (8 * n) (take_bit 8 (drop_bit (8 * n) x))"
    by (simp only: push_bit_eq_mult power_mult [symmetric] mult.commute [of _ "2 ^ (8 * n)"] unsigned_ucast_eq) simp
  also have "\<dots> = take_bit (8 * Suc n) x"
    using bits_ident [of "8 * n" "take_bit (8 * Suc n) x"] by (simp add: drop_bit_take_bit take_bit_take_bit min_def add.commute)
  finally show ?case .
qed simp

lemma u64_bytes_roundtrip [simp]: "u64_from_le_bytes (u64_to_le_bytes x) = x"
  using horner_bytes [of x 8] by (simp add: u64_from_le_bytes_def u64_to_le_bytes_def take_bit_word_eq_self del: upt_Suc)

lemma restore_snapshot:
  assumes new: "file_source_new fs path = Ok s0" and run: "file_run evs s0 = Ok (s1, es)" and small: "length (fsr_content s0) < 2 ^ 63"
    and s: "fsr_path s = path"
  shows "file_source_restore fs s (u64_to_le_bytes (fsr_bytes_read s1)) = (s1\<lparr>fsr_line := fsr_line s\<rparr>, Ok ())"
proof -
  from new obtain content where fs: "fs path = Some content"
    and s0: "s0 = \<lparr>fsr_path = path, fsr_content = content, fsr_pos = 0, fsr_bytes_read = 0, fsr_line = []\<rparr>"
    by (auto simp: file_source_new_def split: option.splits)
  have p: "fsr_pos s1 = unat (fsr_bytes_read s1)" "fsr_content s1 = content" "fsr_path s1 = path" "fsr_pos s1 \<le> length content"
    using file_run_position [OF run] small by (simp_all add: s0)
  moreover have "length content < 2 ^ 63" using small by (simp add: s0)
  ultimately show ?thesis using fs s by (cases s; cases s1) (simp add: file_source_restore_def Let_def)
qed

subsection \<open>Line sinks\<close>

definition sink_lines :: "('v \<Rightarrow> bytes) \<Rightarrow> 'v list \<Rightarrow> bytes" where
  "sink_lines show_value vs = concat (map (\<lambda>v. show_value v @ [10]) vs)"

lemma sink_lines_simps [simp]:
  "sink_lines sv [] = []" "sink_lines sv (v # vs) = sv v @ 10 # sink_lines sv vs" "sink_lines sv (vs @ ws) = sink_lines sv vs @ sink_lines sv ws"
  by (simp_all add: sink_lines_def)

lemma sink_feed_append:
  "sink_feed sink (xs @ ys) k = (case sink_feed sink xs k of (k', Ok _) \<Rightarrow> sink_feed sink ys k' | (k', Err e) \<Rightarrow> (k', Err e) | (k', Panic p) \<Rightarrow> (k', Panic p))"
  by (induction xs arbitrary: k) (auto split: prod.splits res.splits)

context buffered_writer
begin

lemma line_sink_element:
  assumes "sink_element (line_sink mk ops sv) e w = (w', Ok ())"
  shows "written w' @ pending w' = written w @ pending w @ sink_lines sv (values_of [e])"
    and "\<exists>d. written w' = written w @ d" and "e = ElemBarrier b \<Longrightarrow> pending w' = []"
proof -
  have "written w' @ pending w' = written w @ pending w @ sink_lines sv (values_of [e]) \<and> (\<exists>d. written w' = written w @ d) \<and>
      (e = ElemBarrier b \<longrightarrow> pending w' = [])"
  proof (cases e)
    case (ElemRecord rec)
    obtain w1 ok where call: "write_all ops w (sv (rec_value rec) @ [10]) = (w1, ok)" by fastforce
    with assms ElemRecord have ok: "ok" "w1 = w'" by (auto simp: sink_element_def line_sink_step sink_result_def split: if_splits)
    with write_all [OF call [unfolded ok(1) eq_True [THEN iffD2, OF ok(1)]]] write_grows [OF call] ElemRecord call show ?thesis by auto
  next
    case (ElemWatermark wm)
    with assms show ?thesis by (simp add: sink_element_def)
  next
    case (ElemBarrier c)
    obtain w1 ok where call: "flush_all ops w = (w1, ok)" by fastforce
    with assms ElemBarrier have ok: "ok = True" "w1 = w'" by (auto simp: sink_element_def line_sink_step sink_result_def split: if_splits)
    with flush_all [of w w'] flush_grows [OF call] call ElemBarrier show ?thesis by auto
  qed
  then show "written w' @ pending w' = written w @ pending w @ sink_lines sv (values_of [e])"
    "\<exists>d. written w' = written w @ d" "e = ElemBarrier b \<Longrightarrow> pending w' = []" by blast+
qed

lemma line_sink_feed:
  assumes "sink_feed (line_sink mk ops sv) es w = (w', Ok ())"
  shows "written w' @ pending w' = written w @ pending w @ sink_lines sv (values_of es) \<and> (\<exists>d. written w' = written w @ d)"
  using assms
proof (induction es arbitrary: w)
  case (Cons e es)
  obtain w1 r where step: "sink_element (line_sink mk ops sv) e w = (w1, r)" by fastforce
  with Cons.prems have r: "r = Ok ()" and more: "sink_feed (line_sink mk ops sv) es w1 = (w', Ok ())" by (auto split: res.splits)
  note one = line_sink_element(1,2) [OF step [unfolded r]] and rest = Cons.IH [OF more]
  from one(2) rest obtain d1 d2 where "written w1 = written w @ d1" "written w' = written w1 @ d2" by blast
  moreover have "values_of (e # es) = values_of [e] @ values_of es" by (cases e) simp_all
  ultimately show ?case using one(1) rest by simp
qed simp

lemma line_sink_durable:
  assumes "sink_feed (line_sink mk ops sv) (es1 @ ElemBarrier b # es2) w = (w', Ok ())"
  shows "\<exists>d. written w' = written w @ pending w @ sink_lines sv (values_of es1) @ d"
proof -
  obtain w1 r where first: "sink_feed (line_sink mk ops sv) es1 w = (w1, r)" by fastforce
  with assms have r: "r = Ok ()" by (auto simp: sink_feed_append split: res.splits)
  obtain w2 r2 where barrier: "sink_element (line_sink mk ops sv) (ElemBarrier b) w1 = (w2, r2)" by fastforce
  with assms first r have r2: "r2 = Ok ()" and more: "sink_feed (line_sink mk ops sv) es2 w2 = (w', Ok ())"
    by (auto simp: sink_feed_append split: res.splits)
  from line_sink_feed [OF first [unfolded r]] line_sink_element(1) [OF barrier [unfolded r2]] line_sink_element(3) [OF barrier [unfolded r2] refl]
  have "written w2 = written w @ pending w @ sink_lines sv (values_of es1)" by simp
  with line_sink_feed [OF more] show ?thesis by auto
qed

end

subsection \<open>Kafka offsets\<close>

lemma u32_bytes_roundtrip [simp]: "word_of_nat (le_bytes_value (u32_to_le_bytes p)) = p" for p :: u32
  by simp

lemma read_partitions_encoded:
  assumes "\<forall>(p, n)\<in>set ps. valid topic p n = None"
  shows "read_partitions valid topic (length ps) (concat (map (\<lambda>(p, n). u32_to_le_bytes p @ u64_to_le_bytes n) ps)) = Ok (map (\<lambda>(p, n). (topic, p, n)) ps)"
  using assms by (induction ps) auto

lemma encoded_partitions_length: "length (concat (map (\<lambda>(p, n). u32_to_le_bytes p @ u64_to_le_bytes n) ps)) = 12 * length ps"
  by (induction ps) auto

lemma read_partitions_truncated:
  assumes "m < 12 * length ps"
  shows "\<exists>msg. read_partitions valid topic (length ps) (take m (concat (map (\<lambda>(p, n). u32_to_le_bytes p @ u64_to_le_bytes n) ps))) = Err (CheckpointError msg)"
  using assms
proof (induction ps arbitrary: m)
  case (Cons pn ps)
  obtain p n where pn: "pn = (p, n)" by fastforce
  show ?case
  proof (cases "m < 12")
    case True
    then have "min 4 m + (m - 4) < 12" by auto
    then show ?thesis by (simp add: pn)
  next
    case False
    then obtain k where k: "m = 12 + k" "k < 12 * length ps" using Cons.prems le_Suc_ex by fastforce
    from Cons.IH [OF k(2)] k show ?thesis by (auto simp: pn Let_def split: option.splits)
  qed
qed simp

lemma decode_encoded:
  assumes "valid_utf8 topic'" and "length topic' < 2 ^ 32" and "length ps < 2 ^ 32" and "\<forall>(p, n)\<in>set ps. valid topic p n = None"
  shows "decode_offsets valid topic (encode_offsets topic' ps) = Ok (map (\<lambda>(p, n). (topic, p, n)) ps)"
proof -
  have "unat (word_of_nat (length topic') :: u32) = length topic'" "unat (word_of_nat (length ps) :: u32) = length ps"
    using assms(2,3) by (simp_all add: unat_of_nat)
  with assms(1) read_partitions_encoded [of ps valid topic, OF assms(4)] show ?thesis by (simp add: decode_offsets_def encode_offsets_def Let_def)
qed

lemma decode_truncated:
  assumes "length topic' < 2 ^ 32" and "length ps < 2 ^ 32" and "m < length (encode_offsets topic' ps)"
  shows "\<exists>msg. decode_offsets valid topic (take m (encode_offsets topic' ps)) = Err (CheckpointError msg)"
proof -
  have words: "unat (word_of_nat (length topic') :: u32) = length topic'" "unat (word_of_nat (length ps) :: u32) = length ps"
    using assms(1,2) by (simp_all add: unat_of_nat)
  let ?t = "length topic'"
  consider "m < 4" | "4 \<le> m" "m < 4 + ?t" | "4 + ?t \<le> m" "m < 8 + ?t" | "8 + ?t \<le> m" by linarith
  then show ?thesis
  proof cases
    case 4
    then obtain k where k: "m = 8 + ?t + k" using le_Suc_ex by blast
    with assms(3) have "k < 12 * length ps" by (simp add: encode_offsets_def encoded_partitions_length)
    from read_partitions_truncated [OF this, of valid topic] k words show ?thesis by (auto simp: decode_offsets_def encode_offsets_def Let_def)
  qed (use words in \<open>auto simp: decode_offsets_def encode_offsets_def Let_def\<close>)
qed

text \<open>A snapshot holds every assigned partition, at its position or at 0.\<close>

lemma map_of_partition_offsets:
  "map_of (partition_offsets positions assignment) p =
     (case map_of (known_offsets positions) p of Some n \<Rightarrow> Some n | None \<Rightarrow> if p \<in> set assignment then Some 0 else None)"
proof -
  have "map_of (fold (\<lambda>p ps. if p \<in> fst ` set ps then ps else ps @ [(p, 0)]) assignment ps) p =
      (case map_of ps p of Some n \<Rightarrow> Some n | None \<Rightarrow> if p \<in> set assignment then Some 0 else None)" for ps :: "(u32 \<times> u64) list"
  proof (induction assignment arbitrary: ps)
    case (Cons q qs)
    have known: "q \<in> fst ` set ps \<longleftrightarrow> map_of ps q \<noteq> None" by (simp add: map_of_eq_None_iff)
    show ?case unfolding fold_simps(2) Cons.IH known by (auto simp: map_add_def split: option.splits)
  qed (simp split: option.split)
  then show ?thesis by (simp add: partition_offsets_def)
qed

subsection \<open>The connectors in a pipeline\<close>

text \<open>C18. A file source replays exactly: a source over the same file, restored from a snapshot that was taken after some lines were
  read, delivers the lines from there on, so that together they are what an uninterrupted source delivers, whatever was read
  by the restored source before.\<close>

theorem file_source_replay:
  assumes "file_source_new fs path = Ok s0" and "length (fsr_content s0) < 2 ^ 63"
    and "file_run evs s0 = Ok (s1, es)" and "length es = length evs" and "file_source_snapshot s1 = Ok state"
    and "fsr_path t = path" and "file_source_restore fs t state = (t', r)"
  shows "r = Ok () \<and> delivered (file_run (evs @ evs') s0) = bind_res (delivered (file_run evs' t')) (\<lambda>es'. Ok (es @ es'))"
proof -
  have "file_source_restore fs t state = (s1\<lparr>fsr_line := fsr_line t\<rparr>, Ok ())"
    using restore_snapshot [OF assms(1,3,2,6)] assms(5) by (simp add: file_source_snapshot_def)
  then show ?thesis using assms(7) file_run_append [OF assms(3,4)] by (auto simp: file_run_line)
qed

theorem file_source_replay_witness:
  "\<exists>t' r. file_source_restore [''in'' \<mapsto> [97, 10, 98, 10]]
       \<lparr>fsr_path = ''in'', fsr_content = [97, 10, 98, 10], fsr_pos = 4, fsr_bytes_read = 4, fsr_line = [98, 10]\<rparr> [2, 0, 0, 0, 0, 0, 0, 0] = (t', r) \<and>
     r = Ok () \<and> bind_res (delivered (file_run [(None, None), (None, None)] t')) (\<lambda>es'. Ok (values_of es')) = Ok [[98]]"
proof -
  let ?fs = "[''in'' \<mapsto> [97, 10, 98, 10]] :: files" and ?ev = "(None, None) :: read_event"
  let ?at = "\<lambda>n line. \<lparr>fsr_path = ''in'', fsr_content = [97, 10, 98, 10], fsr_pos = n, fsr_bytes_read = word_of_nat n, fsr_line = line\<rparr>"
  have new: "file_source_new ?fs ''in'' = Ok (?at 0 [])" by (simp add: file_source_new_def)
  have run: "file_run [?ev] (?at 0 []) = Ok (?at 2 [97, 10], [ElemRecord (record_new [97] (now_millis None))])"
    by (simp add: file_source_next_def read_line_def checked_add_def trim_line_def trim_end_def)
  have snap: "file_source_snapshot (?at 2 [97, 10]) = Ok [2, 0, 0, 0, 0, 0, 0, 0]"
    by (simp add: file_source_snapshot_def u64_to_le_bytes_def upt_rec)
  have restore: "file_source_restore ?fs (?at 4 [98, 10]) [2, 0, 0, 0, 0, 0, 0, 0] = (?at 2 [98, 10], Ok ())"
    by (simp add: file_source_restore_def u64_from_le_bytes_def)
  have rest: "bind_res (delivered (file_run [?ev, ?ev] (?at 2 [98, 10]))) (\<lambda>es'. Ok (values_of es')) = Ok [[98]]"
    by (simp add: file_source_next_def read_line_def checked_add_def trim_line_def trim_end_def delivered_def record_new_def)
  from file_source_replay [OF new _ run _ snap _ restore] restore rest show ?thesis by simp
qed

text \<open>C20. A line sink is durable up to the last barrier: once a file sink has handled a checkpoint barrier, a line for every record
  before the barrier is in the file, in order, after what was there, whatever comes later.\<close>

theorem file_sink_durable:
  assumes "buffered_writer ops written pending"
    and "sink_feed (file_sink ops show_value) (es1 @ ElemBarrier b # es2) w = (w', Ok ())"
  shows "\<exists>later. written w' = written w @ pending w @ sink_lines show_value (values_of es1) @ later"
  using buffered_writer.line_sink_durable [OF assms(1) assms(2) [unfolded file_sink_def]] .

text \<open>Three lines through a writer with a buffer of four bytes.\<close>

definition example_writer :: buf_writer where
  "example_writer = \<lparr>bw_capacity = 4, bw_buffer = [], bw_file = [], bw_room = 100\<rparr>"

theorem file_sink_durable_witness:
  "\<exists>w later. sink_feed (file_sink buf_ops id)
       [ElemRecord (record_new [97] ts_MIN), ElemRecord (record_new [98] ts_MIN), ElemBarrier \<lparr>checkpoint_id = 1, barrier_timestamp = ts_MIN\<rparr>, ElemRecord (record_new [99] ts_MIN)]
       example_writer = (w, Ok ()) \<and> bw_file w = sink_lines id [[97], [98]] @ later"
proof -
  let ?before = "[ElemRecord (record_new [97] ts_MIN), ElemRecord (record_new [98] ts_MIN)] :: bytes stream_element list"
  let ?w = "\<lparr>bw_capacity = 4, bw_buffer = [99, 10], bw_file = [97, 10, 98, 10], bw_room = 96\<rparr>"
  have feed: "sink_feed (file_sink buf_ops id) (?before @ ElemBarrier \<lparr>checkpoint_id = 1, barrier_timestamp = ts_MIN\<rparr> # [ElemRecord (record_new [99] ts_MIN)]) example_writer = (?w, Ok ())"
    by code_simp
  from file_sink_durable [OF buf.buffered_writer_axioms feed] feed show ?thesis by (simp add: example_writer_def record_new_def)
qed

text \<open>C19. The offsets of a Kafka source survive a checkpoint: restoring a snapshot assigns to the consumer, under its own topic, exactly the
  partitions and offsets that the snapshot took, and these are the known position of every partition and 0 for an assigned one
  without a position.\<close>

theorem kafka_offsets_roundtrip:
  assumes "kc_assignment kc (ks_consumer s) = Inr assignment" and "kc_position kc (ks_consumer s) = Inr positions"
    and "kafka_source_snapshot kc s = Ok state" and "ps = partition_offsets positions assignment"
    and "valid_utf8 (ks_topic s)" and "length (ks_topic s) < 2 ^ 32" and "length ps < 2 ^ 32"
    and "\<forall>(p, n)\<in>set ps. kc_valid_offset kc (ks_topic t) p n = None"
    and "kc_assign kc (ks_consumer t) (map (\<lambda>(p, n). (ks_topic t, p, n)) ps) = (k, e)"
  shows "kafka_source_restore kc t state = (t\<lparr>ks_consumer := k\<rparr>, case e of None \<Rightarrow> Ok () | Some x \<Rightarrow> Err (SourceError x)) \<and>
    map_of ps p = (case map_of (known_offsets positions) p of Some n \<Rightarrow> Some n | None \<Rightarrow> if p \<in> set assignment then Some 0 else None)"
proof -
  have state: "state = encode_offsets (ks_topic s) ps" using assms(1-4) by (simp add: kafka_source_snapshot_def)
  then have "length state \<noteq> 0" by (simp add: encode_offsets_def)
  then have "state \<noteq> []" by simp
  with decode_encoded [of "ks_topic s" ps "kc_valid_offset kc" "ks_topic t", OF assms(5-8)] assms(9) state have "kafka_source_restore kc t state = (t\<lparr>ks_consumer := k\<rparr>, case e of None \<Rightarrow> Ok () | Some x \<Rightarrow> Err (SourceError x))"
    by (auto simp: kafka_source_restore_def split: option.splits)
  then show ?thesis by (simp add: assms(4) map_of_partition_offsets)
qed

text \<open>A consumer that records its assignment, with a position for one of its two partitions.\<close>

definition example_consumer :: "(bytes \<times> u32 \<times> u64) list kafka_consumer" where
  "example_consumer = \<lparr>kc_recv = (\<lambda>k. (k, Inl ''none'')), kc_assignment = (\<lambda>_. Inr [0, 1]), kc_position = (\<lambda>_. Inr [(1, AtOffset 300), (0, SymbolicOffset)]),
     kc_valid_offset = (\<lambda>_ _ _. None), kc_assign = (\<lambda>_ tpl. (tpl, None))\<rparr>"

definition example_snapshot :: bytes where
  "example_snapshot = [1, 0, 0, 0, 116, 2, 0, 0, 0, 1, 0, 0, 0, 44, 1, 0, 0, 0, 0, 0, 0, 0, 0, 0, 0, 0, 0, 0, 0, 0, 0, 0, 0]"

lemma example_kafka_snapshot: "kafka_source_snapshot example_consumer \<lparr>ks_consumer = [], ks_topic = [116]\<rparr> = Ok example_snapshot"
  by code_simp

theorem kafka_offsets_roundtrip_witness:
  "kafka_source_restore example_consumer \<lparr>ks_consumer = [], ks_topic = [116]\<rparr> example_snapshot =
     (\<lparr>ks_consumer = [([116], 1, 300), ([116], 0, 0)], ks_topic = [116]\<rparr>, Ok ())"
proof -
  let ?s = "\<lparr>ks_consumer = [], ks_topic = [116]\<rparr> :: (bytes \<times> u32 \<times> u64) list kafka_source"
  have "kafka_source_restore example_consumer ?s example_snapshot =
      (?s\<lparr>ks_consumer := [([116], 1, 300), ([116], 0, 0)]\<rparr>, case None of None \<Rightarrow> Ok () | Some x \<Rightarrow> Err (SourceError x))"
  proof (rule conjunct1 [OF kafka_offsets_roundtrip])
    show "kafka_source_snapshot example_consumer ?s = Ok example_snapshot" by (rule example_kafka_snapshot)
    show "[(1, 300), (0, 0)] = partition_offsets [(1, AtOffset 300), (0, SymbolicOffset)] [0, 1]" by code_simp
  qed (simp_all add: example_consumer_def)
  then show ?thesis by simp
qed

text \<open>C40. A truncated snapshot of a Kafka source is never accepted: restoring a proper prefix is a checkpoint error and leaves the source
  as it is.\<close>

theorem kafka_restore_rejects_truncated:
  assumes "kafka_source_snapshot kc s = Ok state" and "0 < m" and "m < length state" and "length (ks_topic s) < 2 ^ 32"
    and "\<And>assignment positions. kc_assignment kc (ks_consumer s) = Inr assignment \<Longrightarrow> kc_position kc (ks_consumer s) = Inr positions \<Longrightarrow>
      length (partition_offsets positions assignment) < 2 ^ 32"
  shows "\<exists>msg. kafka_source_restore kc t (take m state) = (t, Err (CheckpointError msg))"
proof -
  obtain assignment positions where kc: "kc_assignment kc (ks_consumer s) = Inr assignment" "kc_position kc (ks_consumer s) = Inr positions"
    using assms(1) by (auto simp: kafka_source_snapshot_def split: sum.splits)
  with assms(1) have state: "state = encode_offsets (ks_topic s) (partition_offsets positions assignment)" by (simp add: kafka_source_snapshot_def)
  have "m < length (encode_offsets (ks_topic s) (partition_offsets positions assignment))" using assms(3) state by simp
  from decode_truncated [OF assms(4) assms(5) [OF kc] this, of "kc_valid_offset kc" "ks_topic t"] state
  obtain msg where "decode_offsets (kc_valid_offset kc) (ks_topic t) (take m state) = Err (CheckpointError msg)" by blast
  moreover have "take m state \<noteq> []" using assms(2,3) by auto
  ultimately show ?thesis by (simp add: kafka_source_restore_def)
qed

theorem kafka_restore_rejects_truncated_witness:
  "\<exists>msg. kafka_source_restore example_consumer \<lparr>ks_consumer = [], ks_topic = [116]\<rparr> (take 30 example_snapshot) =
     (\<lparr>ks_consumer = [], ks_topic = [116]\<rparr>, Err (CheckpointError msg))"
proof (rule kafka_restore_rejects_truncated [OF example_kafka_snapshot])
  fix assignment positions
  assume "kc_assignment example_consumer (ks_consumer \<lparr>ks_consumer = [], ks_topic = [116]\<rparr>) = Inr assignment"
    "kc_position example_consumer (ks_consumer \<lparr>ks_consumer = [], ks_topic = [116]\<rparr>) = Inr positions"
  then show "length (partition_offsets positions assignment) < 2 ^ 32"
    by (auto simp: example_consumer_def partition_offsets_def known_offsets_def)
qed (simp_all add: example_snapshot_def)

text \<open>C5. A pipeline from a file to a file. When \<open>add_sink\<close> returns Ok, the output file and the sink's buffer together hold, after what
  was there, one line for every value that the maps, filters and flat maps make of the lines of the input, in order, for every
  writer that behaves like a buffered one, every kind and size of channel and every interleaving. Only what the buffer holds is
  missing from the file: nothing flushes it at the end.\<close>

theorem file_pipeline_output:
  assumes "buffered_writer ops written pending" and "file_source_new fs path = Ok s"
    and "from_source (file_source_in fs evs) (s, 0) (env_from_config config) = (env0, ds0)"
    and "add_pure_stages n0 s0 stages ds0 env0 = Ok (env1, ds1)" and "add_sink ds1 w env1 = Ok (env2, r0)"
    and "add_sink_result show_join (run_pipeline nf (file_sink ops show_value) acts r0) = Some (Ok ())"
    and "w' = run_sink (run_pipeline nf (file_sink ops show_value) acts r0)"
  shows "written w' @ pending w' =
    written w @ pending w @ sink_lines show_value (pure_values stages (map trim_line (text_lines (the (fs path)))))"
proof -
  have s: "fsr_pos s = 0" "fsr_content s = the (fs path)" using assms(2) by (auto simp: file_source_new_def split: option.splits)
  have "carries env0 ds0 (\<lambda>es. values_of es = map trim_line (text_lines (the (fs path))))"
    by (rule carries_mono [OF from_source_carries [OF assms(3)]]) (use file_drains in \<open>fastforce simp: s\<close>)
  note built = add_pure_stages_ok [OF from_source_ok [OF assms(3)] this assms(4)]
  from pipeline_run_carries [OF conjunct1 [OF built] assms(5) conjunct2 [OF built] assms(6)]
  obtain es where "values_of es = pure_values stages (map trim_line (text_lines (the (fs path))))"
    "sink_feed (line_sink IoError ops show_value) es w = (w', Ok ())" by (auto simp: file_sink_def assms(7))
  with buffered_writer.line_sink_feed [OF assms(1)] show ?thesis by metis
qed

text \<open>An overflow test without large powers, for evaluation.\<close>

lemma checked_add_code [code]:
  "checked_add x y = (let z = x + y in if z < x then Panic ''attempt to add with overflow'' else Ok z)"
proof -
  have x: "unat x < 2 ^ 64" "unat y < 2 ^ 64" using unsigned_less [of x] unsigned_less [of y] by simp_all
  have "unat (x + y) = (unat x + unat y) mod 2 ^ 64" by (simp add: unat_word_ariths)
  then have "x + y < x \<longleftrightarrow> \<not> unat x + unat y < 2 ^ 64"
    using x by (cases "unat x + unat y < 2 ^ 64") (simp_all add: word_less_nat_alt le_mod_geq not_less)
  then show ?thesis by (simp add: checked_add_def Let_def)
qed

text \<open>A file of one line, copied.\<close>

definition copy_files :: files where "copy_files = [''in'' \<mapsto> [97, 10]]"

definition copy_source :: file_source where
  "copy_source = \<lparr>fsr_path = ''in'', fsr_content = [97, 10], fsr_pos = 0, fsr_bytes_read = 0, fsr_line = []\<rparr>"

definition copy_start :: "duration option \<Rightarrow> (bytes, file_source \<times> nat, unit, buf_writer) running" where
  "copy_start clock =
    \<lparr>run_net = \<lparr>net_links = [link_new (MpscChannel 4 [] False)], net_pairs = [],
       net_spawned = [
         \<lparr>sp_name = ''source-drainer'', sp_actor = DrainActor \<lparr>dr_source = file_source_in copy_files (\<lambda>_. (None, clock)), dr_state = (copy_source, 0),
            dr_key = None, dr_held = None, dr_out = 0\<rparr>, sp_result = None\<rparr>], net_cancelled = False\<rparr>,
     run_input = 0, run_sink = example_writer, run_drained = None\<rparr>"

definition copy_schedule :: "run_action list" where
  "copy_schedule = [PollTask 0 True, PollTask 0 True, PollTask 0 True, PollSink, PollSink]"

lemma copy_built: "\<exists>env0 ds0 env2. from_source (file_source_in copy_files (\<lambda>_. (None, clock))) (copy_source, 0) (env_from_config (example_config Mpsc)) = (env0, ds0) \<and>
   add_pure_stages () (copy_source, 0) [] ds0 env0 = Ok (env0, ds0) \<and> add_sink ds0 example_writer env0 = Ok (env2, copy_start clock)"
  by (simp add: builder_defs copy_start_def)

lemma copy_ends: "add_sink_result (\<lambda>s. s) (run_pipeline id (file_sink buf_ops id) copy_schedule (copy_start clock)) = Some (Ok ())"
  by code_simp

text \<open>The run ends well and the file is empty: the line is in the buffer, which goes away with the sink.\<close>

lemma file_sink_loses_tail: "bw_file (run_sink (run_pipeline id (file_sink buf_ops id) copy_schedule (copy_start clock))) = []"
  by code_simp

theorem file_pipeline_output_witness:
  "\<forall>clock. bw_file (run_sink (run_pipeline id (file_sink buf_ops id) copy_schedule (copy_start clock))) @
     bw_buffer (run_sink (run_pipeline id (file_sink buf_ops id) copy_schedule (copy_start clock))) = [97, 10]"
proof
  fix clock :: "duration option"
  have source: "file_source_new copy_files ''in'' = Ok copy_source" by (simp add: file_source_new_def copy_files_def copy_source_def)
  obtain env0 ds0 env2 where ex: "from_source (file_source_in copy_files (\<lambda>_. (None, clock))) (copy_source, 0) (env_from_config (example_config Mpsc)) = (env0, ds0)"
    "add_pure_stages () (copy_source, 0) [] ds0 env0 = Ok (env0, ds0)" "add_sink ds0 example_writer env0 = Ok (env2, copy_start clock)"
    using copy_built by blast
  show "bw_file (run_sink (run_pipeline id (file_sink buf_ops id) copy_schedule (copy_start clock))) @
     bw_buffer (run_sink (run_pipeline id (file_sink buf_ops id) copy_schedule (copy_start clock))) = [97, 10]"
    using file_pipeline_output [OF buf.buffered_writer_axioms source ex copy_ends refl]
    by (simp add: example_writer_def copy_files_def pure_values_def text_lines_step trim_line_def trim_end_def)
qed

end
