(* ===== verification/Snapshot_Store.thy ===== *)
theory Snapshot_Store
  imports Decimals
begin

text \<open>
  \<open>flume-runtime/src/checkpoint/store.rs\<close>: checkpoints on the local file system. The directory
  \<open>base_path\<close> is a map from the names of its entries to the files in them; \<open>faults\<close> says which
  calls of the file system fail. Names have no path separator. The order in which a directory is
  listed is an argument. An entry that is a plain file behaves like a directory without files.
\<close>

subsection \<open>The file system\<close>

type_synonym directory = "string \<rightharpoonup> bytes"

datatype io_call =
    CreateDir string
  | WriteFile string string
  | ReadFile string string
  | ReadDir
  | NextEntry nat

record disk =
  base_exists :: bool
  entries :: "string \<rightharpoonup> directory"
  faults :: "io_call \<Rightarrow> bool"

definition io_error :: "'a res" where "io_error = Err (IoError ''io'')"

definition checkpoint_dir :: "nat \<Rightarrow> string" where
  "checkpoint_dir checkpoint_id = ''cp-'' @ nat_to_string checkpoint_id"

definition state_file :: "string \<Rightarrow> string" where "state_file operator_name = operator_name @ ''.bin''"

definition create_dir_all :: "string \<Rightarrow> disk \<Rightarrow> disk \<times> unit res" where
  "create_dir_all dir d =
     (if faults d (CreateDir dir) then (d, io_error)
      else (d\<lparr>base_exists := True, entries := (entries d)(dir \<mapsto> (case entries d dir of Some fs \<Rightarrow> fs | None \<Rightarrow> Map.empty))\<rparr>, Ok ()))"

definition write_file :: "string \<Rightarrow> string \<Rightarrow> bytes \<Rightarrow> disk \<Rightarrow> disk \<times> unit res" where
  "write_file dir file data d =
     (case entries d dir of
        None \<Rightarrow> (d, io_error)
      | Some fs \<Rightarrow>
          if faults d (WriteFile dir file) then (d, io_error)
          else (d\<lparr>entries := (entries d)(dir \<mapsto> fs(file \<mapsto> data))\<rparr>, Ok ()))"

definition save_state :: "nat \<Rightarrow> string \<Rightarrow> bytes \<Rightarrow> disk \<Rightarrow> disk \<times> unit res" where
  "save_state checkpoint_id operator_name data d =
     (let dir = checkpoint_dir checkpoint_id in
      case create_dir_all dir d of
        (d1, Ok _) \<Rightarrow> write_file dir (state_file operator_name) data d1
      | (d1, Err e) \<Rightarrow> (d1, Err e)
      | (d1, Panic p) \<Rightarrow> (d1, Panic p))"

definition commit :: "nat \<Rightarrow> disk \<Rightarrow> disk \<times> unit res" where
  "commit checkpoint_id d = write_file (checkpoint_dir checkpoint_id) ''_complete'' [] d"

definition load_state :: "nat \<Rightarrow> string \<Rightarrow> disk \<Rightarrow> bytes res" where
  "load_state checkpoint_id operator_name d =
     (case entries d (checkpoint_dir checkpoint_id) of
        None \<Rightarrow> io_error
      | Some fs \<Rightarrow>
          (case fs (state_file operator_name) of
             None \<Rightarrow> io_error
           | Some bs \<Rightarrow> if faults d (ReadFile (checkpoint_dir checkpoint_id) (state_file operator_name)) then io_error else Ok bs))"

text \<open>\<open>strip_prefix\<close>, \<open>parse\<close> and the look for the marker.\<close>

definition strip_cp :: "string \<Rightarrow> string option" where
  "strip_cp name = (if take 3 name = ''cp-'' then Some (drop 3 name) else None)"

definition committed_id :: "disk \<Rightarrow> string \<Rightarrow> nat option" where
  "committed_id d name =
     (case strip_cp name of
        None \<Rightarrow> None
      | Some id_str \<Rightarrow>
          (case parse_u64 id_str of
             None \<Rightarrow> None
           | Some i \<Rightarrow>
               (case entries d name of
                  Some fs \<Rightarrow> if fs ''_complete'' \<noteq> None then Some i else None
                | None \<Rightarrow> None)))"

text \<open>The loop over the entries; the \<open>n\<close>-th call of \<open>next_entry\<close> may fail.\<close>

fun scan_latest :: "disk \<Rightarrow> nat \<Rightarrow> string list \<Rightarrow> nat option \<Rightarrow> nat option res" where
  "scan_latest d n [] best = (if faults d (NextEntry n) then io_error else Ok best)"
| "scan_latest d n (name # names) best =
     (if faults d (NextEntry n) then io_error
      else scan_latest d (n + 1) names
        (case committed_id d name of None \<Rightarrow> best | Some i \<Rightarrow> Some (case best of None \<Rightarrow> i | Some b \<Rightarrow> max b i)))"

definition latest_checkpoint :: "disk \<Rightarrow> string list \<Rightarrow> nat option res" where
  "latest_checkpoint d listing =
     (if \<not> base_exists d then Ok None
      else if faults d ReadDir then io_error
      else scan_latest d 0 listing None)"

fun scan_committed :: "disk \<Rightarrow> nat \<Rightarrow> string list \<Rightarrow> nat list \<Rightarrow> nat list res" where
  "scan_committed d n [] committed = (if faults d (NextEntry n) then io_error else Ok committed)"
| "scan_committed d n (name # names) committed =
     (if faults d (NextEntry n) then io_error
      else scan_committed d (n + 1) names
        (case committed_id d name of None \<Rightarrow> committed | Some i \<Rightarrow> committed @ [i]))"

text \<open>\<open>remove_dir_all\<close> with its result ignored: \<open>removable\<close> tells for which directories it succeeds.\<close>

fun remove_dirs :: "(string \<Rightarrow> bool) \<Rightarrow> nat list \<Rightarrow> disk \<Rightarrow> disk" where
  "remove_dirs removable [] d = d"
| "remove_dirs removable (i # is) d =
     remove_dirs removable is
       (if removable (checkpoint_dir i) then d\<lparr>entries := (entries d)(checkpoint_dir i := None)\<rparr> else d)"

definition cleanup :: "(string \<Rightarrow> bool) \<Rightarrow> nat \<Rightarrow> string list \<Rightarrow> disk \<Rightarrow> disk \<times> unit res" where
  "cleanup removable keep_last_n listing d =
     (if \<not> base_exists d then (d, Ok ())
      else if faults d ReadDir then (d, io_error)
      else case scan_committed d 0 listing [] of
             Ok committed \<Rightarrow>
               (let ids = sort committed in
                if keep_last_n < length ids
                then (remove_dirs removable (take (length ids - keep_last_n) ids) d, Ok ())
                else (d, Ok ()))
           | Err e \<Rightarrow> (d, Err e)
           | Panic p \<Rightarrow> (d, Panic p))"

subsection \<open>What is committed\<close>

text \<open>A disk that only this store wrote to: every entry is the directory of a 64-bit id.\<close>

definition store_disk :: "disk \<Rightarrow> bool" where
  "store_disk d \<longleftrightarrow> (\<forall>name\<in>dom (entries d). \<exists>i<2 ^ 64. name = checkpoint_dir i) \<and> (\<not> base_exists d \<longrightarrow> entries d = Map.empty)"

definition is_committed :: "disk \<Rightarrow> nat \<Rightarrow> bool" where
  "is_committed d i \<longleftrightarrow> (case entries d (checkpoint_dir i) of Some fs \<Rightarrow> fs ''_complete'' \<noteq> None | None \<Rightarrow> False)"

definition committed_ids :: "disk \<Rightarrow> nat set" where
  "committed_ids d = {i. i < 2 ^ 64 \<and> is_committed d i}"

lemma strip_checkpoint_dir [simp]: "strip_cp (checkpoint_dir i) = Some (nat_to_string i)"
  by (simp add: strip_cp_def checkpoint_dir_def)

lemma checkpoint_dir_inject: "a < 2 ^ 64 \<Longrightarrow> b < 2 ^ 64 \<Longrightarrow> checkpoint_dir a = checkpoint_dir b \<longleftrightarrow> a = b"
  by (simp add: checkpoint_dir_def nat_to_string_inject)

lemma committed_id_dir: "i < 2 ^ 64 \<Longrightarrow> committed_id d (checkpoint_dir i) = (if is_committed d i then Some i else None)"
  by (auto simp: committed_id_def is_committed_def split: option.split)

lemma state_file_not_marker [simp]: "state_file n \<noteq> ''_complete''" "''_complete'' \<noteq> state_file n"
proof -
  have "last (state_file n) = CHR ''n''" by (simp add: state_file_def)
  then show "state_file n \<noteq> ''_complete''" by auto
  then show "''_complete'' \<noteq> state_file n" by metis
qed

lemma state_file_inject [simp]: "state_file a = state_file b \<longleftrightarrow> a = b"
  by (simp add: state_file_def)

subsection \<open>Saving and committing\<close>

lemma save_state_Ok:
  assumes "save_state i op data d = (d', Ok ())"
  shows "faults d' = faults d" and "base_exists d'"
    and "entries d' = (entries d)(checkpoint_dir i \<mapsto>
      (case entries d (checkpoint_dir i) of Some fs \<Rightarrow> fs | None \<Rightarrow> Map.empty)(state_file op \<mapsto> data))"
  using assms by (auto simp: save_state_def create_dir_all_def write_file_def io_error_def Let_def split: if_splits)

lemma save_state_committed: "save_state i op data d = (d', r) \<Longrightarrow> is_committed d' j = is_committed d j"
  by (auto simp: save_state_def create_dir_all_def write_file_def io_error_def Let_def is_committed_def
      split: if_splits option.splits)

lemma save_state_load_same:
  assumes "save_state i op data d = (d', Ok ())" and "\<not> faults d (ReadFile (checkpoint_dir i) (state_file op))"
  shows "load_state i op d' = Ok data"
  using assms save_state_Ok [OF assms(1)] by (simp add: load_state_def)

lemma save_state_load_other:
  assumes "save_state i op data d = (d', r)" and "i < 2 ^ 64" and "j < 2 ^ 64" and "(i, op) \<noteq> (j, op')"
  shows "load_state j op' d' = load_state j op' d"
  using assms
  by (auto simp: save_state_def create_dir_all_def write_file_def io_error_def Let_def load_state_def checkpoint_dir_inject
      split: if_splits option.splits)

lemma save_state_store_disk:
  "store_disk d \<Longrightarrow> i < 2 ^ 64 \<Longrightarrow> save_state i op data d = (d', r) \<Longrightarrow> store_disk d'"
  by (auto simp: store_disk_def save_state_def create_dir_all_def write_file_def io_error_def Let_def split: if_splits option.splits)

lemma commit_Ok:
  assumes "commit i d = (d', r)" and "i < 2 ^ 64"
  shows "faults d' = faults d" and "base_exists d' = base_exists d" and "load_state j op d' = load_state j op d"
    and "committed_ids d' = (if r = Ok () then insert i (committed_ids d) else committed_ids d)"
    and "store_disk d \<Longrightarrow> store_disk d'"
proof -
  have c: "(entries d' = entries d \<and> r = io_error \<and> faults d' = faults d \<and> base_exists d' = base_exists d) \<or>
      (\<exists>fs. entries d (checkpoint_dir i) = Some fs \<and> d' = d\<lparr>entries := (entries d)(checkpoint_dir i \<mapsto> fs(''_complete'' \<mapsto> []))\<rparr> \<and> r = Ok ())"
    using assms(1) by (auto simp: commit_def write_file_def split: option.splits if_splits)
  then show "faults d' = faults d" "base_exists d' = base_exists d" "store_disk d \<Longrightarrow> store_disk d'"
    using assms(2) by (auto simp: store_disk_def)
  show "load_state j op d' = load_state j op d"
  proof (cases "checkpoint_dir j = checkpoint_dir i")
    case True
    with c show ?thesis by (auto simp: load_state_def cong: option.case_cong if_cong)
  next
    case False
    with c show ?thesis by (auto simp: load_state_def cong: option.case_cong if_cong)
  qed
  have mem: "is_committed d' k \<longleftrightarrow> is_committed d k \<or> (r = Ok () \<and> k = i)" if k: "k < 2 ^ 64" for k
  proof (cases "k = i")
    case True
    with c show ?thesis by (auto simp: is_committed_def io_error_def)
  next
    case False
    then have "checkpoint_dir k \<noteq> checkpoint_dir i" using k assms(2) by (simp add: checkpoint_dir_inject)
    with c False show ?thesis by (auto simp: is_committed_def)
  qed
  then show "committed_ids d' = (if r = Ok () then insert i (committed_ids d) else committed_ids d)"
    using assms(2) by (auto simp: committed_ids_def)
qed

subsection \<open>Listing\<close>

definition quiet :: "disk \<Rightarrow> bool" where
  "quiet d \<longleftrightarrow> \<not> faults d ReadDir \<and> (\<forall>n. \<not> faults d (NextEntry n))"

definition found :: "disk \<Rightarrow> string list \<Rightarrow> nat list" where
  "found d names = List.map_filter (committed_id d) names"

lemma found_simps [simp]:
  "found d [] = []" "found d (n # ns) = (case committed_id d n of None \<Rightarrow> found d ns | Some i \<Rightarrow> i # found d ns)"
  by (simp_all add: found_def List.map_filter_def split: option.split)

lemma scan_latest_exact:
  assumes "\<forall>n. \<not> faults d (NextEntry n)"
  shows "scan_latest d n names best =
    Ok (fold (\<lambda>i b. Some (case b of None \<Rightarrow> i | Some b \<Rightarrow> max b i)) (found d names) best)"
  using assms by (induction names arbitrary: n best) (auto split: option.split)

lemma scan_committed_exact:
  assumes "\<forall>n. \<not> faults d (NextEntry n)"
  shows "scan_committed d n names acc = Ok (acc @ found d names)"
  using assms by (induction names arbitrary: n acc) (auto split: option.split)

lemma fold_max:
  "fold (\<lambda>i b. Some (case b of None \<Rightarrow> i | Some b \<Rightarrow> max b i)) xs (Some m) = Some (Max (insert m (set xs)))" for m :: nat
proof (induction xs arbitrary: m)
  case (Cons x xs)
  have "Max (insert (max m x) (set xs)) = Max (insert m (insert x (set xs)))"
    by (cases "xs = []") (simp_all add: ac_simps)
  with Cons show ?case by (simp del: Max_insert)
qed simp

lemma found_committed:
  assumes "store_disk d" and "iterates (entries d) listing"
  shows "set (found d listing) = committed_ids d" and "distinct (found d listing)"
proof -
  have names: "\<exists>i<2 ^ 64. name = checkpoint_dir i" if "name \<in> set listing" for name
    using assms that by (auto simp: store_disk_def iterates_def)
  have mem: "j \<in> set (found d ns) \<longleftrightarrow> (\<exists>n\<in>set ns. committed_id d n = Some j)" for j ns
    by (induction ns) (auto split: option.splits)
  have char: "committed_id d n = Some j \<longleftrightarrow> n = checkpoint_dir j \<and> j \<in> committed_ids d" if "n \<in> set listing" for n j
    using names [OF that] by (auto simp: committed_id_dir committed_ids_def split: if_splits)
  have listed: "checkpoint_dir j \<in> set listing" if "j \<in> committed_ids d" for j
    using that assms(2) by (auto simp: committed_ids_def is_committed_def iterates_def split: option.splits)
  show "set (found d listing) = committed_ids d"
    using mem char listed by blast
  have "distinct ns \<Longrightarrow> set ns \<subseteq> set listing \<Longrightarrow> distinct (found d ns)" for ns
  proof (induction ns)
    case (Cons n ns)
    then show ?case using char mem by (auto split: option.split)
  qed simp
  then show "distinct (found d listing)" using assms(2) by (simp add: iterates_def)
qed

lemma latest_exact:
  assumes "store_disk d" and "iterates (entries d) listing" and "quiet d"
  shows "latest_checkpoint d listing = Ok (if committed_ids d = {} then None else Some (Max (committed_ids d)))"
proof (cases "base_exists d")
  case False
  with assms(1) have "committed_ids d = {}" by (simp add: store_disk_def committed_ids_def is_committed_def)
  with False show ?thesis by (simp add: latest_checkpoint_def)
next
  case True
  have "latest_checkpoint d listing = Ok (fold (\<lambda>i b. Some (case b of None \<Rightarrow> i | Some b \<Rightarrow> max b i)) (found d listing) None)"
    using True assms(3) by (simp add: latest_checkpoint_def quiet_def scan_latest_exact)
  then show ?thesis using found_committed(1) [OF assms(1,2)]
    by (cases "found d listing") (auto simp: fold_max)
qed

text \<open>Removing directories.\<close>

lemma remove_dirs_entries:
  "entries (remove_dirs removable is d) = (\<lambda>n. if n \<in> checkpoint_dir ` {i \<in> set is. removable (checkpoint_dir i)} then None else entries d n)"
  by (induction "is" arbitrary: d) (auto simp: fun_eq_iff)

lemma remove_dirs_frame [simp]:
  "base_exists (remove_dirs removable is d) = base_exists d" "faults (remove_dirs removable is d) = faults d"
  by (induction "is" arbitrary: d) auto

text \<open>The newest \<open>n\<close> of a set of ids.\<close>

definition newest :: "nat \<Rightarrow> nat set \<Rightarrow> nat set" where
  "newest n S = {i \<in> S. card {j \<in> S. i < j} < n}"

lemma newest_drop:
  assumes "sorted_wrt (<) xs"
  shows "newest n (set xs) = set (drop (length xs - n) xs)"
proof -
  have card: "card {j \<in> set xs. xs ! k < j} = length xs - Suc k" if "k < length xs" for k
  proof -
    have "{j \<in> set xs. xs ! k < j} = set (drop (Suc k) xs)"
    proof (intro set_eqI iffI)
      fix j assume "j \<in> {j \<in> set xs. xs ! k < j}"
      then obtain m where m: "m < length xs" "j = xs ! m" "xs ! k < xs ! m" by (auto simp: in_set_conv_nth)
      have "k < m"
      proof (rule ccontr)
        assume "\<not> k < m"
        then have "m = k \<or> xs ! m < xs ! k" using sorted_wrt_nth_less [OF assms, of m k] that by fastforce
        with m(3) show False by auto
      qed
      then show "j \<in> set (drop (Suc k) xs)" using m by (auto simp: in_set_conv_nth intro!: exI [of _ "m - Suc k"])
    next
      fix j assume "j \<in> set (drop (Suc k) xs)"
      then obtain m where "m < length xs - Suc k" "j = xs ! (Suc k + m)" by (auto simp: in_set_conv_nth)
      then show "j \<in> {j \<in> set xs. xs ! k < j}" using sorted_wrt_nth_less [OF assms, of k "Suc k + m"] by auto
    qed
    moreover have "distinct (drop (Suc k) xs)" using assms by (simp add: strict_sorted_iff distinct_drop)
    ultimately show ?thesis by (simp add: distinct_card)
  qed
  show ?thesis
  proof (intro set_eqI iffI)
    fix i assume "i \<in> newest n (set xs)"
    then have i: "i \<in> set xs" "card {j \<in> set xs. i < j} < n" by (simp_all add: newest_def)
    from i(1) obtain k where k: "k < length xs" "i = xs ! k" by (auto simp only: in_set_conv_nth)
    with i(2) have few: "card {j \<in> set xs. xs ! k < j} < n" by simp
    from few have "length xs - Suc k < n" unfolding card [OF k(1)] .
    then have "drop (length xs - n) xs ! (k - (length xs - n)) = i" "k - (length xs - n) < length (drop (length xs - n) xs)"
      using k by auto
    then show "i \<in> set (drop (length xs - n) xs)" using nth_mem by blast
  next
    fix i assume "i \<in> set (drop (length xs - n) xs)"
    then obtain m where m: "m < length xs - (length xs - n)" "i = xs ! (length xs - n + m)" by (auto simp: in_set_conv_nth)
    then have "length xs - n + m < length xs" by auto
    with m card [OF this] show "i \<in> newest n (set xs)" by (auto simp: newest_def)
  qed
qed

lemma cleanup_exact:
  assumes "store_disk d" and "iterates (entries d) listing" and "quiet d" and "\<And>dir. removable dir"
  shows "\<exists>d'. cleanup removable n listing d = (d', Ok ()) \<and> store_disk d' \<and> faults d' = faults d \<and>
    (\<forall>dir. entries d' dir = (if \<exists>i. i \<in> committed_ids d - newest n (committed_ids d) \<and> dir = checkpoint_dir i then None else entries d dir))"
proof (cases "base_exists d")
  case False
  with assms(1) have "committed_ids d = {}" by (simp add: store_disk_def committed_ids_def is_committed_def)
  with False assms(1) show ?thesis by (simp add: cleanup_def)
next
  case True
  let ?ids = "sort (found d listing)"
  note found = found_committed [OF assms(1,2)]
  have sorted: "sorted_wrt (<) ?ids" using found(2) by (simp add: strict_sorted_iff)
  have set: "set ?ids = committed_ids d" using found(1) by simp
  have newest: "newest n (committed_ids d) = set (drop (length ?ids - n) ?ids)" using newest_drop [OF sorted, of n] set by simp
  have old: "set (take (length ?ids - n) ?ids) = committed_ids d - newest n (committed_ids d)"
  proof -
    have "distinct ?ids" using found(2) by simp
    then have "set (take (length ?ids - n) ?ids) \<inter> set (drop (length ?ids - n) ?ids) = {}" by (rule set_take_disj_set_drop_if_distinct) simp
    moreover have "set (take (length ?ids - n) ?ids) \<union> set (drop (length ?ids - n) ?ids) = committed_ids d"
      using set by (metis append_take_drop_id set_append)
    ultimately show ?thesis using newest by blast
  qed
  let ?d = "remove_dirs removable (take (length ?ids - n) ?ids) d"
  have run: "cleanup removable n listing d = (?d, Ok ())"
    using True assms(3) by (cases "n < length ?ids") (simp_all add: cleanup_def quiet_def scan_committed_exact Let_def)
  have entry: "entries ?d dir = (if \<exists>i. i \<in> committed_ids d - newest n (committed_ids d) \<and> dir = checkpoint_dir i then None else entries d dir)" for dir
    unfolding remove_dirs_entries using assms(4) old by (auto simp: image_iff)
  have "store_disk ?d" using assms(1) True by (auto simp: store_disk_def remove_dirs_entries split: if_splits)
  with run entry show ?thesis by auto
qed

subsection \<open>Properties\<close>

text \<open>C26. What is saved and committed is what recovery finds. After saving the state of an operator and committing the
  checkpoint, loading returns the saved bytes, the checkpoint counts as committed, every other state and
  every other checkpoint is as before; until the commit, the checkpoint is not visible to recovery.\<close>

theorem save_commit_roundtrip:
  assumes "store_disk d" and "i < 2 ^ 64" and "\<not> faults d (ReadFile (checkpoint_dir i) (state_file op))"
    and "save_state i op data d = (d1, Ok ())" and "commit i d1 = (d2, Ok ())"
  shows "load_state i op d2 = Ok data \<and> committed_ids d1 = committed_ids d \<and> committed_ids d2 = insert i (committed_ids d) \<and>
    store_disk d2 \<and> (\<forall>j<2 ^ 64. \<forall>op'. (j, op') \<noteq> (i, op) \<longrightarrow> load_state j op' d2 = load_state j op' d)"
proof -
  have ids: "committed_ids d1 = committed_ids d" using save_state_committed [OF assms(4)] by (simp add: committed_ids_def)
  have "load_state i op d1 = Ok data" by (rule save_state_load_same [OF assms(4,3)])
  moreover have "load_state j op' d1 = load_state j op' d" if "j < 2 ^ 64" "(j, op') \<noteq> (i, op)" for j op'
    using save_state_load_other [OF assms(4,2) that(1)] that(2) by auto
  moreover have "store_disk d1" by (rule save_state_store_disk [OF assms(1,2,4)])
  ultimately show ?thesis using commit_Ok [OF assms(5,2)] ids by simp
qed

text \<open>Recovery starts from the newest committed checkpoint: on a disk the store wrote, in any listing order, the
  latest checkpoint is the largest committed id, and None when nothing is committed.\<close>

lemma latest_checkpoint_max:
  assumes "store_disk d" and "iterates (entries d) listing" and "quiet d"
  shows "latest_checkpoint d listing = Ok (if committed_ids d = {} then None else Some (Max (committed_ids d)))"
  by (rule latest_exact [OF assms])

text \<open>C27. Cleaning up keeps exactly the newest committed checkpoints: when directories can be removed, afterwards the
  committed ids are the n largest, every remaining checkpoint has all its files, and directories of checkpoints that were never committed stay.\<close>

theorem cleanup_keeps_newest:
  assumes "store_disk d" and "iterates (entries d) listing" and "quiet d" and "\<And>dir. removable dir"
  shows "\<exists>d'. cleanup removable n listing d = (d', Ok ()) \<and> committed_ids d' = newest n (committed_ids d) \<and>
    (\<forall>i<2 ^ 64. i \<notin> committed_ids d - newest n (committed_ids d) \<longrightarrow> entries d' (checkpoint_dir i) = entries d (checkpoint_dir i))"
proof -
  obtain d' where d': "cleanup removable n listing d = (d', Ok ())"
    "\<And>dir. entries d' dir = (if \<exists>i. i \<in> committed_ids d - newest n (committed_ids d) \<and> dir = checkpoint_dir i then None else entries d dir)"
    using cleanup_exact [where removable = removable and n = n, OF assms] by blast
  have old: "(\<exists>k. k \<in> committed_ids d - newest n (committed_ids d) \<and> checkpoint_dir i = checkpoint_dir k) \<longleftrightarrow>
      i \<in> committed_ids d - newest n (committed_ids d)" if "i < 2 ^ 64" for i
    using that checkpoint_dir_inject by (auto simp: committed_ids_def)
  have kept: "entries d' (checkpoint_dir i) = (if i \<in> committed_ids d - newest n (committed_ids d) then None else entries d (checkpoint_dir i))"
    if "i < 2 ^ 64" for i
    using d'(2) [of "checkpoint_dir i"] old [OF that] by simp
  have "committed_ids d' = newest n (committed_ids d)"
  proof (intro set_eqI iffI)
    fix i assume "i \<in> committed_ids d'"
    then have "i < 2 ^ 64" "is_committed d' i" by (auto simp: committed_ids_def)
    then show "i \<in> newest n (committed_ids d)"
      using kept [of i] by (auto simp: committed_ids_def is_committed_def split: if_splits option.splits)
  next
    fix i assume "i \<in> newest n (committed_ids d)"
    then have "i \<in> committed_ids d" "i \<notin> committed_ids d - newest n (committed_ids d)" by (auto simp: newest_def)
    then show "i \<in> committed_ids d'" using kept [of i] by (auto simp: committed_ids_def is_committed_def)
  qed
  with d'(1) kept show ?thesis by auto
qed

text \<open>A disk with one committed checkpoint.\<close>

definition empty_disk :: disk where
  "empty_disk = \<lparr>base_exists = False, entries = Map.empty, faults = (\<lambda>_. False)\<rparr>"

definition one_checkpoint :: disk where
  "one_checkpoint = \<lparr>base_exists = True, entries = [checkpoint_dir 5 \<mapsto> [state_file ''op'' \<mapsto> [1], ''_complete'' \<mapsto> []]], faults = (\<lambda>_. False)\<rparr>"

lemma one_checkpoint_ok: "store_disk one_checkpoint" "quiet one_checkpoint" "iterates (entries one_checkpoint) [checkpoint_dir 5]"
  by (auto simp: store_disk_def one_checkpoint_def quiet_def iterates_def intro: exI [of _ 5])

lemma one_checkpoint_committed: "committed_ids one_checkpoint = {5}"
  using checkpoint_dir_inject [of _ 5] by (auto simp: committed_ids_def is_committed_def one_checkpoint_def split: if_splits)

theorem save_commit_roundtrip_witness:
  "\<exists>d1 d2. save_state 5 ''op'' [1] empty_disk = (d1, Ok ()) \<and> commit 5 d1 = (d2, Ok ()) \<and> load_state 5 ''op'' d2 = Ok [1]"
proof -
  obtain d1 where s: "save_state 5 ''op'' [1] empty_disk = (d1, Ok ())"
    by (simp add: save_state_def create_dir_all_def write_file_def empty_disk_def Let_def)
  then obtain d2 where c: "commit 5 d1 = (d2, Ok ())"
    by (auto simp: save_state_def create_dir_all_def write_file_def empty_disk_def Let_def commit_def)
  have "store_disk empty_disk" by (simp add: store_disk_def empty_disk_def)
  from save_commit_roundtrip [OF this _ _ s c] s c show ?thesis by (simp add: empty_disk_def)
qed

lemma latest_checkpoint_max_example: "latest_checkpoint one_checkpoint [checkpoint_dir 5] = Ok (Some 5)"
  using latest_checkpoint_max [OF one_checkpoint_ok(1,3,2)] by (simp add: one_checkpoint_committed)

theorem cleanup_keeps_newest_witness:
  "\<exists>d'. cleanup (\<lambda>_. True) 0 [checkpoint_dir 5] one_checkpoint = (d', Ok ()) \<and> committed_ids d' = {}"
  using cleanup_keeps_newest [OF one_checkpoint_ok(1,3,2), where removable = "\<lambda>_. True" and n = 0] by (auto simp: newest_def)

end
