(* ===== verification/Coordinator.thy ===== *)
theory Coordinator
  imports Snapshot_Store Stream_Types
begin

text \<open>
  \<open>flume-runtime/src/checkpoint/coordinator.rs\<close>: the task that triggers checkpoints. A barrier
  channel is whether its receiver is still there and what was sent into it. What the acknowledgement
  channel delivers while one checkpoint is collected is a list of events; when it runs out, nothing more
  arrives before the deadline. A source that is not ready for a barrier only delays the send.
\<close>

subsection \<open>State\<close>

type_synonym barrier_channel = "bool \<times> checkpoint_barrier list"

record coordinator =
  next_checkpoint_id :: nat
  barrier_senders :: "barrier_channel list"
  expected_operators :: "string list"
  co_disk :: disk
  max_retained :: nat

definition coordinator_new :: "barrier_channel list \<Rightarrow> string list \<Rightarrow> disk \<Rightarrow> nat \<Rightarrow> coordinator" where
  "coordinator_new senders expected d retained =
     \<lparr>next_checkpoint_id = 1, barrier_senders = senders, expected_operators = expected, co_disk = d, max_retained = retained\<rparr>"

datatype checkpoint_result = Success | Timeout | PipelineShutdown

datatype ack_event = AckReceived checkpoint_ack | AckChannelClosed | DeadlinePassed

subsection \<open>One checkpoint\<close>

fun send_barriers :: "checkpoint_barrier \<Rightarrow> barrier_channel list \<Rightarrow> barrier_channel list \<times> bool" where
  "send_barriers b [] = ([], True)"
| "send_barriers b ((alive, sent) # chs) =
     (if alive then (case send_barriers b chs of (chs', ok) \<Rightarrow> ((alive, sent @ [b]) # chs', ok))
      else ((alive, sent) # chs, False))"

text \<open>The collecting loop; \<open>received\<close> is the hash set of the names acknowledged so far.\<close>

fun collect_acks :: "nat \<Rightarrow> nat \<Rightarrow> ack_event list \<Rightarrow> string list \<Rightarrow> disk \<Rightarrow> disk \<times> checkpoint_result" where
  "collect_acks cp_id expected events received d =
     (if length received < expected then
        (case events of
           [] \<Rightarrow> (d, Timeout)
         | DeadlinePassed # _ \<Rightarrow> (d, Timeout)
         | AckChannelClosed # _ \<Rightarrow> (d, PipelineShutdown)
         | AckReceived ack # events' \<Rightarrow>
             if ack_checkpoint_id ack = cp_id then
               (case save_state cp_id (ack_operator_name ack) (ack_state_bytes ack) d of
                  (d', Ok _) \<Rightarrow> collect_acks cp_id expected events' (List.insert (ack_operator_name ack) received) d'
                | (d', _) \<Rightarrow> (d', Timeout))
             else collect_acks cp_id expected events' received d)
      else
        (case commit cp_id d of
           (d', Ok _) \<Rightarrow> (d', Success)
         | (d', _) \<Rightarrow> (d', Timeout)))"

declare collect_acks.simps [simp del]

definition trigger_and_collect :: "coordinator \<Rightarrow> nat \<Rightarrow> ack_event list \<Rightarrow> coordinator \<times> checkpoint_result" where
  "trigger_and_collect c cp_id events =
     (let (chs, ok) = send_barriers (barrier_new cp_id (EventTimestamp 0)) (barrier_senders c);
          c1 = c\<lparr>barrier_senders := chs\<rparr>
      in if \<not> ok then (c1, PipelineShutdown)
         else (case collect_acks cp_id (length (expected_operators c)) events [] (co_disk c) of
                 (d, r) \<Rightarrow> (c1\<lparr>co_disk := d\<rparr>, r)))"

subsection \<open>The loop\<close>

text \<open>What wakes the loop up: a tick of the interval, or the cancellation, with the events of the checkpoint
  it triggers; a tick also carries the listing order and the removable directories for the clean-up.\<close>

datatype wake_up = Tick "ack_event list" "string list" "string \<Rightarrow> bool" | Cancel "ack_event list"

definition take_id :: "coordinator \<Rightarrow> nat \<times> coordinator" where
  "take_id c = (next_checkpoint_id c, c\<lparr>next_checkpoint_id := next_checkpoint_id c + 1\<rparr>)"

fun coordinator_run :: "coordinator \<Rightarrow> wake_up list \<Rightarrow> coordinator" where
  "coordinator_run c [] = c"
| "coordinator_run c (Cancel events # _) =
     (let (i, c1) = take_id c in fst (trigger_and_collect c1 i events))"
| "coordinator_run c (Tick events listing removable # ws) =
     (let (i, c1) = take_id c in
      case trigger_and_collect c1 i events of
        (c2, Success) \<Rightarrow> coordinator_run (c2\<lparr>co_disk := fst (cleanup removable (max_retained c2) listing (co_disk c2))\<rparr>) ws
      | (c2, Timeout) \<Rightarrow> coordinator_run c2 ws
      | (c2, PipelineShutdown) \<Rightarrow> c2)"

subsection \<open>What a checkpoint achieves\<close>

definition acks_of :: "nat \<Rightarrow> ack_event list \<Rightarrow> checkpoint_ack list" where
  "acks_of i events = List.map_filter (\<lambda>e. case e of AckReceived a \<Rightarrow> if ack_checkpoint_id a = i then Some a else None | _ \<Rightarrow> None) events"

lemma acks_of_simps [simp]:
  "acks_of i [] = []"
  "acks_of i (AckReceived a # es) = (if ack_checkpoint_id a = i then a # acks_of i es else acks_of i es)"
  "acks_of i (AckChannelClosed # es) = acks_of i es" "acks_of i (DeadlinePassed # es) = acks_of i es"
  by (simp_all add: acks_of_def List.map_filter_def)

text \<open>\<open>saved i acks d op\<close>: operator \<open>op\<close> has a state on disk that one of the acknowledgements carried.\<close>

definition saved :: "nat \<Rightarrow> checkpoint_ack list \<Rightarrow> disk \<Rightarrow> string \<Rightarrow> bool" where
  "saved i acks d op \<longleftrightarrow> (\<exists>a\<in>set acks. ack_operator_name a = op \<and> load_state i op d = Ok (ack_state_bytes a))"

definition readable :: "disk \<Rightarrow> bool" where
  "readable d \<longleftrightarrow> (\<forall>dir file. \<not> faults d (ReadFile dir file))"

lemma saved_mono: "set acks \<subseteq> set acks' \<Longrightarrow> saved i acks d op \<Longrightarrow> saved i acks' d op"
  by (auto simp: saved_def)

lemma collect_acks_invariant:
  "collect_acks i n events received d = (d', r) \<Longrightarrow> i < 2 ^ 64 \<Longrightarrow> readable d \<Longrightarrow> store_disk d \<Longrightarrow> distinct received \<Longrightarrow>
    \<forall>op\<in>set received. saved i acks d op \<Longrightarrow>
    store_disk d' \<and> readable d' \<and> committed_ids d' = (if r = Success then insert i (committed_ids d) else committed_ids d) \<and>
    (r = Success \<longrightarrow> (\<exists>received'. distinct received' \<and> n \<le> length received' \<and>
       set received' \<subseteq> set received \<union> ack_operator_name ` set (acks_of i events) \<and>
       (\<forall>op\<in>set received'. saved i (acks @ acks_of i events) d' op)))"
proof (induction i n events received d arbitrary: d' r acks rule: collect_acks.induct)
  case (1 i n events received d)
  note run = 1(3) [unfolded collect_acks.simps [of i n events]]
  show ?case
  proof (cases "length received < n")
    case False
    obtain d1 r1 where c: "commit i d = (d1, r1)" by fastforce
    from commit_Ok [OF c 1(4)] have k: "faults d1 = faults d" "\<And>j op. load_state j op d1 = load_state j op d"
      "committed_ids d1 = (if r1 = Ok () then insert i (committed_ids d) else committed_ids d)" "store_disk d1"
      using 1(6) by auto
    have "d' = d1 \<and> r = (if r1 = Ok () then Success else Timeout)"
      using run False c by (cases r1) auto
    moreover have "saved i (acks @ acks_of i events) d1 op" if "op \<in> set received" for op
      using 1(8) that k(2) by (auto simp: saved_def)
    ultimately show ?thesis using k 1(5,7) False by (auto simp: readable_def)
  next
    case True
    show ?thesis
    proof (cases events)
      case Nil
      with run True 1(5,6) show ?thesis by auto
    next
      case (Cons e es)
      show ?thesis
      proof (cases e)
        case (AckReceived a)
        show ?thesis
        proof (cases "ack_checkpoint_id a = i")
          case False
          with run True Cons AckReceived have "collect_acks i n es received d = (d', r)" by simp
          from 1(2) [OF True Cons AckReceived False this 1(4-8)] Cons AckReceived False show ?thesis by simp
        next
          case own: True
          obtain d1 r1 where s: "save_state i (ack_operator_name a) (ack_state_bytes a) d = (d1, r1)" by fastforce
          have d1: "store_disk d1" "committed_ids d1 = committed_ids d" "readable d1"
            using save_state_store_disk [OF 1(6) 1(4) s] save_state_committed [OF s] 1(5)
              s by (auto simp: committed_ids_def readable_def save_state_def create_dir_all_def write_file_def Let_def io_error_def
                split: if_splits option.splits)
          show ?thesis
          proof (cases "r1 = Ok ()")
            case False
            with run True Cons AckReceived own s have "d' = d1" "r = Timeout" by (cases r1; auto)+
            with d1 show ?thesis by simp
          next
            case ok: True
            let ?rec = "List.insert (ack_operator_name a) received"
            have rest: "collect_acks i n es ?rec d1 = (d', r)"
              using run True Cons AckReceived own s ok by simp
            have saved1: "\<forall>op\<in>set ?rec. saved i (acks @ [a]) d1 op"
            proof
              fix op assume op: "op \<in> set ?rec"
              show "saved i (acks @ [a]) d1 op"
              proof (cases "op = ack_operator_name a")
                case True
                from save_state_load_same [OF s [unfolded ok]] 1(5) True show ?thesis
                  by (auto simp: saved_def readable_def)
              next
                case False
                with op 1(8) have "saved i acks d op" by auto
                moreover have "load_state i op d1 = load_state i op d"
                  by (rule save_state_load_other [OF s 1(4) 1(4)]) (use False in simp)
                ultimately show ?thesis by (auto simp: saved_def)
              qed
            qed
            have "distinct ?rec" using 1(7) by simp
            from 1(1) [OF True Cons AckReceived own s [symmetric] ok rest 1(4) d1(3,1) this saved1] Cons AckReceived own d1(2)
            show ?thesis by fastforce
          qed
        qed
      qed (use run True Cons 1(5,6) in auto)
    qed
  qed
qed

lemma send_barriers_ok: "send_barriers b chs = (chs', True) \<Longrightarrow> chs' = map (\<lambda>(alive, sent). (alive, sent @ [b])) chs"
  by (induction b chs arbitrary: chs' rule: send_barriers.induct) (auto split: if_splits prod.splits)

subsection \<open>Properties\<close>

text \<open>C7. A checkpoint is committed only when it is complete, up to the names the coordinator counts. On a well-formed disk whose files
  can be read, triggering checkpoint i commits i exactly when the result is Success; on a timeout, a closed channel or a failing
  disk the set of committed checkpoints is unchanged. On Success every source has got the barrier, and at least as many
  distinct operators as are expected have acknowledged this checkpoint and have the acknowledged state on disk. The coordinator does not
  compare names: that these are the expected operators holds when the expected names are distinct and the acknowledgements of
  this checkpoint come from expected operators only.\<close>

theorem checkpoint_complete:
  assumes "i < 2 ^ 64" and "store_disk (co_disk c)" and "readable (co_disk c)" and "trigger_and_collect c i events = (c', r)"
  shows "store_disk (co_disk c') \<and>
    committed_ids (co_disk c') = (if r = Success then insert i (committed_ids (co_disk c)) else committed_ids (co_disk c)) \<and>
    (r = Success \<longrightarrow>
       barrier_senders c' = map (\<lambda>(alive, sent). (alive, sent @ [barrier_new i (EventTimestamp 0)])) (barrier_senders c) \<and>
       (\<exists>ops. distinct ops \<and> length (expected_operators c) \<le> length ops \<and> list_all (saved i (acks_of i events) (co_disk c')) ops) \<and>
       (distinct (expected_operators c) \<and> list_all (\<lambda>a. ack_operator_name a \<in> set (expected_operators c)) (acks_of i events) \<longrightarrow>
          list_all (saved i (acks_of i events) (co_disk c')) (expected_operators c)))"
proof -
  let ?b = "barrier_new i (EventTimestamp 0)"
  obtain chs ok where send: "send_barriers ?b (barrier_senders c) = (chs, ok)" by fastforce
  show ?thesis
  proof (cases ok)
    case False
    with send assms(2,4) show ?thesis by (auto simp: trigger_and_collect_def)
  next
    case True
    obtain d r1 where col: "collect_acks i (length (expected_operators c)) events [] (co_disk c) = (d, r1)" by fastforce
    with send True assms(4) have c': "c' = c\<lparr>barrier_senders := chs, co_disk := d\<rparr>" and r: "r = r1"
      by (auto simp: trigger_and_collect_def)
    have "store_disk d \<and> readable d \<and> committed_ids d = (if r1 = Success then insert i (committed_ids (co_disk c)) else committed_ids (co_disk c)) \<and>
      (r1 = Success \<longrightarrow> (\<exists>received'. distinct received' \<and> length (expected_operators c) \<le> length received' \<and>
       set received' \<subseteq> set [] \<union> ack_operator_name ` set (acks_of i events) \<and>
       (\<forall>op\<in>set received'. saved i ([] @ acks_of i events) d op)))"
      by (rule collect_acks_invariant [OF col assms(1,3,2)]) simp_all
    then have inv: "store_disk d" "committed_ids d = (if r1 = Success then insert i (committed_ids (co_disk c)) else committed_ids (co_disk c))"
      and complete: "r1 = Success \<Longrightarrow> \<exists>received'. distinct received' \<and> length (expected_operators c) \<le> length received' \<and>
        set received' \<subseteq> ack_operator_name ` set (acks_of i events) \<and> (\<forall>op\<in>set received'. saved i (acks_of i events) d op)"
      by simp_all
    have all: "list_all (saved i (acks_of i events) d) (expected_operators c)"
      if success: "r1 = Success" and "distinct (expected_operators c)"
        and "list_all (\<lambda>a. ack_operator_name a \<in> set (expected_operators c)) (acks_of i events)"
    proof -
      from complete [OF success] obtain received' where rec: "distinct received'" "length (expected_operators c) \<le> length received'"
        "set received' \<subseteq> ack_operator_name ` set (acks_of i events)" "\<forall>op\<in>set received'. saved i (acks_of i events) d op"
        by blast
      have sub: "set received' \<subseteq> set (expected_operators c)" using rec(3) that(3) by (auto simp: list_all_iff)
      moreover have "card (set (expected_operators c)) \<le> card (set received')"
        using rec(1,2) that(2) by (simp add: distinct_card)
      ultimately have "set received' = set (expected_operators c)" by (intro card_seteq) auto
      with rec(4) show ?thesis by (simp add: list_all_iff)
    qed
    have "\<exists>ops. distinct ops \<and> length (expected_operators c) \<le> length ops \<and> list_all (saved i (acks_of i events) d) ops"
      if "r1 = Success" using complete [OF that] by (auto simp: list_all_iff)
    with inv all send_barriers_ok [of ?b "barrier_senders c" chs] send True show ?thesis by (simp add: c' r)
  qed
qed

definition two_operators :: coordinator where
  "two_operators = coordinator_new [(True, [])] [''a'', ''b''] empty_disk 3"

definition ack :: "nat \<Rightarrow> string \<Rightarrow> bytes \<Rightarrow> ack_event" where
  "ack i op bs = AckReceived \<lparr>ack_checkpoint_id = i, ack_operator_name = op, ack_state_bytes = bs\<rparr>"

lemma collect_acks_step:
  "length received < n \<Longrightarrow> save_state i op bs d = (d', Ok ()) \<Longrightarrow>
     collect_acks i n (ack i op bs # es) received d = collect_acks i n es (List.insert op received) d'"
  by (subst collect_acks.simps) (simp add: ack_def)

lemma save_state_empty: "faults d = (\<lambda>_. False) \<Longrightarrow> \<exists>d'. save_state i op bs d = (d', Ok ()) \<and> faults d' = (\<lambda>_. False) \<and>
    entries d' (checkpoint_dir i) \<noteq> None"
  by (auto simp: save_state_def create_dir_all_def write_file_def Let_def)

lemma collect_two:
  assumes "op1 \<noteq> op2"
  shows "\<exists>d. collect_acks 1 2 [ack 1 op1 [1], ack 1 op2 [2]] [] empty_disk = (d, Success)"
proof -
  obtain d1 where d1: "save_state 1 op1 [1] empty_disk = (d1, Ok ())" "faults d1 = (\<lambda>_. False)"
    using save_state_empty [of empty_disk 1 op1 "[1]"] by (auto simp: empty_disk_def)
  obtain d2 where d2: "save_state 1 op2 [2] d1 = (d2, Ok ())" "faults d2 = (\<lambda>_. False)" "entries d2 (checkpoint_dir 1) \<noteq> None"
    using save_state_empty [OF d1(2), of 1 op2 "[2]"] by blast
  then have c: "\<exists>d3. commit 1 d2 = (d3, Ok ())" by (auto simp: commit_def write_file_def)
  have "collect_acks 1 2 [] [op2, op1] d2 = (case commit 1 d2 of (d', Ok _) \<Rightarrow> (d', Success) | (d', _) \<Rightarrow> (d', Timeout))"
    by (subst collect_acks.simps) simp
  with c have "\<exists>d. collect_acks 1 2 [] [op2, op1] d2 = (d, Success)" by auto
  moreover have "collect_acks 1 2 [ack 1 op1 [1], ack 1 op2 [2]] [] empty_disk = collect_acks 1 2 [ack 1 op2 [2]] (List.insert op1 []) d1"
    by (rule collect_acks_step [OF _ d1(1)]) simp
  moreover have "collect_acks 1 2 [ack 1 op2 [2]] (List.insert op1 []) d1 = collect_acks 1 2 [] (List.insert op2 (List.insert op1 [])) d2"
    by (rule collect_acks_step [OF _ d2(1)]) simp
  moreover have "List.insert op2 (List.insert op1 []) = [op2, op1]" using assms by simp
  ultimately show ?thesis by metis
qed

lemma trigger_two:
  assumes "\<exists>d. collect_acks 1 2 events [] empty_disk = (d, Success)"
  shows "\<exists>c'. trigger_and_collect two_operators 1 events = (c', Success)"
proof -
  have "length (expected_operators two_operators) = 2" by (simp add: two_operators_def coordinator_new_def)
  then show ?thesis using assms unfolding trigger_and_collect_def
    by (auto simp: two_operators_def coordinator_new_def numeral_2_eq_2)
qed

theorem checkpoint_complete_witness:
  "\<exists>c'. trigger_and_collect two_operators 1 [ack 1 ''a'' [1], ack 1 ''b'' [2]] = (c', Success) \<and>
     committed_ids (co_disk c') = {1} \<and> list_all (saved 1 (acks_of 1 [ack 1 ''a'' [1], ack 1 ''b'' [2]]) (co_disk c')) [''a'', ''b'']"
proof -
  obtain c' where run: "trigger_and_collect two_operators 1 [ack 1 ''a'' [1], ack 1 ''b'' [2]] = (c', Success)"
    using trigger_two [OF collect_two [of "''a''" "''b''"]] by auto
  have "committed_ids empty_disk = {}" by (simp add: committed_ids_def is_committed_def empty_disk_def)
  with checkpoint_complete [OF _ _ _ run] run show ?thesis
    by (auto simp: two_operators_def coordinator_new_def readable_def store_disk_def empty_disk_def ack_def)
qed

text \<open>The loop counts names, it does not compare them: acknowledgements of operators nobody expects complete a
  checkpoint too.\<close>

lemma coordinator_counts_strangers:
  "\<exists>c'. trigger_and_collect two_operators 1 [ack 1 ''x'' [1], ack 1 ''y'' [2]] = (c', Success)"
  by (rule trigger_two [OF collect_two]) simp

text \<open>Without expected operators the marker has no directory to go to, and no checkpoint ever succeeds.\<close>

lemma coordinator_without_operators:
  "trigger_and_collect (coordinator_new [(True, [])] [] empty_disk 3) 1 [] =
     (coordinator_new [(True, [barrier_new 1 (EventTimestamp 0)])] [] empty_disk 3, Timeout)"
  by (simp add: trigger_and_collect_def coordinator_new_def collect_acks.simps commit_def write_file_def empty_disk_def io_error_def)

end
