(* ===== verification/Physical_Graph.thy ===== *)
theory Physical_Graph
  imports Logical_Graph Decimals "HOL-Library.Multiset"
begin

text \<open>
  \<open>flume-runtime/src/physical.rs\<close>: the assignment of the parallel instances of every operator to the
  free slots of the task managers, and the edges between the instances. The code's \<open>Result<_, String>\<close>
  is a result whose error carries the message as an execution error. A vector is popped at its end.
\<close>

subsection \<open>Data\<close>

type_synonym task_manager_id = string

record subtask_id =
  st_node :: node_id
  st_operator :: string
  st_index :: nat

record subtask_assignment =
  asg_subtask :: subtask_id
  asg_task_manager :: task_manager_id
  asg_slot :: nat

record physical_edge =
  pe_from :: subtask_id
  pe_to :: subtask_id
  pe_strategy :: partition_strategy

record physical_graph =
  ph_assignments :: "subtask_assignment list"
  ph_edges :: "physical_edge list"

datatype scheduling_strategy = Spread | Pack

record slot_offer =
  offer_tm :: task_manager_id
  offer_total :: nat
  offer_used :: nat

definition subtask_new :: "node_id \<Rightarrow> string \<Rightarrow> nat \<Rightarrow> subtask_id" where
  "subtask_new node name i = \<lparr>st_node = node, st_operator = name, st_index = i\<rparr>"

text \<open>\<open>available\<close> subtracts at type \<open>usize\<close>; \<open>free_slots\<close> is its value when it does not panic.\<close>

definition free_slots :: "slot_offer \<Rightarrow> nat" where "free_slots off = offer_total off - offer_used off"

definition available :: "slot_offer \<Rightarrow> nat res" where
  "available off =
     (if offer_used off \<le> offer_total off then Ok (free_slots off) else Panic ''attempt to subtract with overflow'')"

fun total_available :: "slot_offer list \<Rightarrow> nat res" where
  "total_available [] = Ok 0"
| "total_available (off # offs) = bind_res (available off) (\<lambda>a. bind_res (total_available offs) (\<lambda>b. Ok (a + b)))"

subsection \<open>The queue of slots\<close>

definition slots_of :: "slot_offer \<Rightarrow> (task_manager_id \<times> nat) list" where
  "slots_of off = map (\<lambda>i. (offer_tm off, i)) [offer_used off..<offer_total off]"

text \<open>The interleaving loop of the spread strategy: one slot of every non-empty queue per round.\<close>

function round_robin :: "'a list list \<Rightarrow> 'a list" where
  "round_robin qs =
     (if list_all (\<lambda>q. q = []) qs then []
      else concat (map (take 1) qs) @ round_robin (map (drop 1) qs))"
  by pat_completeness auto
termination
proof (relation "measure (\<lambda>qs. sum_list (map length qs))", goal_cases)
  case (2 qs)
  have le: "sum_list (map length (map (drop 1) qs)) \<le> sum_list (map length qs)" for qs :: "'a list list"
    by (induction qs) auto
  from 2 show ?case
  proof (induction qs)
    case (Cons q qs)
    show ?case
    proof (cases "q = []")
      case True
      with Cons show ?thesis by simp
    next
      case False
      with le [of qs] show ?thesis by (cases q) auto
    qed
  qed simp
qed simp

declare round_robin.simps [simp del]

definition build_slot_queue :: "slot_offer list \<Rightarrow> scheduling_strategy \<Rightarrow> (task_manager_id \<times> nat) list" where
  "build_slot_queue slots strategy =
     (case strategy of
        Spread \<Rightarrow> round_robin (map slots_of (sort_key (\<lambda>off. - int (free_slots off)) slots))
      | Pack \<Rightarrow> concat (map slots_of (sort_key free_slots slots)))"

subsection \<open>Edges between instances\<close>

fun forward_edges :: "nat \<Rightarrow> subtask_assignment list \<Rightarrow> subtask_assignment list \<Rightarrow> physical_edge list res" where
  "forward_edges i [] tos = Ok []"
| "forward_edges i (from # froms) tos =
     (if tos = [] then Panic ''attempt to calculate the remainder with a divisor of zero''
      else bind_res (forward_edges (i + 1) froms tos) (\<lambda>es.
        Ok (\<lparr>pe_from = asg_subtask from, pe_to = asg_subtask (tos ! (i mod length tos)), pe_strategy = ForwardStrategy\<rparr> # es)))"

definition all_to_all :: "partition_strategy \<Rightarrow> subtask_assignment list \<Rightarrow> subtask_assignment list \<Rightarrow> physical_edge list" where
  "all_to_all st froms tos =
     concat (map (\<lambda>from. map (\<lambda>to. \<lparr>pe_from = asg_subtask from, pe_to = asg_subtask to, pe_strategy = st\<rparr>) tos) froms)"

definition edges_for :: "logical_graph \<Rightarrow> subtask_assignment list \<Rightarrow> logical_edge \<Rightarrow> physical_edge list res" where
  "edges_for g asgs e =
     (if edge_from e < length (nodes g) \<and> edge_to e < length (nodes g) then
        (let froms = filter (\<lambda>a. st_node (asg_subtask a) = edge_from e) asgs;
             tos = filter (\<lambda>a. st_node (asg_subtask a) = edge_to e) asgs
         in case edge_strategy e of
              ForwardStrategy \<Rightarrow> forward_edges 0 froms tos
            | HashStrategy \<Rightarrow> Ok (all_to_all HashStrategy froms tos)
            | RebalanceStrategy \<Rightarrow> Ok (all_to_all RebalanceStrategy froms tos)
            | BroadcastStrategy \<Rightarrow> Ok (all_to_all BroadcastStrategy froms tos))
      else Panic ''index out of bounds'')"

fun generate_edges_loop :: "logical_graph \<Rightarrow> subtask_assignment list \<Rightarrow> logical_edge list \<Rightarrow> physical_edge list res" where
  "generate_edges_loop g asgs [] = Ok []"
| "generate_edges_loop g asgs (e # es) =
     bind_res (edges_for g asgs e) (\<lambda>xs. bind_res (generate_edges_loop g asgs es) (\<lambda>ys. Ok (xs @ ys)))"

definition generate_edges :: "logical_graph \<Rightarrow> subtask_assignment list \<Rightarrow> physical_edge list res" where
  "generate_edges g asgs = generate_edges_loop g asgs (edges g)"

subsection \<open>Scheduling\<close>

fun assign_subtasks :: "subtask_id list \<Rightarrow> (task_manager_id \<times> nat) list \<Rightarrow> subtask_assignment list res" where
  "assign_subtasks [] queue = Ok []"
| "assign_subtasks (t # ts) queue =
     (if queue = [] then Err (ExecutionError ''ran out of slots during assignment'')
      else bind_res (assign_subtasks ts (butlast queue)) (\<lambda>as.
        Ok (\<lparr>asg_subtask = t, asg_task_manager = fst (last queue), asg_slot = snd (last queue)\<rparr> # as)))"

definition subtasks_of :: "logical_graph \<Rightarrow> node_id \<Rightarrow> subtask_id list" where
  "subtasks_of g i =
     (let node = nodes g ! i in map (\<lambda>k. subtask_new i (node_name node) k) [0..<node_parallelism node])"

definition total_subtasks :: "logical_graph \<Rightarrow> nat" where
  "total_subtasks g = sum_list (map node_parallelism (nodes g))"

definition not_enough :: "nat \<Rightarrow> nat \<Rightarrow> string" where
  "not_enough need avail = ''not enough slots: need '' @ nat_to_string need @ '', have '' @ nat_to_string avail"

definition schedule :: "logical_graph \<Rightarrow> slot_offer list \<Rightarrow> scheduling_strategy \<Rightarrow> physical_graph res" where
  "schedule g slots strategy =
     bind_res (topological_order g) (\<lambda>topo.
       case topo of
         None \<Rightarrow> Err (ExecutionError ''logical graph contains a cycle'')
       | Some order \<Rightarrow>
           bind_res (total_available slots) (\<lambda>avail.
             if avail < total_subtasks g then Err (ExecutionError (not_enough (total_subtasks g) avail))
             else bind_res (assign_subtasks (concat (map (subtasks_of g) order)) (build_slot_queue slots strategy)) (\<lambda>asgs.
                  bind_res (generate_edges g asgs) (\<lambda>es. Ok \<lparr>ph_assignments = asgs, ph_edges = es\<rparr>))))"

subsection \<open>The slots handed out\<close>

lemma mset_round:
  "mset (concat (map (take 1) qs)) + mset (concat (map (drop 1) qs)) = mset (concat qs)"
proof (induction qs)
  case (Cons q qs)
  have "mset (take 1 q) + mset (drop 1 q) = mset q" by (metis append_take_drop_id mset_append)
  with Cons show ?case by (simp add: ac_simps)
qed simp

lemma mset_round_robin: "mset (round_robin qs) = mset (concat qs)"
proof (induction qs rule: round_robin.induct)
  case (1 qs)
  show ?case
  proof (cases "list_all (\<lambda>q. q = []) qs")
    case True
    then show ?thesis by (simp add: round_robin.simps [of qs] list_all_iff)
  next
    case False
    from 1 [OF False] False mset_round [of qs] show ?thesis by (simp add: round_robin.simps [of qs])
  qed
qed

lemma mset_sorted_slots: "mset (concat (map slots_of (sort_key f slots))) = mset (concat (map slots_of slots))"
  by (simp add: mset_concat flip: sum_mset_sum_list)

lemma mset_slot_queue: "mset (build_slot_queue slots strategy) = mset (concat (map slots_of slots))"
  by (cases strategy) (simp_all add: build_slot_queue_def mset_round_robin mset_sorted_slots)

lemma assign_subtasks_exact:
  "length ts \<le> length queue \<Longrightarrow> assign_subtasks ts queue =
     Ok (map2 (\<lambda>t (tm, i). \<lparr>asg_subtask = t, asg_task_manager = tm, asg_slot = i\<rparr>) ts (rev queue))"
proof (induction ts arbitrary: queue)
  case (Cons t ts)
  then obtain q x where q: "queue = q @ [x]" by (cases queue rule: rev_cases) auto
  with Cons show ?case by (cases x) simp
qed simp

lemma total_available_exact:
  "list_all (\<lambda>off. offer_used off \<le> offer_total off) slots \<Longrightarrow>
     total_available slots = Ok (length (concat (map slots_of slots)))"
  by (induction slots) (simp_all add: available_def free_slots_def slots_of_def)

text \<open>The free slots of the offers, each task manager offering once.\<close>

definition offers_ok :: "slot_offer list \<Rightarrow> bool" where
  "offers_ok slots \<longleftrightarrow> list_all (\<lambda>off. offer_used off \<le> offer_total off) slots \<and> distinct (map offer_tm slots)"

definition is_free :: "slot_offer list \<Rightarrow> task_manager_id \<times> nat \<Rightarrow> bool" where
  "is_free slots s \<longleftrightarrow> list_ex (\<lambda>off. offer_tm off = fst s \<and> offer_used off \<le> snd s \<and> snd s < offer_total off) slots"

lemma free_slot_list:
  assumes "offers_ok slots"
  shows "distinct (concat (map slots_of slots))" and "set (concat (map slots_of slots)) = {s. is_free slots s}"
proof -
  have "distinct (map offer_tm slots) \<Longrightarrow> distinct (concat (map slots_of slots))"
    by (induction slots) (auto simp: slots_of_def distinct_map inj_on_def)
  then show "distinct (concat (map slots_of slots))" using assms by (simp add: offers_ok_def)
  show "set (concat (map slots_of slots)) = {s. is_free slots s}"
    by (auto simp: slots_of_def is_free_def list_ex_iff image_iff)
qed

lemma length_slot_queue: "length (build_slot_queue slots strategy) = length (concat (map slots_of slots))"
  by (metis mset_slot_queue size_mset)

lemma slot_queue_free:
  assumes "offers_ok slots"
  shows "distinct (build_slot_queue slots strategy)" and "set (build_slot_queue slots strategy) = {s. is_free slots s}"
  using free_slot_list [OF assms] mset_eq_imp_distinct_iff [OF mset_slot_queue] mset_eq_setD [OF mset_slot_queue]
  by metis+

text \<open>The subtasks of a graph, in scheduling order.\<close>

lemma length_subtasks:
  assumes "distinct order" and "set order = {..<length (nodes g)}"
  shows "length (concat (map (subtasks_of g) order)) = total_subtasks g"
proof -
  have "mset order = mset [0..<length (nodes g)]"
    using mset_set_set [OF assms(1)] assms(2) by (simp add: atLeast0LessThan)
  then have "sum_list (map (\<lambda>i. node_parallelism (nodes g ! i)) order) =
      sum_list (map (\<lambda>i. node_parallelism (nodes g ! i)) [0..<length (nodes g)])"
    by (simp flip: sum_mset_sum_list add: \<open>mset order = mset [0..<length (nodes g)]\<close> del: mset_upt)
  also have "map (\<lambda>i. node_parallelism (nodes g ! i)) [0..<length (nodes g)] = map node_parallelism (nodes g)"
    by (rule nth_equalityI) simp_all
  finally show ?thesis by (simp add: length_concat subtasks_of_def Let_def comp_def total_subtasks_def)
qed

lemma distinct_subtasks: "distinct order \<Longrightarrow> distinct (concat (map (subtasks_of g) order))"
  by (induction order) (auto simp: subtasks_of_def subtask_new_def Let_def distinct_map inj_on_def)

lemma set_subtasks:
  "set order = {..<length (nodes g)} \<Longrightarrow> set (concat (map (subtasks_of g) order)) =
     {subtask_new i (node_name (nodes g ! i)) k | i k. i < length (nodes g) \<and> k < node_parallelism (nodes g ! i)}"
  by (auto simp: subtasks_of_def Let_def)

subsection \<open>The edges\<close>

definition instance_of :: "logical_graph \<Rightarrow> node_id \<Rightarrow> nat \<Rightarrow> subtask_id" where
  "instance_of g i k = subtask_new i (node_name (nodes g ! i)) k"

definition instance_edge :: "logical_graph \<Rightarrow> logical_edge \<Rightarrow> nat \<Rightarrow> nat \<Rightarrow> physical_edge" where
  "instance_edge g e k l = \<lparr>pe_from = instance_of g (edge_from e) k, pe_to = instance_of g (edge_to e) l, pe_strategy = edge_strategy e\<rparr>"

text \<open>The edges a logical edge stands for: \<open>k\<close> to \<open>k mod q\<close> for a forward edge, all pairs otherwise.\<close>

definition expected_edges :: "logical_graph \<Rightarrow> logical_edge \<Rightarrow> physical_edge list" where
  "expected_edges g e =
     (let p = node_parallelism (nodes g ! edge_from e); q = node_parallelism (nodes g ! edge_to e)
      in case edge_strategy e of
           ForwardStrategy \<Rightarrow> map (\<lambda>k. instance_edge g e k (k mod q)) [0..<p]
         | _ \<Rightarrow> concat (map (\<lambda>k. map (instance_edge g e k) [0..<q]) [0..<p]))"

lemma forward_edges_exact:
  "tos \<noteq> [] \<Longrightarrow> forward_edges i froms tos =
     Ok (map (\<lambda>k. \<lparr>pe_from = asg_subtask (froms ! k), pe_to = asg_subtask (tos ! ((i + k) mod length tos)),
                   pe_strategy = ForwardStrategy\<rparr>) [0..<length froms])"
proof (induction i froms tos rule: forward_edges.induct)
  case (2 i x froms tos)
  let ?f = "\<lambda>i froms k. \<lparr>pe_from = asg_subtask (froms ! k), pe_to = asg_subtask (tos ! ((i + k) mod length tos)),
      pe_strategy = ForwardStrategy\<rparr>"
  have "map (?f i (x # froms)) [0..<length (x # froms)] = ?f i (x # froms) 0 # map (?f (i + 1) froms) [0..<length froms]"
    by (simp add: upt_rec [of 0 "Suc (length froms)"] map_Suc_upt [symmetric] comp_def del: upt_Suc)
  with 2 show ?case by simp
qed simp

text \<open>The instances of one node among the assignments, in order.\<close>

lemma instances_of_node:
  assumes "map asg_subtask asgs = concat (map (subtasks_of g) order)" and "distinct order" and "i \<in> set order"
  shows "map asg_subtask (filter (\<lambda>a. st_node (asg_subtask a) = i) asgs) =
    map (instance_of g i) [0..<node_parallelism (nodes g ! i)]"
proof -
  have own: "filter (\<lambda>t. st_node t = i) (subtasks_of g j) = (if j = i then subtasks_of g i else [])" for j
    by (auto simp: subtasks_of_def Let_def subtask_new_def filter_empty_conv intro!: filter_True)
  have "filter (\<lambda>t. st_node t = i) (concat (map (subtasks_of g) order)) = subtasks_of g i"
    using assms(2,3)
  proof (induction order)
    case (Cons j order)
    have "filter (\<lambda>t. st_node t = i) (concat (map (subtasks_of g) order)) = []" if "i \<notin> set order"
      using that by (induction order) (auto simp: own)
    with Cons show ?case by (auto simp: own)
  qed simp
  then have "filter (\<lambda>t. st_node t = i) (map asg_subtask asgs) = subtasks_of g i" by (simp only: assms(1))
  then show ?thesis by (simp add: filter_map comp_def subtasks_of_def Let_def instance_of_def)
qed

lemma edges_for_exact:
  assumes "map asg_subtask asgs = concat (map (subtasks_of g) order)" and "distinct order"
    and "set order = {..<length (nodes g)}" and "edge_from e < length (nodes g)" and "edge_to e < length (nodes g)"
    and "list_all (\<lambda>n. 0 < node_parallelism n) (nodes g)"
  shows "edges_for g asgs e = Ok (expected_edges g e)"
proof -
  let ?froms = "filter (\<lambda>a. st_node (asg_subtask a) = edge_from e) asgs"
  let ?tos = "filter (\<lambda>a. st_node (asg_subtask a) = edge_to e) asgs"
  let ?p = "node_parallelism (nodes g ! edge_from e)" and ?q = "node_parallelism (nodes g ! edge_to e)"
  have froms: "map asg_subtask ?froms = map (instance_of g (edge_from e)) [0..<?p]"
    and tos: "map asg_subtask ?tos = map (instance_of g (edge_to e)) [0..<?q]"
    using instances_of_node [OF assms(1,2)] assms(3-5) by auto
  then have len: "length ?froms = ?p" "length ?tos = ?q" by (metis length_map length_upt minus_nat.diff_0)+
  have "0 < ?q" using assms(5,6) by (simp add: list_all_length)
  then have ne: "?tos \<noteq> []" using len(2) by force
  have fk: "asg_subtask (?froms ! k) = instance_of g (edge_from e) k" if "k < ?p" for k
    using arg_cong [OF froms, of "\<lambda>xs. xs ! k"] that len by simp
  have tk: "asg_subtask (?tos ! k) = instance_of g (edge_to e) k" if "k < ?q" for k
    using arg_cong [OF tos, of "\<lambda>xs. xs ! k"] that len by simp
  have forward: "forward_edges 0 ?froms ?tos = Ok (map (\<lambda>k. instance_edge g e k (k mod ?q)) [0..<?p])"
    if "edge_strategy e = ForwardStrategy"
    using forward_edges_exact [OF ne, of 0 ?froms] that fk tk \<open>0 < ?q\<close> unfolding len
    by (simp add: instance_edge_def)
  have all: "all_to_all st ?froms ?tos = concat (map (\<lambda>k. map (instance_edge g e k) [0..<?q]) [0..<?p])"
    if "edge_strategy e = st" for st
  proof -
    have "all_to_all st ?froms ?tos =
        concat (map (\<lambda>f. map (\<lambda>t. \<lparr>pe_from = f, pe_to = t, pe_strategy = st\<rparr>) (map asg_subtask ?tos)) (map asg_subtask ?froms))"
      by (simp add: all_to_all_def comp_def)
    then show ?thesis unfolding froms tos using that by (simp add: comp_def instance_edge_def [abs_def])
  qed
  show ?thesis using forward all assms(4,5)
    by (cases "edge_strategy e") (simp_all add: edges_for_def expected_edges_def Let_def)
qed

lemma generate_edges_exact:
  assumes "map asg_subtask asgs = concat (map (subtasks_of g) order)" and "distinct order"
    and "set order = {..<length (nodes g)}" and "list_all (\<lambda>n. 0 < node_parallelism n) (nodes g)"
    and "list_all (\<lambda>e. edge_from e < length (nodes g) \<and> edge_to e < length (nodes g)) es"
  shows "generate_edges_loop g asgs es = Ok (concat (map (expected_edges g) es))"
  using assms(5) by (induction es) (simp_all add: edges_for_exact [OF assms(1-3) _ _ assms(4)])

text \<open>The result of scheduling, in one lemma.\<close>

definition schedulable :: "logical_graph \<Rightarrow> slot_offer list \<Rightarrow> bool" where
  "schedulable g slots \<longleftrightarrow> edges_in_range g \<and> list_all (\<lambda>n. 0 < node_parallelism n) (nodes g) \<and> offers_ok slots"

lemma schedule_result:
  assumes "schedulable g slots" and "acyclic (edge_relation g)"
    and "total_subtasks g \<le> length (concat (map slots_of slots))"
  shows "\<exists>order asgs. distinct order \<and> set order = {..<length (nodes g)} \<and>
    map asg_subtask asgs = concat (map (subtasks_of g) order) \<and>
    map (\<lambda>a. (asg_task_manager a, asg_slot a)) asgs = take (total_subtasks g) (rev (build_slot_queue slots strategy)) \<and>
    schedule g slots strategy = Ok \<lparr>ph_assignments = asgs, ph_edges = concat (map (expected_edges g) (edges g))\<rparr>"
proof -
  from assms have range: "edges_in_range g" and par: "list_all (\<lambda>n. 0 < node_parallelism n) (nodes g)"
    and used: "list_all (\<lambda>off. offer_used off \<le> offer_total off) slots"
    by (auto simp: schedulable_def offers_ok_def)
  from topological_order_exact [OF range] assms(2) obtain order where
    topo: "topological_order g = Ok (Some order)" and order: "distinct order" "set order = {..<length (nodes g)}" by auto
  let ?ts = "concat (map (subtasks_of g) order)" and ?q = "build_slot_queue slots strategy"
  have len: "length ?ts = total_subtasks g" by (rule length_subtasks [OF order])
  then have le: "length ?ts \<le> length ?q" using assms(3) by (simp add: length_slot_queue)
  let ?asgs = "map2 (\<lambda>t (tm, i). \<lparr>asg_subtask = t, asg_task_manager = tm, asg_slot = i\<rparr>) ?ts (rev ?q)"
  have "map asg_subtask ?asgs = map fst (zip ?ts (rev ?q))" by (auto simp: split_def)
  also have "\<dots> = ?ts" using le by (simp add: map_fst_zip_take)
  finally have ts: "map asg_subtask ?asgs = ?ts" .
  have "map (\<lambda>a. (asg_task_manager a, asg_slot a)) ?asgs = map snd (zip ?ts (rev ?q))" by (auto simp: split_def)
  also have "\<dots> = take (total_subtasks g) (rev ?q)" using le len by (simp add: map_snd_zip_take min_absorb1)
  finally have slots: "map (\<lambda>a. (asg_task_manager a, asg_slot a)) ?asgs = take (total_subtasks g) (rev ?q)" .
  have es: "generate_edges g ?asgs = Ok (concat (map (expected_edges g) (edges g)))"
    using generate_edges_exact [OF ts order par] range by (simp add: generate_edges_def edges_in_range_def)
  have "schedule g slots strategy = Ok \<lparr>ph_assignments = ?asgs, ph_edges = concat (map (expected_edges g) (edges g))\<rparr>"
    using topo total_available_exact [OF used] assms(3) assign_subtasks_exact [OF le] es
    by (simp add: schedule_def not_less)
  with order ts slots show ?thesis by blast
qed

lemma too_few_slots:
  assumes "schedulable g slots" and "acyclic (edge_relation g)"
    and "length (concat (map slots_of slots)) < total_subtasks g"
  shows "schedule g slots strategy = Err (ExecutionError (not_enough (total_subtasks g) (length (concat (map slots_of slots)))))"
proof -
  from assms(1) have range: "edges_in_range g" and used: "list_all (\<lambda>off. offer_used off \<le> offer_total off) slots"
    by (auto simp: schedulable_def offers_ok_def)
  obtain order where topo: "topological_order g = Ok (Some order)"
    using topological_order_exact [OF range] assms(2) by auto
  show ?thesis
    using assms(3) by (simp only: schedule_def topo total_available_exact [OF used] bind_res.simps option.case if_True)
qed

subsection \<open>Properties\<close>

text \<open>C16. Scheduling is correct for well-formed input (edges between existing nodes, every node at least one
  instance, every task manager offering once). A cyclic graph and too few slots are errors. Otherwise
  every instance of every node is assigned exactly once, and no two instances share a slot, which is always a
  free slot of an offer.\<close>

theorem schedule_correct:
  assumes "schedulable g slots"
  shows "if \<not> acyclic (edge_relation g) then schedule g slots strategy = Err (ExecutionError ''logical graph contains a cycle'')
    else if length (concat (map slots_of slots)) < total_subtasks g
    then schedule g slots strategy = Err (ExecutionError (not_enough (total_subtasks g) (length (concat (map slots_of slots)))))
    else \<exists>pg. schedule g slots strategy = Ok pg \<and> distinct (map asg_subtask (ph_assignments pg)) \<and>
      asg_subtask ` set (ph_assignments pg) = {instance_of g i k | i k. i < length (nodes g) \<and> k < node_parallelism (nodes g ! i)} \<and>
      distinct (map (\<lambda>a. (asg_task_manager a, asg_slot a)) (ph_assignments pg)) \<and>
      list_all (\<lambda>a. is_free slots (asg_task_manager a, asg_slot a)) (ph_assignments pg)"
proof -
  have range: "edges_in_range g" and offers: "offers_ok slots" using assms by (auto simp: schedulable_def)
  have used: "list_all (\<lambda>off. offer_used off \<le> offer_total off) slots" using offers by (simp add: offers_ok_def)
  consider (cycle) "\<not> acyclic (edge_relation g)" | (few) "acyclic (edge_relation g)" "length (concat (map slots_of slots)) < total_subtasks g"
    | (ok) "acyclic (edge_relation g)" "total_subtasks g \<le> length (concat (map slots_of slots))"
    by (meson not_less)
  then show ?thesis
  proof cases
    case cycle
    with topological_order_exact [OF range] show ?thesis by (simp add: schedule_def)
  next
    case few
    with too_few_slots [OF assms few, of strategy] show ?thesis by (simp only: if_True if_False simp_thms)
  next
    case ok
    from schedule_result [OF assms ok, of strategy] obtain order asgs where
      r: "distinct order" "set order = {..<length (nodes g)}" "map asg_subtask asgs = concat (map (subtasks_of g) order)"
        "map (\<lambda>a. (asg_task_manager a, asg_slot a)) asgs = take (total_subtasks g) (rev (build_slot_queue slots strategy))"
        "schedule g slots strategy = Ok \<lparr>ph_assignments = asgs, ph_edges = concat (map (expected_edges g) (edges g))\<rparr>"
      by blast
    have "asg_subtask ` set asgs = set (concat (map (subtasks_of g) order))" by (metis list.set_map r(3))
    then have all: "asg_subtask ` set asgs = {instance_of g i k | i k. i < length (nodes g) \<and> k < node_parallelism (nodes g ! i)}"
      unfolding set_subtasks [OF r(2)] instance_of_def .
    have free: "(asg_task_manager a, asg_slot a) \<in> set (build_slot_queue slots strategy)" if "a \<in> set asgs" for a
    proof -
      have "(asg_task_manager a, asg_slot a) \<in> set (map (\<lambda>a. (asg_task_manager a, asg_slot a)) asgs)" using that by auto
      then show ?thesis unfolding r(4) by (auto dest: in_set_takeD)
    qed
    have "distinct (map (\<lambda>a. (asg_task_manager a, asg_slot a)) asgs)"
      unfolding r(4) using slot_queue_free(1) [OF offers, of strategy] by (simp add: distinct_take)
    moreover have "list_all (\<lambda>a. is_free slots (asg_task_manager a, asg_slot a)) asgs"
      using free slot_queue_free(2) [OF offers, of strategy] by (simp add: list_all_iff)
    moreover have "distinct (map asg_subtask asgs)" unfolding r(3) by (rule distinct_subtasks [OF r(1)])
    ultimately have "\<exists>pg. schedule g slots strategy = Ok pg \<and> distinct (map asg_subtask (ph_assignments pg)) \<and>
        asg_subtask ` set (ph_assignments pg) = {instance_of g i k | i k. i < length (nodes g) \<and> k < node_parallelism (nodes g ! i)} \<and>
        distinct (map (\<lambda>a. (asg_task_manager a, asg_slot a)) (ph_assignments pg)) \<and>
        list_all (\<lambda>a. is_free slots (asg_task_manager a, asg_slot a)) (ph_assignments pg)"
      using all by (intro exI [of _ "\<lparr>ph_assignments = asgs, ph_edges = concat (map (expected_edges g) (edges g))\<rparr>"] conjI r(5))
        simp_all
    with ok show ?thesis by (simp only: not_less [symmetric] not_True_eq_False if_False simp_thms if_True)
  qed
qed

text \<open>C31. The physical edges are exactly those the logical edges stand for, edge by edge in order: a forward edge
  connects instance k to instance k modulo the target's parallelism, any other edge connects all pairs.\<close>

theorem physical_edges_exact:
  assumes "schedulable g slots" and "schedule g slots strategy = Ok pg"
  shows "ph_edges pg = concat (map (expected_edges g) (edges g))"
proof -
  have range: "edges_in_range g" and used: "list_all (\<lambda>off. offer_used off \<le> offer_total off) slots"
    using assms(1) by (auto simp: schedulable_def offers_ok_def)
  have acyclic: "acyclic (edge_relation g)"
    using topological_order_exact [OF range] assms(2) by (auto simp: schedule_def split: if_splits)
  have "total_subtasks g \<le> length (concat (map slots_of slots))"
  proof (rule ccontr)
    assume "\<not> total_subtasks g \<le> length (concat (map slots_of slots))"
    then have "length (concat (map slots_of slots)) < total_subtasks g" by (simp only: not_le)
    from too_few_slots [OF assms(1) acyclic this, of strategy] assms(2) show False by simp
  qed
  from schedule_result [OF assms(1) acyclic this, of strategy] obtain asgs where
    "schedule g slots strategy = Ok \<lparr>ph_assignments = asgs, ph_edges = concat (map (expected_edges g) (edges g))\<rparr>" by blast
  with assms(2) show ?thesis by auto
qed

definition two_stage :: logical_graph where
  "two_stage =
     (let (g1, a) = add_node graph_new ''s'' SourceNode 1; (g2, b) = add_node g1 ''m'' OperatorNode 2
      in add_edge g2 a b RebalanceStrategy)"

definition cluster :: "slot_offer list" where
  "cluster = [\<lparr>offer_tm = ''a'', offer_total = 4, offer_used = 0\<rparr>, \<lparr>offer_tm = ''b'', offer_total = 1, offer_used = 0\<rparr>]"

lemma two_stage_simps:
  "nodes two_stage = [\<lparr>node_ident = 0, node_name = ''s'', node_kind_of = SourceNode, node_parallelism = 1\<rparr>,
     \<lparr>node_ident = 1, node_name = ''m'', node_kind_of = OperatorNode, node_parallelism = 2\<rparr>]"
  "edges two_stage = [\<lparr>edge_from = 0, edge_to = 1, edge_strategy = RebalanceStrategy\<rparr>]"
  by (simp_all add: two_stage_def graph_new_def add_node_def add_edge_def Let_def)

lemma two_stage_ok: "schedulable two_stage cluster"
  by (simp add: schedulable_def edges_in_range_def two_stage_simps offers_ok_def cluster_def)

lemma two_stage_acyclic: "acyclic (edge_relation two_stage)"
proof -
  have "acyclic {(0 :: nat, 1 :: nat)}" by (rule acyclicI_order [of _ "\<lambda>x. 1 - x"]) simp
  then show ?thesis by (simp add: edge_relation_def two_stage_simps)
qed

theorem schedule_correct_witness:
  "schedulable two_stage cluster \<and>
   (\<exists>pg. schedule two_stage cluster Spread = Ok pg \<and> distinct (map asg_subtask (ph_assignments pg)))"
proof -
  have "\<not> length (concat (map slots_of cluster)) < total_subtasks two_stage"
    by (simp add: cluster_def slots_of_def total_subtasks_def two_stage_simps)
  then show ?thesis using schedule_correct [OF two_stage_ok, of Spread] two_stage_ok two_stage_acyclic by auto
qed

text \<open>The run of a graph with one node shows which slots the strategies take first.\<close>

definition one_stage :: logical_graph where
  "one_stage = fst (add_node graph_new ''s'' SourceNode 2)"

definition placed_on :: "physical_graph res \<Rightarrow> (string \<times> nat) list" where
  "placed_on r = (case r of Ok pg \<Rightarrow> map (\<lambda>a. (asg_task_manager a, asg_slot a)) (ph_assignments pg) | _ \<Rightarrow> [])"

lemma one_stage_simps:
  "nodes one_stage = [\<lparr>node_ident = 0, node_name = ''s'', node_kind_of = SourceNode, node_parallelism = 2\<rparr>]"
  "edges one_stage = []"
  by (simp_all add: one_stage_def graph_new_def add_node_def Let_def)

lemma one_stage_order: "topological_order one_stage = Ok (Some [0])"
  by (simp add: topological_order_def one_stage_simps)

text \<open>Spreading two instances over managers a (4 free slots) and b (1): the queue is popped at its end,
  where the slots of the largest offer are left over, and both instances land on a.\<close>

lemma schedule_spread_clusters:
  "placed_on (schedule one_stage cluster Spread) = [(''a'', 3), (''a'', 2)]"
  by (simp add: placed_on_def schedule_def one_stage_order one_stage_simps cluster_def available_def free_slots_def
      total_subtasks_def build_slot_queue_def round_robin.simps slots_of_def subtasks_of_def generate_edges_def upt_rec)

text \<open>Packing is meant to fill the most used manager first; the end of the queue is the emptiest one.\<close>

lemma schedule_pack_takes_emptiest:
  "placed_on (schedule one_stage cluster Pack) = [(''a'', 3), (''a'', 2)]"
  by (simp add: placed_on_def schedule_def one_stage_order one_stage_simps cluster_def available_def free_slots_def
      total_subtasks_def build_slot_queue_def slots_of_def subtasks_of_def generate_edges_def upt_rec)

theorem physical_edges_exact_witness:
  "schedulable two_stage cluster \<and> (\<exists>pg. schedule two_stage cluster Pack = Ok pg \<and> length (ph_edges pg) = 2)"
proof -
  have "total_subtasks two_stage \<le> length (concat (map slots_of cluster))"
    by (simp add: cluster_def slots_of_def total_subtasks_def two_stage_simps)
  from schedule_result [OF two_stage_ok two_stage_acyclic this, of Pack]
  obtain pg where pg: "schedule two_stage cluster Pack = Ok pg" by blast
  from physical_edges_exact [OF two_stage_ok pg] have "length (ph_edges pg) = 2"
    by (simp add: two_stage_simps expected_edges_def upt_rec)
  with pg two_stage_ok show ?thesis by blast
qed

end
