(* ===== verification/Slot_Manager.thy ===== *)
theory Slot_Manager
  imports Flume_Prelude
begin

text \<open>
  The execution slots of a task manager: \<open>flume-network/src/slot_manager.rs\<close>, and the event loop that drives
  them, \<open>run_event_loop\<close> of \<open>flume-server/src/tm.rs\<close>. The specification is a map from the
  deployed subtasks to their jobs, bounded by the number of slots.
\<close>

subsection \<open>Slots\<close>

datatype slot_state = Free | Occupied (slot_job: string) (slot_subtask: string)

record slot_manager =
  slot_states :: "slot_state list"
  subtask_to_slot :: "string \<rightharpoonup> nat"

definition slot_manager_new :: "nat \<Rightarrow> slot_manager" where
  "slot_manager_new num_slots = \<lparr>slot_states = replicate num_slots Free, subtask_to_slot = Map.empty\<rparr>"

definition total_slots :: "slot_manager \<Rightarrow> nat" where "total_slots sm = length (slot_states sm)"

definition slots_in_use :: "slot_manager \<Rightarrow> nat" where "slots_in_use sm = card (dom (subtask_to_slot sm))"

definition slots_available :: "slot_manager \<Rightarrow> nat res" where
  "slots_available sm =
     (if slots_in_use sm \<le> total_slots sm then Ok (total_slots sm - slots_in_use sm)
      else Panic ''attempt to subtract with overflow'')"

fun position_free :: "slot_state list \<Rightarrow> nat option" where
  "position_free [] = None"
| "position_free (s # ss) = (if s = Free then Some 0 else map_option Suc (position_free ss))"

definition deploy :: "slot_manager \<Rightarrow> string \<Rightarrow> string \<Rightarrow> slot_manager \<times> nat option" where
  "deploy sm job sub =
     (case position_free (slot_states sm) of
        None \<Rightarrow> (sm, None)
      | Some i \<Rightarrow>
          (sm\<lparr>slot_states := (slot_states sm)[i := Occupied job sub],
              subtask_to_slot := (subtask_to_slot sm)(sub \<mapsto> i)\<rparr>, Some i))"

definition cancel :: "slot_manager \<Rightarrow> string \<Rightarrow> (slot_manager \<times> bool) res" where
  "cancel sm sub =
     (case subtask_to_slot sm sub of
        None \<Rightarrow> Ok (sm, False)
      | Some i \<Rightarrow>
          if i < length (slot_states sm)
          then Ok (sm\<lparr>slot_states := (slot_states sm)[i := Free], subtask_to_slot := (subtask_to_slot sm)(sub := None)\<rparr>, True)
          else Panic ''index out of bounds'')"

text \<open>\<open>cancel_job\<close> collects the subtasks of the job in an iteration order of the hash map, then cancels each.\<close>

fun collect_job :: "slot_manager \<Rightarrow> string \<Rightarrow> string list \<Rightarrow> string list res" where
  "collect_job sm job [] = Ok []"
| "collect_job sm job (sub # subs) =
     (case subtask_to_slot sm sub of
        None \<Rightarrow> collect_job sm job subs
      | Some i \<Rightarrow>
          if length (slot_states sm) \<le> i then Panic ''index out of bounds''
          else bind_res (collect_job sm job subs) (\<lambda>rest.
            Ok (case slot_states sm ! i of
                  Occupied jid _ \<Rightarrow> if jid = job then sub # rest else rest
                | Free \<Rightarrow> rest)))"

fun cancel_all :: "slot_manager \<Rightarrow> string list \<Rightarrow> slot_manager res" where
  "cancel_all sm [] = Ok sm"
| "cancel_all sm (sub # subs) = bind_res (cancel sm sub) (\<lambda>(sm', _). cancel_all sm' subs)"

definition cancel_job :: "slot_manager \<Rightarrow> string list \<Rightarrow> string \<Rightarrow> (slot_manager \<times> nat) res" where
  "cancel_job sm keys job =
     bind_res (collect_job sm job keys) (\<lambda>to_remove.
       bind_res (cancel_all sm to_remove) (\<lambda>sm'. Ok (sm', length to_remove)))"

definition is_deployed :: "slot_manager \<Rightarrow> string \<Rightarrow> bool" where
  "is_deployed sm sub \<longleftrightarrow> subtask_to_slot sm sub \<noteq> None"

definition get_slot :: "slot_manager \<Rightarrow> nat \<Rightarrow> slot_state option" where
  "get_slot sm i = (if i < length (slot_states sm) then Some (slot_states sm ! i) else None)"

definition deployed_subtasks :: "slot_manager \<Rightarrow> string list \<Rightarrow> bool" where
  "deployed_subtasks sm subs \<longleftrightarrow> iterates (subtask_to_slot sm) subs"

subsection \<open>The event loop of a task manager\<close>

text \<open>
  \<open>TmEvent\<close> with its replies. The job of a cancellation is not looked at, and a barrier is
  only logged. The loop ends when it is cancelled or the channel is closed.
\<close>

datatype tm_event =
    DeploySubtask string string
  | CancelSubtask string string
  | InjectBarrier string nat
  | TmCancelled

datatype tm_reply = DeployReply "(unit + string)" | CancelReply bool

definition tm_handle :: "slot_manager \<Rightarrow> tm_event \<Rightarrow> (slot_manager \<times> tm_reply list) res" where
  "tm_handle sm ev =
     (case ev of
        DeploySubtask job sub \<Rightarrow>
          (case deploy sm job sub of
             (sm', Some _) \<Rightarrow> Ok (sm', [DeployReply (Inl ())])
           | (sm', None) \<Rightarrow> Ok (sm', [DeployReply (Inr ''no free slots'')]))
      | CancelSubtask job sub \<Rightarrow> bind_res (cancel sm sub) (\<lambda>(sm', cancelled). Ok (sm', [CancelReply cancelled]))
      | InjectBarrier job cp \<Rightarrow> Ok (sm, [])
      | TmCancelled \<Rightarrow> Ok (sm, []))"

fun run_event_loop :: "slot_manager \<Rightarrow> tm_event list \<Rightarrow> (slot_manager \<times> tm_reply list) res" where
  "run_event_loop sm [] = Ok (sm, [])"
| "run_event_loop sm (ev # evs) =
     (if ev = TmCancelled then Ok (sm, [])
      else bind_res (tm_handle sm ev) (\<lambda>(sm', replies).
        bind_res (run_event_loop sm' evs) (\<lambda>(sm'', rest). Ok (sm'', replies @ rest))))"

text \<open>What a heartbeat reports: the free and the used slots, as \<open>u32\<close>.\<close>

definition heartbeat_report :: "slot_manager \<Rightarrow> (u32 \<times> u32) res" where
  "heartbeat_report sm = bind_res (slots_available sm) (\<lambda>n. Ok (word_of_nat n, word_of_nat (slots_in_use sm)))"

subsection \<open>The slots and the lookup map agree\<close>

text \<open>
  \<open>slots_inv\<close> holds in every state: each entry of the map points to the slot its subtask occupies. \<open>slots_exact\<close> adds
  that every occupied slot is in the map, which deploying an id that is already deployed breaks.
\<close>

definition slots_inv :: "slot_manager \<Rightarrow> bool" where
  "slots_inv sm \<longleftrightarrow> (\<forall>s i. subtask_to_slot sm s = Some i \<longrightarrow>
     i < length (slot_states sm) \<and> (\<exists>j. slot_states sm ! i = Occupied j s))"

definition slots_exact :: "slot_manager \<Rightarrow> bool" where
  "slots_exact sm \<longleftrightarrow> slots_inv sm \<and>
     (\<forall>i<length (slot_states sm). \<forall>j s. slot_states sm ! i = Occupied j s \<longrightarrow> subtask_to_slot sm s = Some i)"

definition jobs_of :: "slot_manager \<Rightarrow> string \<rightharpoonup> string" where
  "jobs_of sm s = map_option (\<lambda>i. slot_job (slot_states sm ! i)) (subtask_to_slot sm s)"

lemma dom_jobs_of [simp]: "dom (jobs_of sm) = dom (subtask_to_slot sm)"
  by (auto simp: jobs_of_def dom_def)

lemma jobs_of_None [simp]: "jobs_of sm s = None \<longleftrightarrow> subtask_to_slot sm s = None"
  by (simp add: jobs_of_def)

lemma slots_invD: "slots_inv sm \<Longrightarrow> subtask_to_slot sm s = Some i \<Longrightarrow>
    i < length (slot_states sm) \<and> (\<exists>j. slot_states sm ! i = Occupied j s)"
  by (simp add: slots_inv_def)

lemma slots_inv_inj: "slots_inv sm \<Longrightarrow> inj_on (\<lambda>s. the (subtask_to_slot sm s)) (dom (subtask_to_slot sm))"
  by (rule inj_onI) (metis domD option.sel slots_invD slot_state.inject)

lemma slots_inv_image:
  assumes "slots_inv sm"
  shows "(\<lambda>s. the (subtask_to_slot sm s)) ` dom (subtask_to_slot sm) \<subseteq> {i. i < length (slot_states sm) \<and> slot_states sm ! i \<noteq> Free}"
  using assms by (auto dest!: slots_invD)

lemma slots_inv_finite: "slots_inv sm \<Longrightarrow> finite (dom (subtask_to_slot sm))"
  by (rule finite_imageD [OF finite_subset [OF slots_inv_image] slots_inv_inj]) auto

lemma occupied_count: "card {i. i < length ss \<and> ss ! i \<noteq> Free} = length (filter (\<lambda>x. x \<noteq> Free) ss)"
  by (simp add: length_filter_conv_card)

lemma slots_in_use_le:
  assumes "slots_inv sm"
  shows "slots_in_use sm \<le> length (filter (\<lambda>x. x \<noteq> Free) (slot_states sm))"
proof -
  have "slots_in_use sm = card ((\<lambda>s. the (subtask_to_slot sm s)) ` dom (subtask_to_slot sm))"
    unfolding slots_in_use_def by (rule card_image [OF slots_inv_inj [OF assms], symmetric])
  also have "\<dots> \<le> card {i. i < length (slot_states sm) \<and> slot_states sm ! i \<noteq> Free}"
    by (rule card_mono [OF _ slots_inv_image [OF assms]]) simp
  finally show ?thesis unfolding occupied_count .
qed

lemma slots_in_use_exact:
  assumes "slots_exact sm"
  shows "slots_in_use sm = length (filter (\<lambda>x. x \<noteq> Free) (slot_states sm))"
proof -
  have inv: "slots_inv sm" using assms by (simp add: slots_exact_def)
  have "(\<lambda>s. the (subtask_to_slot sm s)) ` dom (subtask_to_slot sm) = {i. i < length (slot_states sm) \<and> slot_states sm ! i \<noteq> Free}"
  proof (intro equalityI slots_inv_image [OF inv] subsetI)
    fix i assume i: "i \<in> {i. i < length (slot_states sm) \<and> slot_states sm ! i \<noteq> Free}"
    then obtain j s where "slot_states sm ! i = Occupied j s" by (cases "slot_states sm ! i") auto
    with i assms have "subtask_to_slot sm s = Some i" by (auto simp: slots_exact_def)
    then show "i \<in> (\<lambda>s. the (subtask_to_slot sm s)) ` dom (subtask_to_slot sm)" by force
  qed
  then show ?thesis
    using card_image [OF slots_inv_inj [OF inv]] by (simp add: slots_in_use_def occupied_count)
qed

lemma slots_available_Ok: "slots_inv sm \<Longrightarrow> slots_available sm = Ok (total_slots sm - slots_in_use sm)"
  using order_trans [OF slots_in_use_le length_filter_le] by (simp add: slots_available_def total_slots_def)

lemma free_count: "length (filter (\<lambda>x. x = Free) ss) = length ss - length (filter (\<lambda>x. x \<noteq> Free) ss)"
  using sum_length_filter_compl [of "\<lambda>x. x = Free" ss] by simp

lemma position_free_Some: "position_free ss = Some i \<Longrightarrow> i < length ss \<and> ss ! i = Free"
  by (induction ss arbitrary: i) (auto split: if_splits)

lemma position_free_None: "position_free ss = None \<longleftrightarrow> Free \<notin> set ss"
  by (induction ss) auto

lemma position_free_full: "position_free ss = None \<longleftrightarrow> length (filter (\<lambda>x. x \<noteq> Free) ss) = length ss"
proof
  assume "length (filter (\<lambda>x. x \<noteq> Free) ss) = length ss"
  then have "x \<noteq> Free" if "x \<in> set ss" for x using length_filter_less [OF that, of "\<lambda>x. x \<noteq> Free"] by auto
  then show "position_free ss = None" unfolding position_free_None by blast
next
  assume "position_free ss = None"
  then have "filter (\<lambda>x. x \<noteq> Free) ss = ss" unfolding position_free_None by (intro filter_True) auto
  then show "length (filter (\<lambda>x. x \<noteq> Free) ss) = length ss" by simp
qed

lemma slots_new: "slots_exact (slot_manager_new n)" "jobs_of (slot_manager_new n) = Map.empty" "total_slots (slot_manager_new n) = n"
  by (auto simp: slots_exact_def slots_inv_def slot_manager_new_def jobs_of_def total_slots_def)

subsection \<open>Every operation keeps the invariants and does to the jobs what it should\<close>

lemma deploy_ok:
  assumes "slots_inv sm" and "deploy sm job sub = (sm', Some i)"
  shows "slots_inv sm'" and "jobs_of sm' = (jobs_of sm)(sub \<mapsto> job)" and "total_slots sm' = total_slots sm"
    and "slot_states sm ! i = Free" and "slot_states sm' ! i = Occupied job sub" and "i < total_slots sm"
    and "slots_exact sm \<Longrightarrow> subtask_to_slot sm sub = None \<Longrightarrow> slots_exact sm'"
proof -
  have pos: "i < length (slot_states sm)" "slot_states sm ! i = Free" and
    sm': "sm' = sm\<lparr>slot_states := (slot_states sm)[i := Occupied job sub], subtask_to_slot := (subtask_to_slot sm)(sub \<mapsto> i)\<rparr>"
    using assms(2) by (auto simp: deploy_def split: option.splits dest: position_free_Some)
  have other: "k \<noteq> i \<and> k < length (slot_states sm)" if "subtask_to_slot sm s = Some k" for s k
    using slots_invD [OF assms(1) that] pos by auto
  show "slots_inv sm'" using assms(1) pos unfolding sm' slots_inv_def by (auto simp: nth_list_update dest: other)
  show "jobs_of sm' = (jobs_of sm)(sub \<mapsto> job)"
    using pos other by (auto simp: sm' jobs_of_def fun_eq_iff nth_list_update map_option_case split: option.splits)
  show "slots_exact sm \<Longrightarrow> subtask_to_slot sm sub = None \<Longrightarrow> slots_exact sm'"
    using \<open>slots_inv sm'\<close> pos(1) unfolding slots_exact_def by (auto simp: sm' nth_list_update split: if_splits)
qed (use assms in \<open>auto simp: deploy_def total_slots_def split: option.splits dest: position_free_Some\<close>)

lemma deploy_none: "deploy sm job sub = (sm', None) \<longleftrightarrow> sm' = sm \<and> position_free (slot_states sm) = None"
  by (auto simp: deploy_def split: option.splits)

lemma cancel_ok:
  assumes "slots_inv sm"
  shows "\<exists>sm'. cancel sm sub = Ok (sm', jobs_of sm sub \<noteq> None) \<and> slots_inv sm' \<and> jobs_of sm' = (jobs_of sm)(sub := None) \<and>
    total_slots sm' = total_slots sm \<and> (slots_exact sm \<longrightarrow> slots_exact sm')"
proof (cases "subtask_to_slot sm sub")
  case None
  then show ?thesis using assms by (auto simp: cancel_def fun_eq_iff)
next
  case (Some i)
  then obtain j where i: "i < length (slot_states sm)" "slot_states sm ! i = Occupied j sub"
    using slots_invD [OF assms] by blast
  define sm' where "sm' = sm\<lparr>slot_states := (slot_states sm)[i := Free], subtask_to_slot := (subtask_to_slot sm)(sub := None)\<rparr>"
  have other: "k \<noteq> i" if "subtask_to_slot sm s = Some k" "s \<noteq> sub" for s k
    using slots_invD [OF assms that(1)] that(2) i by auto
  have inv: "slots_inv sm'" using assms i other unfolding sm'_def slots_inv_def by (auto simp: nth_list_update)
  have jobs: "jobs_of sm' = (jobs_of sm)(sub := None)"
    using i other by (auto simp: sm'_def jobs_of_def fun_eq_iff nth_list_update map_option_case split: option.splits)
  have "slots_exact sm \<longrightarrow> slots_exact sm'"
    using inv Some i(1) unfolding slots_exact_def sm'_def by (auto simp: nth_list_update split: if_splits)
  then show ?thesis using Some i inv jobs by (auto simp: cancel_def total_slots_def sm'_def)
qed

lemma collect_job_ok: "slots_inv sm \<Longrightarrow> collect_job sm job subs = Ok (filter (\<lambda>s. jobs_of sm s = Some job) subs)"
proof (induction subs)
  case (Cons sub subs)
  then show ?case
    by (cases "subtask_to_slot sm sub") (auto simp: jobs_of_def dest!: slots_invD)
qed simp

lemma cancel_all_ok:
  assumes "slots_inv sm"
  shows "\<exists>sm'. cancel_all sm subs = Ok sm' \<and> slots_inv sm' \<and> jobs_of sm' = (jobs_of sm) |` (- set subs) \<and>
    total_slots sm' = total_slots sm \<and> (slots_exact sm \<longrightarrow> slots_exact sm')"
  using assms
proof (induction subs arbitrary: sm)
  case (Cons sub subs)
  obtain sm1 where sm1: "cancel sm sub = Ok (sm1, jobs_of sm sub \<noteq> None)" "slots_inv sm1" "jobs_of sm1 = (jobs_of sm)(sub := None)"
    "total_slots sm1 = total_slots sm" "slots_exact sm \<longrightarrow> slots_exact sm1"
    using cancel_ok [OF Cons.prems] by blast
  from Cons.IH [OF sm1(2)] obtain sm2 where "cancel_all sm1 subs = Ok sm2" "slots_inv sm2" "jobs_of sm2 = (jobs_of sm1) |` (- set subs)"
    "total_slots sm2 = total_slots sm1" "slots_exact sm1 \<longrightarrow> slots_exact sm2" by blast
  with sm1 show ?case by (auto simp: fun_eq_iff restrict_map_def)
qed (simp add: restrict_map_def)

lemma cancel_job_ok:
  assumes "slots_inv sm" and "iterates (subtask_to_slot sm) keys"
  shows "\<exists>sm'. cancel_job sm keys job = Ok (sm', card {s. jobs_of sm s = Some job}) \<and> slots_inv sm' \<and>
    jobs_of sm' = (jobs_of sm) |` {s. jobs_of sm s \<noteq> Some job} \<and> total_slots sm' = total_slots sm \<and> (slots_exact sm \<longrightarrow> slots_exact sm')"
proof -
  let ?r = "filter (\<lambda>s. jobs_of sm s = Some job) keys"
  obtain sm' where sm': "cancel_all sm ?r = Ok sm'" "slots_inv sm'" "jobs_of sm' = (jobs_of sm) |` (- set ?r)"
    "total_slots sm' = total_slots sm" "slots_exact sm \<longrightarrow> slots_exact sm'"
    using cancel_all_ok [OF assms(1)] by blast
  have set_r: "set ?r = {s. jobs_of sm s = Some job}"
    using assms(2) dom_jobs_of [of sm] by (auto simp: iterates_def simp del: dom_jobs_of)
  moreover have "length ?r = card (set ?r)" using assms(2) distinct_card [of ?r] by (simp add: iterates_def)
  ultimately show ?thesis using sm' collect_job_ok [OF assms(1)]
    by (intro exI [of _ sm']) (auto simp: cancel_job_def fun_eq_iff restrict_map_def simp del: set_filter)
qed

subsection \<open>Refinement of a bounded map\<close>

datatype slot_op = OpDeploy string string | OpCancel string | OpCancelJob string

datatype slot_answer = Deployed "nat option" | Cancelled bool | JobCancelled nat

definition slot_step :: "((string \<rightharpoonup> nat) \<Rightarrow> string list) \<Rightarrow> slot_manager \<Rightarrow> slot_op \<Rightarrow> (slot_manager \<times> slot_answer) res" where
  "slot_step order sm oper =
     (case oper of
        OpDeploy job sub \<Rightarrow> (case deploy sm job sub of (sm', r) \<Rightarrow> Ok (sm', Deployed r))
      | OpCancel sub \<Rightarrow> bind_res (cancel sm sub) (\<lambda>(sm', r). Ok (sm', Cancelled r))
      | OpCancelJob job \<Rightarrow> bind_res (cancel_job sm (order (subtask_to_slot sm)) job) (\<lambda>(sm', r). Ok (sm', JobCancelled r)))"

fun slot_run :: "((string \<rightharpoonup> nat) \<Rightarrow> string list) \<Rightarrow> slot_manager \<Rightarrow> slot_op list \<Rightarrow> (slot_manager \<times> slot_answer list) res" where
  "slot_run order sm [] = Ok (sm, [])"
| "slot_run order sm (oper # ops) =
     bind_res (slot_step order sm oper) (\<lambda>(sm', r).
       bind_res (slot_run order sm' ops) (\<lambda>(sm'', rs). Ok (sm'', r # rs)))"

text \<open>The specification: a map from subtasks to jobs with at most \<open>n\<close> entries.\<close>

datatype spec_answer = Granted bool | Removed bool | RemovedJobs nat

definition spec_step :: "nat \<Rightarrow> (string \<rightharpoonup> string) \<Rightarrow> slot_op \<Rightarrow> (string \<rightharpoonup> string) \<times> spec_answer" where
  "spec_step n A oper =
     (case oper of
        OpDeploy job sub \<Rightarrow> if card (dom A) < n then (A(sub \<mapsto> job), Granted True) else (A, Granted False)
      | OpCancel sub \<Rightarrow> (A(sub := None), Removed (A sub \<noteq> None))
      | OpCancelJob job \<Rightarrow> (A |` {s. A s \<noteq> Some job}, RemovedJobs (card {s. A s = Some job})))"

fun spec_run :: "nat \<Rightarrow> (string \<rightharpoonup> string) \<Rightarrow> slot_op list \<Rightarrow> (string \<rightharpoonup> string) \<times> spec_answer list" where
  "spec_run n A [] = (A, [])"
| "spec_run n A (oper # ops) = (let (A', r) = spec_step n A oper; (A'', rs) = spec_run n A' ops in (A'', r # rs))"

fun fresh_deploys :: "nat \<Rightarrow> (string \<rightharpoonup> string) \<Rightarrow> slot_op list \<Rightarrow> bool" where
  "fresh_deploys n A [] \<longleftrightarrow> True"
| "fresh_deploys n A (oper # ops) \<longleftrightarrow>
     (case oper of OpDeploy job sub \<Rightarrow> A sub = None | _ \<Rightarrow> True) \<and> fresh_deploys n (fst (spec_step n A oper)) ops"

fun abstract_answer :: "slot_answer \<Rightarrow> spec_answer" where
  "abstract_answer (Deployed r) = Granted (r \<noteq> None)"
| "abstract_answer (Cancelled b) = Removed b"
| "abstract_answer (JobCancelled k) = RemovedJobs k"

lemma slot_step_refines:
  assumes exact: "slots_exact sm" and fresh: "case oper of OpDeploy job sub \<Rightarrow> jobs_of sm sub = None | _ \<Rightarrow> True"
    and order: "\<And>m. finite (dom m) \<Longrightarrow> iterates m (order m)"
  shows "\<exists>sm' r. slot_step order sm oper = Ok (sm', r) \<and> slots_exact sm' \<and> total_slots sm' = total_slots sm \<and>
    spec_step (total_slots sm) (jobs_of sm) oper = (jobs_of sm', abstract_answer r)"
proof -
  have inv: "slots_inv sm" using exact by (simp add: slots_exact_def)
  have room: "position_free (slot_states sm) = None \<longleftrightarrow> \<not> card (dom (subtask_to_slot sm)) < total_slots sm"
    using slots_in_use_exact [OF exact] length_filter_le [of "\<lambda>x. x \<noteq> Free" "slot_states sm"]
    unfolding position_free_full slots_in_use_def total_slots_def by linarith
  show ?thesis
  proof (cases oper)
    case (OpDeploy job sub)
    show ?thesis
    proof (cases "position_free (slot_states sm)")
      case None
      then show ?thesis using OpDeploy exact room by (simp add: slot_step_def spec_step_def deploy_def)
    next
      case (Some i)
      then obtain sm' where d: "deploy sm job sub = (sm', Some i)" by (simp add: deploy_def)
      from deploy_ok [OF inv d] exact fresh OpDeploy Some room show ?thesis by (simp add: slot_step_def spec_step_def d)
    qed
  next
    case (OpCancel sub)
    then show ?thesis using cancel_ok [OF inv, of sub] exact by (auto simp: slot_step_def spec_step_def)
  next
    case (OpCancelJob job)
    then show ?thesis using cancel_job_ok [OF inv order [OF slots_inv_finite [OF inv]], of job] exact
      by (auto simp: slot_step_def spec_step_def)
  qed
qed

lemma slot_run_refines:
  assumes "slots_exact sm" and "fresh_deploys (total_slots sm) (jobs_of sm) ops" and "\<And>m. finite (dom m) \<Longrightarrow> iterates m (order m)"
  shows "\<exists>sm' rs. slot_run order sm ops = Ok (sm', rs) \<and> slots_exact sm' \<and> total_slots sm' = total_slots sm \<and>
    spec_run (total_slots sm) (jobs_of sm) ops = (jobs_of sm', map abstract_answer rs)"
  using assms(1,2)
proof (induction ops arbitrary: sm)
  case (Cons oper ops)
  obtain sm1 r where one: "slot_step order sm oper = Ok (sm1, r)" "slots_exact sm1" "total_slots sm1 = total_slots sm"
    "spec_step (total_slots sm) (jobs_of sm) oper = (jobs_of sm1, abstract_answer r)"
    using slot_step_refines [of sm oper order] Cons.prems assms(3) by auto
  with Cons.IH [of sm1] Cons.prems(2) show ?case by auto
qed simp

lemma slot_step_inv:
  assumes "slots_inv sm" and "\<And>m. finite (dom m) \<Longrightarrow> iterates m (order m)"
  shows "\<exists>sm' r. slot_step order sm oper = Ok (sm', r) \<and> slots_inv sm' \<and> total_slots sm' = total_slots sm"
proof (cases oper)
  case (OpDeploy job sub)
  then show ?thesis
  proof (cases "deploy sm job sub")
    case (Pair sm' r)
    then show ?thesis using OpDeploy assms(1) deploy_ok(1,3) [OF assms(1), of job sub] deploy_none [of sm job sub sm']
      by (cases r) (auto simp: slot_step_def)
  qed
next
  case (OpCancel sub)
  then show ?thesis using cancel_ok [OF assms(1), of sub] by (auto simp: slot_step_def)
next
  case (OpCancelJob job)
  then show ?thesis using cancel_job_ok [OF assms(1) assms(2) [OF slots_inv_finite [OF assms(1)]], of job] by (auto simp: slot_step_def)
qed

text \<open>
  The specification for any sequence of operations. Deploying an id that is already deployed makes the slot it had before
  unreachable: nothing refers to it, and nothing ever frees it. The second component counts these leaked slots.
\<close>

fun leaky_step :: "nat \<Rightarrow> (string \<rightharpoonup> string) \<times> nat \<Rightarrow> slot_op \<Rightarrow> ((string \<rightharpoonup> string) \<times> nat) \<times> spec_answer" where
  "leaky_step n (A, leaked) (OpDeploy job sub) =
     (if card (dom A) + leaked < n then ((A(sub \<mapsto> job), if A sub = None then leaked else leaked + 1), Granted True)
      else ((A, leaked), Granted False))"
| "leaky_step n (A, leaked) (OpCancel sub) = ((A(sub := None), leaked), Removed (A sub \<noteq> None))"
| "leaky_step n (A, leaked) (OpCancelJob job) = ((A |` {s. A s \<noteq> Some job}, leaked), RemovedJobs (card {s. A s = Some job}))"

fun leaky_run :: "nat \<Rightarrow> (string \<rightharpoonup> string) \<times> nat \<Rightarrow> slot_op list \<Rightarrow> ((string \<rightharpoonup> string) \<times> nat) \<times> spec_answer list" where
  "leaky_run n st [] = (st, [])"
| "leaky_run n st (oper # ops) = (let (st', r) = leaky_step n st oper; (st'', rs) = leaky_run n st' ops in (st'', r # rs))"

definition leaks :: "slot_manager \<Rightarrow> nat" where
  "leaks sm = length (filter (\<lambda>x. x \<noteq> Free) (slot_states sm)) - slots_in_use sm"

lemma occupied_update:
  "i < length ss \<Longrightarrow> length (filter (\<lambda>x. x \<noteq> Free) (ss[i := x])) + (if ss ! i \<noteq> Free then 1 else 0) =
     length (filter (\<lambda>x. x \<noteq> Free) ss) + (if x \<noteq> Free then 1 else 0)"
proof (induction ss arbitrary: i)
  case (Cons s ss)
  show ?case
  proof (cases i)
    case (Suc k)
    with Cons.IH [of k] Cons.prems show ?thesis by (auto split: if_splits)
  qed (use Cons.prems in auto)
qed simp

lemma deploy_leaks:
  assumes "slots_inv sm" and "deploy sm job sub = (sm', Some i)"
  shows "leaks sm' = (if jobs_of sm sub = None then leaks sm else leaks sm + 1)"
proof -
  have i: "i < length (slot_states sm)" "slot_states sm ! i = Free" and
    sm': "sm' = sm\<lparr>slot_states := (slot_states sm)[i := Occupied job sub], subtask_to_slot := (subtask_to_slot sm)(sub \<mapsto> i)\<rparr>"
    using assms(2) by (auto simp: deploy_def split: option.splits dest: position_free_Some)
  have "length (filter (\<lambda>x. x \<noteq> Free) (slot_states sm')) = length (filter (\<lambda>x. x \<noteq> Free) (slot_states sm)) + 1"
    using occupied_update [OF i(1), of "Occupied job sub"] i(2) by (simp add: sm')
  moreover have "slots_in_use sm' = (if jobs_of sm sub = None then slots_in_use sm + 1 else slots_in_use sm)"
    using slots_inv_finite [OF assms(1)] by (auto simp: slots_in_use_def sm' insert_absorb domIff)
  ultimately show ?thesis using slots_in_use_le [OF assms(1)] by (simp add: leaks_def Suc_diff_le)
qed

lemma cancel_leaks:
  assumes "slots_inv sm" and "cancel sm sub = Ok (sm', b)"
  shows "leaks sm' = leaks sm"
proof (cases "subtask_to_slot sm sub")
  case None
  with assms(2) show ?thesis by (simp add: cancel_def)
next
  case (Some i)
  obtain j where i: "i < length (slot_states sm)" "slot_states sm ! i = Occupied j sub"
    using slots_invD [OF assms(1) Some] by blast
  then have sm': "sm' = sm\<lparr>slot_states := (slot_states sm)[i := Free], subtask_to_slot := (subtask_to_slot sm)(sub := None)\<rparr>"
    using assms(2) Some by (simp add: cancel_def)
  have "length (filter (\<lambda>x. x \<noteq> Free) (slot_states sm')) + 1 = length (filter (\<lambda>x. x \<noteq> Free) (slot_states sm))"
    using occupied_update [OF i(1), of Free] i(2) by (simp add: sm')
  moreover have "slots_in_use sm' = slots_in_use sm - 1" "0 < slots_in_use sm"
    using slots_inv_finite [OF assms(1)] Some by (auto simp: slots_in_use_def sm' card_gt_0_iff domIff)
  ultimately show ?thesis by (simp add: leaks_def)
qed

lemma cancel_all_leaks: "slots_inv sm \<Longrightarrow> cancel_all sm subs = Ok sm' \<Longrightarrow> leaks sm' = leaks sm"
proof (induction subs arbitrary: sm)
  case (Cons sub subs)
  obtain sm1 b where one: "cancel sm sub = Ok (sm1, b)" "slots_inv sm1" using cancel_ok [OF Cons.prems(1)] by blast
  with Cons.prems(2) have "cancel_all sm1 subs = Ok sm'" by simp
  with Cons.IH [OF one(2)] cancel_leaks [OF Cons.prems(1) one(1)] show ?case by simp
qed simp

lemma slot_step_leaky:
  assumes inv: "slots_inv sm" and order: "\<And>m. finite (dom m) \<Longrightarrow> iterates m (order m)"
  shows "\<exists>sm' r. slot_step order sm oper = Ok (sm', r) \<and> slots_inv sm' \<and> total_slots sm' = total_slots sm \<and>
    leaky_step (total_slots sm) (jobs_of sm, leaks sm) oper = ((jobs_of sm', leaks sm'), abstract_answer r)"
proof (cases oper)
  case (OpDeploy job sub)
  have room: "position_free (slot_states sm) = None \<longleftrightarrow> \<not> card (dom (subtask_to_slot sm)) + leaks sm < total_slots sm"
    using slots_in_use_le [OF inv] length_filter_le [of "\<lambda>x. x \<noteq> Free" "slot_states sm"]
    unfolding position_free_full leaks_def slots_in_use_def total_slots_def by linarith
  show ?thesis
  proof (cases "position_free (slot_states sm)")
    case None
    then show ?thesis using OpDeploy inv room by (simp add: slot_step_def deploy_def)
  next
    case (Some i)
    then obtain sm' where d: "deploy sm job sub = (sm', Some i)" by (simp add: deploy_def)
    from deploy_ok [OF inv d] deploy_leaks [OF inv d] OpDeploy Some room show ?thesis by (simp add: slot_step_def d)
  qed
next
  case (OpCancel sub)
  obtain sm' where c: "cancel sm sub = Ok (sm', jobs_of sm sub \<noteq> None)" "slots_inv sm'" "jobs_of sm' = (jobs_of sm)(sub := None)"
    "total_slots sm' = total_slots sm" using cancel_ok [OF inv, of sub] by blast
  from cancel_leaks [OF inv c(1)] c OpCancel show ?thesis by (simp add: slot_step_def)
next
  case (OpCancelJob job)
  let ?keys = "order (subtask_to_slot sm)"
  obtain sm' where c: "cancel_job sm ?keys job = Ok (sm', card {s. jobs_of sm s = Some job})" "slots_inv sm'"
    "jobs_of sm' = (jobs_of sm) |` {s. jobs_of sm s \<noteq> Some job}" "total_slots sm' = total_slots sm"
    using cancel_job_ok [OF inv order [OF slots_inv_finite [OF inv]], of job] by blast
  then have "cancel_all sm (filter (\<lambda>s. jobs_of sm s = Some job) ?keys) = Ok sm'"
    using collect_job_ok [OF inv, of job ?keys] by (cases "cancel_all sm (filter (\<lambda>s. jobs_of sm s = Some job) ?keys)") (simp_all add: cancel_job_def)
  from cancel_all_leaks [OF inv this] c OpCancelJob show ?thesis by (simp add: slot_step_def)
qed

lemma slot_run_leaky:
  assumes "slots_inv sm" and "\<And>m. finite (dom m) \<Longrightarrow> iterates m (order m)"
  shows "\<exists>sm' rs. slot_run order sm ops = Ok (sm', rs) \<and> slots_inv sm' \<and> total_slots sm' = total_slots sm \<and>
    leaky_run (total_slots sm) (jobs_of sm, leaks sm) ops = ((jobs_of sm', leaks sm'), map abstract_answer rs)"
  using assms(1)
proof (induction ops arbitrary: sm)
  case (Cons oper ops)
  obtain sm1 r where one: "slot_step order sm oper = Ok (sm1, r)" "slots_inv sm1" "total_slots sm1 = total_slots sm"
    "leaky_step (total_slots sm) (jobs_of sm, leaks sm) oper = ((jobs_of sm1, leaks sm1), abstract_answer r)"
    using slot_step_leaky [OF Cons.prems assms(2)] by blast
  with Cons.IH [of sm1] show ?case by auto
qed simp

text \<open>The event loop of the task manager is a run of the slot manager.\<close>

definition op_of_event :: "tm_event \<Rightarrow> slot_op list" where
  "op_of_event ev = (case ev of DeploySubtask job sub \<Rightarrow> [OpDeploy job sub] | CancelSubtask job sub \<Rightarrow> [OpCancel sub] | _ \<Rightarrow> [])"

fun reply_of_answer :: "slot_answer \<Rightarrow> tm_reply" where
  "reply_of_answer (Deployed (Some i)) = DeployReply (Inl ())"
| "reply_of_answer (Deployed None) = DeployReply (Inr ''no free slots'')"
| "reply_of_answer (Cancelled b) = CancelReply b"
| "reply_of_answer (JobCancelled k) = CancelReply True"

lemma event_loop_is_run:
  "run_event_loop sm evs = bind_res (slot_run order sm (concat (map op_of_event (takeWhile (\<lambda>ev. ev \<noteq> TmCancelled) evs))))
     (\<lambda>(sm', rs). Ok (sm', map reply_of_answer rs))"
proof (induction evs arbitrary: sm)
  case (Cons ev evs)
  show ?case
  proof (cases ev)
    case (DeploySubtask job sub)
    then show ?thesis
      by (cases "deploy sm job sub"; cases "snd (deploy sm job sub)")
        (auto simp: tm_handle_def op_of_event_def slot_step_def Cons.IH bind_res_assoc split_def)
  next
    case (CancelSubtask job sub)
    then show ?thesis
      by (cases "cancel sm sub") (auto simp: tm_handle_def op_of_event_def slot_step_def Cons.IH bind_res_assoc split_def)
  qed (auto simp: tm_handle_def op_of_event_def Cons.IH split_def)
qed simp

text \<open>C14. The slot manager refines a bounded map with leaks. From a fresh manager with n slots, after every sequence of operations
  and in every iteration order of the hash map, nothing has panicked and every answer is that of the specification: a
  deployment is granted exactly when the deployed subtasks and the leaked slots are fewer than n, cancelling tells whether the subtask
  was there, cancelling a job removes exactly its subtasks and counts them; a slot leaks exactly when an id is deployed that is
  already deployed. Every deployed subtask has a slot of its own; the manager reports n minus the deployed subtasks as
  available, and that many less the leaked slots are free. When no deployed id is deployed again no slot leaks: the
  specification is the bounded map alone, and the occupied slots are exactly those of the deployed subtasks.\<close>

theorem slot_manager_refines:
  assumes "\<And>m. finite (dom m) \<Longrightarrow> iterates m (order m)"
  shows "\<exists>sm rs leaked. slot_run order (slot_manager_new n) ops = Ok (sm, rs) \<and>
    leaky_run n (Map.empty, 0) ops = ((jobs_of sm, leaked), map abstract_answer rs) \<and>
    (\<forall>job sub. jobs_of sm sub = Some job \<longleftrightarrow>
       (\<exists>i<n. subtask_to_slot sm sub = Some i \<and> slot_states sm ! i = Occupied job sub)) \<and>
    slots_available sm = Ok (n - card (dom (jobs_of sm))) \<and>
    length (filter (\<lambda>s. s = Free) (slot_states sm)) + card (dom (jobs_of sm)) + leaked = n \<and>
    (fresh_deploys n Map.empty ops \<longrightarrow> leaked = 0 \<and> spec_run n Map.empty ops = (jobs_of sm, map abstract_answer rs) \<and>
       (\<forall>i<n. \<forall>job sub. slot_states sm ! i = Occupied job sub \<longleftrightarrow> subtask_to_slot sm sub = Some i \<and> jobs_of sm sub = Some job))"
proof -
  have new: "slots_inv (slot_manager_new n)" "leaks (slot_manager_new n) = 0"
    using slots_new(1) [of n] by (simp_all add: slots_exact_def leaks_def slot_manager_new_def)
  obtain sm rs where run: "slot_run order (slot_manager_new n) ops = Ok (sm, rs)" and inv: "slots_inv sm"
    and n: "total_slots sm = n" and spec: "leaky_run n (Map.empty, 0) ops = ((jobs_of sm, leaks sm), map abstract_answer rs)"
    using slot_run_leaky [OF new(1) assms, of ops] new(2) by (auto simp: slots_new)
  have deployed: "jobs_of sm sub = Some job \<longleftrightarrow> (\<exists>i<n. subtask_to_slot sm sub = Some i \<and> slot_states sm ! i = Occupied job sub)" for job sub
    using slots_invD [OF inv, of sub] n by (auto simp: jobs_of_def total_slots_def)
  have available: "slots_available sm = Ok (n - card (dom (jobs_of sm)))"
    using slots_available_Ok [OF inv] n by (simp add: slots_in_use_def)
  have free: "length (filter (\<lambda>s. s = Free) (slot_states sm)) + card (dom (jobs_of sm)) + leaks sm = n"
    using slots_in_use_le [OF inv] n length_filter_le [of "\<lambda>x. x \<noteq> Free" "slot_states sm"]
    by (simp add: leaks_def free_count slots_in_use_def total_slots_def)
  have fresh: "leaks sm = 0 \<and> spec_run n Map.empty ops = (jobs_of sm, map abstract_answer rs) \<and>
       (\<forall>i<n. \<forall>job sub. slot_states sm ! i = Occupied job sub \<longleftrightarrow> subtask_to_slot sm sub = Some i \<and> jobs_of sm sub = Some job)"
    if "fresh_deploys n Map.empty ops"
  proof -
    have exact: "slots_exact sm" and "spec_run n Map.empty ops = (jobs_of sm, map abstract_answer rs)"
      using slot_run_refines [of "slot_manager_new n" ops order] assms that run by (auto simp: slots_new)
    moreover have "slot_states sm ! i = Occupied job sub \<longleftrightarrow> subtask_to_slot sm sub = Some i \<and> jobs_of sm sub = Some job" if "i < n" for i job sub
      using exact that n slots_invD [OF inv, of sub i] by (auto simp: slots_exact_def jobs_of_def total_slots_def)
    ultimately show ?thesis using slots_in_use_exact [OF exact] by (simp add: leaks_def)
  qed
  from run spec deployed available free fresh show ?thesis by blast
qed

text \<open>Deploying the same id twice leaks a slot: the first one stays occupied although nothing refers to it, the
  manager still reports it as available, and the next deployment is refused.\<close>

lemma redeployed_slot_leaks:
  "run_event_loop (slot_manager_new 2)
     [DeploySubtask ''job1'' ''wc-source-0'', DeploySubtask ''job2'' ''wc-source-0'', CancelSubtask ''job1'' ''wc-source-0'',
      DeploySubtask ''job3'' ''a'', DeploySubtask ''job3'' ''b''] =
   Ok (\<lparr>slot_states = [Occupied ''job1'' ''wc-source-0'', Occupied ''job3'' ''a''], subtask_to_slot = [''a'' \<mapsto> 1]\<rparr>,
     [DeployReply (Inl ()), DeployReply (Inl ()), CancelReply True, DeployReply (Inl ()), DeployReply (Inr ''no free slots'')])"
  "slots_available \<lparr>slot_states = [Occupied ''job1'' ''wc-source-0'', Occupied ''job3'' ''a''], subtask_to_slot = [''a'' \<mapsto> 1]\<rparr> = Ok 1"
  by (simp_all add: tm_handle_def deploy_def cancel_def slot_manager_new_def numeral_2_eq_2 slots_available_def slots_in_use_def
      total_slots_def fun_eq_iff)

subsection \<open>Witness\<close>

definition name_order :: "(string \<rightharpoonup> 'v) \<Rightarrow> string list" where "name_order m = sorted_list_of_set (dom m)"

lemma name_order_iterates: "finite (dom m) \<Longrightarrow> iterates m (name_order m)"
  by (simp add: iterates_def name_order_def)

theorem slot_manager_refines_witness:
  "\<exists>sm rs. slot_run name_order (slot_manager_new 2) [OpDeploy ''j'' ''a'', OpDeploy ''k'' ''a'', OpDeploy ''j'' ''b'', OpCancelJob ''k''] = Ok (sm, rs) \<and>
     map abstract_answer rs = [Granted True, Granted True, Granted False, RemovedJobs 1] \<and> slots_available sm = Ok 2 \<and>
     length (filter (\<lambda>s. s = Free) (slot_states sm)) = 1"
proof -
  let ?ops = "[OpDeploy ''j'' ''a'', OpDeploy ''k'' ''a'', OpDeploy ''j'' ''b'', OpCancelJob ''k'']"
  have one: "{s. s = ''a''} = {''a''}" by auto
  have spec: "leaky_run 2 (Map.empty, 0) ?ops = ((Map.empty, 1), [Granted True, Granted True, Granted False, RemovedJobs 1])"
    by (simp add: one fun_eq_iff restrict_map_def split: if_splits)
  from slot_manager_refines [of name_order, OF name_order_iterates, of 2 ?ops] obtain sm rs leaked
    where run: "slot_run name_order (slot_manager_new 2) ?ops = Ok (sm, rs)"
    and leaky: "leaky_run 2 (Map.empty, 0) ?ops = ((jobs_of sm, leaked), map abstract_answer rs)"
    and slots: "slots_available sm = Ok (2 - card (dom (jobs_of sm)))"
      "length (filter (\<lambda>s. s = Free) (slot_states sm)) + card (dom (jobs_of sm)) + leaked = 2"
    by blast
  from trans [OF leaky [symmetric] spec]
  have "jobs_of sm = Map.empty" "leaked = 1" "map abstract_answer rs = [Granted True, Granted True, Granted False, RemovedJobs 1]"
    by blast+
  with run slots show ?thesis by (auto simp del: dom_jobs_of)
qed

end
