(* ===== verification/Job_Manager.thy ===== *)
theory Job_Manager
  imports Physical_Graph Slot_Manager
begin

text \<open>
  The job manager: the registry of task managers (\<open>flume-network/src/resource_manager.rs\<close>) and the deployment
  of a job over them (\<open>deploy_job\<close> of \<open>flume-server/src/jm.rs\<close>). An \<open>Instant\<close> is a natural number of
  time units; the iteration orders of the hash maps are arguments. The remote calls are made through an
  interface, the locale \<open>deployment\<close>, whose provider is the cluster of task managers of \<open>Slot_Manager\<close>.
\<close>

subsection \<open>The resource manager\<close>

record task_manager_info =
  tm_id :: string
  tm_address :: string
  tm_num_slots :: u32
  tm_slots_in_use :: u32
  tm_registered_jobs :: "string list"
  tm_last_heartbeat :: nat

definition tm_slots_available :: "task_manager_info \<Rightarrow> u32 res" where
  "tm_slots_available info =
     (if tm_slots_in_use info \<le> tm_num_slots info then Ok (tm_num_slots info - tm_slots_in_use info)
      else Panic ''attempt to subtract with overflow'')"

record resource_manager =
  task_managers :: "string \<rightharpoonup> task_manager_info"
  heartbeat_timeout :: nat

definition resource_manager_new :: "nat \<Rightarrow> resource_manager" where
  "resource_manager_new timeout = \<lparr>task_managers = Map.empty, heartbeat_timeout = timeout\<rparr>"

definition register :: "nat \<Rightarrow> string \<Rightarrow> string \<Rightarrow> u32 \<Rightarrow> string list \<Rightarrow> resource_manager \<Rightarrow> resource_manager \<times> bool" where
  "register now tm addr slots jobs rm =
     (rm\<lparr>task_managers := (task_managers rm)(tm \<mapsto>
        \<lparr>tm_id = tm, tm_address = addr, tm_num_slots = slots, tm_slots_in_use = 0, tm_registered_jobs = jobs,
         tm_last_heartbeat = now\<rparr>)\<rparr>, True)"

definition heartbeat :: "nat \<Rightarrow> string \<Rightarrow> u32 \<Rightarrow> resource_manager \<Rightarrow> resource_manager \<times> bool" where
  "heartbeat now tm in_use rm =
     (case task_managers rm tm of
        Some info \<Rightarrow>
          (rm\<lparr>task_managers := (task_managers rm)(tm \<mapsto> info\<lparr>tm_last_heartbeat := now, tm_slots_in_use := in_use\<rparr>)\<rparr>, True)
      | None \<Rightarrow> (rm, False))"

definition detect_dead :: "nat \<Rightarrow> resource_manager \<Rightarrow> string list \<Rightarrow> string list" where
  "detect_dead now rm order =
     map tm_id (filter (\<lambda>info. heartbeat_timeout rm < now - tm_last_heartbeat info)
       (map (\<lambda>k. the (task_managers rm k)) order))"

definition remove_tm :: "string \<Rightarrow> resource_manager \<Rightarrow> resource_manager \<times> task_manager_info option" where
  "remove_tm tm rm = (rm\<lparr>task_managers := (task_managers rm)(tm := None)\<rparr>, task_managers rm tm)"

definition offer_of :: "task_manager_info \<Rightarrow> slot_offer" where
  "offer_of info = \<lparr>offer_tm = tm_id info, offer_total = unat (tm_num_slots info), offer_used = unat (tm_slots_in_use info)\<rparr>"

definition slot_offers :: "resource_manager \<Rightarrow> string list \<Rightarrow> slot_offer list" where
  "slot_offers rm order = map (\<lambda>k. offer_of (the (task_managers rm k))) order"

definition get_tm :: "resource_manager \<Rightarrow> string \<Rightarrow> task_manager_info option" where
  "get_tm rm tm = task_managers rm tm"

definition list_tms :: "resource_manager \<Rightarrow> string list \<Rightarrow> task_manager_info list" where
  "list_tms rm order = map (\<lambda>k. the (task_managers rm k)) order"

definition update_slot_usage :: "string \<Rightarrow> u32 \<Rightarrow> resource_manager \<Rightarrow> resource_manager" where
  "update_slot_usage tm in_use rm =
     (case task_managers rm tm of
        Some info \<Rightarrow> rm\<lparr>task_managers := (task_managers rm)(tm \<mapsto> info\<lparr>tm_slots_in_use := in_use\<rparr>)\<rparr>
      | None \<Rightarrow> rm)"

definition tm_count :: "resource_manager \<Rightarrow> nat" where "tm_count rm = card (dom (task_managers rm))"

definition no_tms :: "resource_manager \<Rightarrow> bool" where "no_tms rm \<longleftrightarrow> dom (task_managers rm) = {}"

text \<open>The ids stored with the entries are their keys, and a task manager counts as dead exactly when its last
  registration or heartbeat is longer ago than the timeout.\<close>

definition own_ids :: "resource_manager \<Rightarrow> bool" where
  "own_ids rm \<longleftrightarrow> (\<forall>k info. task_managers rm k = Some info \<longrightarrow> tm_id info = k)"

lemma own_ids_kept [intro]:
  "own_ids (resource_manager_new timeout)"
  "own_ids rm \<Longrightarrow> own_ids (fst (register now tm addr slots jobs rm))"
  "own_ids rm \<Longrightarrow> own_ids (fst (heartbeat now tm in_use rm))"
  "own_ids rm \<Longrightarrow> own_ids (fst (remove_tm tm rm))"
  "own_ids rm \<Longrightarrow> own_ids (update_slot_usage tm in_use rm)"
  by (auto simp: own_ids_def resource_manager_new_def register_def heartbeat_def remove_tm_def update_slot_usage_def split: option.splits)

lemma detect_dead_exact:
  assumes "own_ids rm" and "iterates (task_managers rm) order"
  shows "set (detect_dead now rm order) = {k. \<exists>info. task_managers rm k = Some info \<and> heartbeat_timeout rm < now - tm_last_heartbeat info}"
proof -
  have "set order = dom (task_managers rm)" using assms(2) by (simp add: iterates_def)
  then show ?thesis using assms(1) by (force simp: detect_dead_def own_ids_def)
qed

lemma heartbeat_keeps_alive:
  assumes "own_ids rm" and "heartbeat now tm in_use rm = (rm', True)" and "iterates (task_managers rm') order" and "later \<le> now + heartbeat_timeout rm"
  shows "tm \<notin> set (detect_dead later rm' order)"
proof -
  have "own_ids rm'" using own_ids_kept(3) [OF assms(1), of now tm in_use] assms(2) by simp
  then show ?thesis
    using assms(2,4) by (auto simp: detect_dead_exact [OF _ assms(3)] heartbeat_def split: option.splits)
qed

subsection \<open>Deploying a job\<close>

definition build_job_graph :: "string \<Rightarrow> nat \<Rightarrow> logical_graph" where
  "build_job_graph job parallelism = fst (add_node graph_new (job @ ''-source'') SourceNode parallelism)"

definition subtask_name :: "subtask_id \<Rightarrow> string" where
  "subtask_name t = st_operator t @ ''-'' @ nat_to_string (st_index t)"

text \<open>The assignments grouped by the address of their task manager.\<close>

fun group_by_address :: "resource_manager \<Rightarrow> subtask_assignment list \<Rightarrow> (string \<rightharpoonup> string list) \<Rightarrow> (string \<rightharpoonup> string list)" where
  "group_by_address rm [] m = m"
| "group_by_address rm (a # as) m =
     group_by_address rm as
       (case get_tm rm (asg_task_manager a) of
          None \<Rightarrow> m
        | Some info \<Rightarrow> entry_update m (tm_address info) [] (\<lambda>subs. subs @ [subtask_name (asg_subtask a)]))"

text \<open>
  The remote calls: \<open>connect c addr\<close> says whether a connection can be made, and \<open>rpc addr job sub c\<close>
  is the answer to a deployment: accepted, refused, or a failed call.
\<close>

type_synonym 'c deploy_rpc = "string \<Rightarrow> string \<Rightarrow> string \<Rightarrow> 'c \<Rightarrow> 'c \<times> bool option"

fun deploy_subtasks :: "'c deploy_rpc \<Rightarrow> string \<Rightarrow> string \<Rightarrow> string list \<Rightarrow> 'c \<Rightarrow> nat \<Rightarrow> 'c \<times> nat" where
  "deploy_subtasks rpc job addr [] c deployed = (c, deployed)"
| "deploy_subtasks rpc job addr (sub # subs) c deployed =
     (case rpc addr job sub c of
        (c', answer) \<Rightarrow> deploy_subtasks rpc job addr subs c' (if answer = Some True then deployed + 1 else deployed))"

fun deploy_addresses :: "('c \<Rightarrow> string \<Rightarrow> bool) \<Rightarrow> 'c deploy_rpc \<Rightarrow> string \<Rightarrow> (string \<rightharpoonup> string list) \<Rightarrow> string list \<Rightarrow> 'c \<Rightarrow> nat \<Rightarrow> 'c \<times> nat" where
  "deploy_addresses connect rpc job m [] c deployed = (c, deployed)"
| "deploy_addresses connect rpc job m (addr # addrs) c deployed =
     (if connect c addr
      then (case deploy_subtasks rpc job addr (the (m addr)) c deployed of
              (c', deployed') \<Rightarrow> deploy_addresses connect rpc job m addrs c' deployed')
      else deploy_addresses connect rpc job m addrs c deployed)"

definition deploy_job ::
  "('c \<Rightarrow> string \<Rightarrow> bool) \<Rightarrow> 'c deploy_rpc \<Rightarrow> resource_manager option \<Rightarrow> string list \<Rightarrow> ((string \<rightharpoonup> string list) \<Rightarrow> string list) \<Rightarrow>
   string \<Rightarrow> string \<Rightarrow> nat \<Rightarrow> 'c \<Rightarrow> 'c \<times> nat res" where
  "deploy_job connect rpc rm_opt order addr_order job_id job_name parallelism c =
     (case rm_opt of
        None \<Rightarrow> (c, Err (ExecutionError ''no resource manager (JM gRPC not running)''))
      | Some rm \<Rightarrow>
          let offers = slot_offers rm order in
          if offers = [] then (c, Err (ExecutionError ''no TaskManagers registered''))
          else case total_available offers of
            Err e \<Rightarrow> (c, Err e)
          | Panic p \<Rightarrow> (c, Panic p)
          | Ok avail \<Rightarrow>
              if avail < parallelism
              then (c, Err (ExecutionError (''not enough slots: need '' @ nat_to_string parallelism @ '', available '' @ nat_to_string avail)))
              else (case schedule (build_job_graph job_name parallelism) offers Spread of
                      Err (ExecutionError msg) \<Rightarrow> (c, Err (ExecutionError (''scheduling failed: '' @ msg)))
                    | Err e \<Rightarrow> (c, Err e)
                    | Panic p \<Rightarrow> (c, Panic p)
                    | Ok physical \<Rightarrow>
                        (let assignments = group_by_address rm (ph_assignments physical) Map.empty;
                             (c', deployed) = deploy_addresses connect rpc job_id assignments (addr_order assignments) c 0
                         in (c', Ok deployed))))"

subsection \<open>The interface to the task managers\<close>

text \<open>
  What the job manager relies on: a task manager that can be reached, has a free slot and does not hold
  the subtask accepts it, holds it from then on, and nothing else changes anywhere.
\<close>

locale deployment =
  fixes connect :: "'c \<Rightarrow> string \<Rightarrow> bool" and rpc :: "'c deploy_rpc"
    and ok :: "'c \<Rightarrow> bool" and holds :: "'c \<Rightarrow> string \<Rightarrow> string \<Rightarrow> string option" and capacity :: "'c \<Rightarrow> string \<Rightarrow> nat"
  assumes finite_holds: "ok c \<Longrightarrow> finite (dom (holds c addr))"
    and accepts: "ok c \<Longrightarrow> connect c addr \<Longrightarrow> holds c addr sub = None \<Longrightarrow> card (dom (holds c addr)) < capacity c addr \<Longrightarrow>
      \<exists>c'. rpc addr job sub c = (c', Some True) \<and> ok c' \<and> connect c' = connect c \<and> capacity c' = capacity c \<and>
        holds c' = (holds c)(addr := (holds c addr)(sub \<mapsto> job))"
begin

lemma deploy_subtasks_all:
  assumes "ok c" and "connect c addr" and "distinct subs" and "\<forall>s\<in>set subs. holds c addr s = None"
    and "card (dom (holds c addr)) + length subs \<le> capacity c addr"
  shows "\<exists>c'. deploy_subtasks rpc job addr subs c n = (c', n + length subs) \<and> ok c' \<and> connect c' = connect c \<and>
    capacity c' = capacity c \<and> holds c' = (\<lambda>a s. if a = addr \<and> s \<in> set subs then Some job else holds c a s)"
  using assms
proof (induction subs arbitrary: c n)
  case (Cons sub subs)
  then obtain c1 where c1: "rpc addr job sub c = (c1, Some True)" "ok c1" "connect c1 = connect c" "capacity c1 = capacity c"
    "holds c1 = (holds c)(addr := (holds c addr)(sub \<mapsto> job))"
    using accepts [of c addr sub job] by auto
  have "card (dom (holds c1 addr)) = Suc (card (dom (holds c addr)))"
    using c1(5) finite_holds [OF Cons.prems(1), of addr] Cons.prems(4) by (simp add: domIff)
  moreover have "holds c1 addr s = None" if "s \<in> set subs" for s using that Cons.prems(3,4) c1(5) by auto
  ultimately have "\<exists>c'. deploy_subtasks rpc job addr subs c1 (n + 1) = (c', n + 1 + length subs) \<and> ok c' \<and> connect c' = connect c1 \<and>
      capacity c' = capacity c1 \<and> holds c' = (\<lambda>a s. if a = addr \<and> s \<in> set subs then Some job else holds c1 a s)"
    using Cons.prems c1(2-4) by (intro Cons.IH) auto
  then obtain c' where c': "deploy_subtasks rpc job addr subs c1 (n + 1) = (c', n + 1 + length subs)" "ok c'" "connect c' = connect c1"
    "capacity c' = capacity c1" "holds c' = (\<lambda>a s. if a = addr \<and> s \<in> set subs then Some job else holds c1 a s)" by blast
  then have "holds c' = (\<lambda>a s. if a = addr \<and> s \<in> set (sub # subs) then Some job else holds c a s)"
    using c1(5) by (auto simp: fun_eq_iff)
  then show ?case using c' c1 by (intro exI [of _ c']) simp
qed (auto simp: fun_eq_iff)

lemma deploy_addresses_all:
  assumes "ok c" and "distinct addrs" and "\<forall>a\<in>set addrs. connect c a"
    and "\<forall>a\<in>set addrs. distinct (the (m a)) \<and> (\<forall>s\<in>set (the (m a)). holds c a s = None) \<and>
      card (dom (holds c a)) + length (the (m a)) \<le> capacity c a"
  shows "\<exists>c'. deploy_addresses connect rpc job m addrs c n = (c', n + sum_list (map (\<lambda>a. length (the (m a))) addrs)) \<and>
    ok c' \<and> holds c' = (\<lambda>a s. if a \<in> set addrs \<and> s \<in> set (the (m a)) then Some job else holds c a s)"
  using assms
proof (induction addrs arbitrary: c n)
  case (Cons addr addrs)
  obtain c1 where c1: "deploy_subtasks rpc job addr (the (m addr)) c n = (c1, n + length (the (m addr)))" "ok c1"
    "connect c1 = connect c" "capacity c1 = capacity c"
    "holds c1 = (\<lambda>a s. if a = addr \<and> s \<in> set (the (m addr)) then Some job else holds c a s)"
    using deploy_subtasks_all [of c addr "the (m addr)" job n] Cons.prems by auto
  have other: "holds c1 a = holds c a" if "a \<noteq> addr" for a using that c1(5) by (simp add: fun_eq_iff)
  have "\<exists>c'. deploy_addresses connect rpc job m addrs c1 (n + length (the (m addr))) =
      (c', n + length (the (m addr)) + sum_list (map (\<lambda>a. length (the (m a))) addrs)) \<and> ok c' \<and>
      holds c' = (\<lambda>a s. if a \<in> set addrs \<and> s \<in> set (the (m a)) then Some job else holds c1 a s)"
  proof (rule Cons.IH)
    have "a \<noteq> addr" if "a \<in> set addrs" for a using that Cons.prems(2) by auto
    then show "\<forall>a\<in>set addrs. distinct (the (m a)) \<and> (\<forall>s\<in>set (the (m a)). holds c1 a s = None) \<and>
        card (dom (holds c1 a)) + length (the (m a)) \<le> capacity c1 a"
      using Cons.prems(4) other c1(4) by simp
  qed (use Cons.prems c1 in auto)
  then show ?case using Cons.prems(3) c1 by (auto simp: fun_eq_iff add.assoc)
qed (auto simp: fun_eq_iff)

end

text \<open>The cluster: the slot managers of the task managers by address, called through their event loop.\<close>

definition cluster_rpc :: "(string \<rightharpoonup> slot_manager) deploy_rpc" where
  "cluster_rpc addr job sub c =
     (case c addr of
        None \<Rightarrow> (c, None)
      | Some sm \<Rightarrow>
          (case tm_handle sm (DeploySubtask job sub) of
             Ok (sm', [DeployReply (Inl _)]) \<Rightarrow> (c(addr \<mapsto> sm'), Some True)
           | Ok (sm', [DeployReply (Inr _)]) \<Rightarrow> (c(addr \<mapsto> sm'), Some False)
           | _ \<Rightarrow> (c, None)))"

definition reachable :: "(string \<rightharpoonup> slot_manager) \<Rightarrow> string \<Rightarrow> bool" where "reachable c addr \<longleftrightarrow> c addr \<noteq> None"

definition cluster_ok :: "(string \<rightharpoonup> slot_manager) \<Rightarrow> bool" where "cluster_ok c \<longleftrightarrow> (\<forall>a sm. c a = Some sm \<longrightarrow> slots_exact sm)"

definition cluster_jobs :: "(string \<rightharpoonup> slot_manager) \<Rightarrow> string \<Rightarrow> string \<Rightarrow> string option" where
  "cluster_jobs c addr = (case c addr of None \<Rightarrow> Map.empty | Some sm \<Rightarrow> jobs_of sm)"

definition cluster_capacity :: "(string \<rightharpoonup> slot_manager) \<Rightarrow> string \<Rightarrow> nat" where
  "cluster_capacity c addr = (case c addr of None \<Rightarrow> 0 | Some sm \<Rightarrow> total_slots sm)"

lemma room_for_deploy:
  assumes "slots_exact sm" and "card (dom (jobs_of sm)) < total_slots sm"
  shows "\<exists>sm' i. deploy sm job sub = (sm', Some i)"
proof -
  have "position_free (slot_states sm) \<noteq> None"
    using assms(2) slots_in_use_exact [OF assms(1)] unfolding position_free_full by (auto simp: slots_in_use_def total_slots_def)
  then show ?thesis by (auto simp: deploy_def)
qed

interpretation cluster: deployment reachable cluster_rpc cluster_ok cluster_jobs cluster_capacity
proof
  fix c addr assume "cluster_ok c"
  then show "finite (dom (cluster_jobs c addr))"
    by (cases "c addr") (auto simp: cluster_jobs_def cluster_ok_def slots_exact_def intro: slots_inv_finite)
next
  fix c addr sub job
  assume ok: "cluster_ok c" and r: "reachable c addr" and new: "cluster_jobs c addr sub = None"
    and room: "card (dom (cluster_jobs c addr)) < cluster_capacity c addr"
  obtain sm where sm: "c addr = Some sm" using r by (auto simp: reachable_def)
  then have exact: "slots_exact sm" and inv: "slots_inv sm" using ok by (auto simp: cluster_ok_def slots_exact_def)
  obtain sm' i where d: "deploy sm job sub = (sm', Some i)"
    using room_for_deploy [OF exact, of job sub] room sm by (auto simp: cluster_jobs_def cluster_capacity_def)
  have rpc: "cluster_rpc addr job sub c = (c(addr \<mapsto> sm'), Some True)" by (simp add: cluster_rpc_def sm tm_handle_def d)
  have "slots_exact sm'" using deploy_ok(7) [OF inv d exact] new sm by (simp add: cluster_jobs_def)
  then have "cluster_ok (c(addr \<mapsto> sm'))" using ok by (simp add: cluster_ok_def)
  moreover have "reachable (c(addr \<mapsto> sm')) = reachable c" using r by (auto simp: reachable_def fun_eq_iff)
  moreover have "cluster_capacity (c(addr \<mapsto> sm')) = cluster_capacity c"
    using deploy_ok(3) [OF inv d] sm by (auto simp: cluster_capacity_def fun_eq_iff)
  moreover have "cluster_jobs (c(addr \<mapsto> sm')) = (cluster_jobs c)(addr := (cluster_jobs c addr)(sub \<mapsto> job))"
    using deploy_ok(2) [OF inv d] sm by (auto simp: cluster_jobs_def fun_eq_iff)
  ultimately show "\<exists>c'. cluster_rpc addr job sub c = (c', Some True) \<and> cluster_ok c' \<and> reachable c' = reachable c \<and>
      cluster_capacity c' = cluster_capacity c \<and> cluster_jobs c' = (cluster_jobs c)(addr := (cluster_jobs c addr)(sub \<mapsto> job))"
    using rpc by blast
qed

subsection \<open>Placement of a job\<close>

definition address_of :: "resource_manager \<Rightarrow> subtask_assignment \<Rightarrow> string" where
  "address_of rm a = tm_address (the (task_managers rm (asg_task_manager a)))"

text \<open>The job manager's books are right: every task manager is known under its own id and address and is reachable,
  and its registered number of slots and last reported usage are those of its slot manager.\<close>

definition jm_view :: "resource_manager \<Rightarrow> (string \<rightharpoonup> slot_manager) \<Rightarrow> bool" where
  "jm_view rm c \<longleftrightarrow> cluster_ok c \<and>
     (\<forall>k info. task_managers rm k = Some info \<longrightarrow> tm_id info = k \<and>
       (\<exists>sm. c (tm_address info) = Some sm \<and> total_slots sm = unat (tm_num_slots info) \<and> slots_in_use sm = unat (tm_slots_in_use info))) \<and>
     inj_on (\<lambda>k. tm_address (the (task_managers rm k))) (dom (task_managers rm))"

definition free_total :: "resource_manager \<Rightarrow> nat" where
  "free_total rm = (\<Sum>k\<in>dom (task_managers rm). unat (tm_num_slots (the (task_managers rm k))) - unat (tm_slots_in_use (the (task_managers rm k))))"

definition job_subtask :: "string \<Rightarrow> nat \<Rightarrow> string" where
  "job_subtask job k = job @ ''-source-'' @ nat_to_string k"

lemma job_subtask_inject [simp]: "job_subtask job k = job_subtask job l \<longleftrightarrow> k = l"
  by (simp add: job_subtask_def nat_to_string_inject)

lemma group_by_address_exact:
  "\<forall>a\<in>set asgs. task_managers rm (asg_task_manager a) \<noteq> None \<Longrightarrow>
   group_by_address rm asgs m addr =
     (let l = map (\<lambda>a. subtask_name (asg_subtask a)) (filter (\<lambda>a. address_of rm a = addr) asgs)
      in if l = [] then m addr else Some ((case m addr of None \<Rightarrow> [] | Some x \<Rightarrow> x) @ l))"
proof (induction asgs arbitrary: m)
  case (Cons a as)
  then obtain info where "task_managers rm (asg_task_manager a) = Some info" by auto
  with Cons show ?case by (auto simp: get_tm_def address_of_def Let_def entry_update_def split: option.splits)
qed simp

lemma sum_groups:
  assumes "distinct addrs" and "\<forall>x\<in>set xs. f x \<in> set addrs"
  shows "sum_list (map (\<lambda>a. length (filter (\<lambda>x. f x = a) xs)) addrs) = length xs"
proof -
  have "(\<Sum>a\<in>set addrs. length (filter (\<lambda>x. f x = a) xs)) = length xs"
    using assms(2)
  proof (induction xs)
    case (Cons x xs)
    have "(\<Sum>a\<in>set addrs. length (filter (\<lambda>x. f x = a) (x # xs))) =
        (\<Sum>a\<in>set addrs. (if f x = a then 1 else 0) + length (filter (\<lambda>x. f x = a) xs))"
      by (intro sum.cong) auto
    with Cons show ?case by (simp add: sum.distrib)
  qed simp
  then show ?thesis using assms(1) by (simp add: sum_list_distinct_conv_sum_set)
qed

lemma job_graph:
  "nodes (build_job_graph job p) = [\<lparr>node_ident = 0, node_name = job @ ''-source'', node_kind_of = SourceNode, node_parallelism = p\<rparr>]"
  "edges (build_job_graph job p) = []" "total_subtasks (build_job_graph job p) = p"
  by (simp_all add: build_job_graph_def add_node_def graph_new_def total_subtasks_def)

lemma jm_viewD:
  "jm_view rm c \<Longrightarrow> task_managers rm k = Some info \<Longrightarrow> tm_id info = k \<and>
     (\<exists>sm. c (tm_address info) = Some sm \<and> slots_exact sm \<and> total_slots sm = unat (tm_num_slots info) \<and> slots_in_use sm = unat (tm_slots_in_use info))"
  unfolding jm_view_def cluster_ok_def by blast

lemma offers_of_view:
  assumes "jm_view rm c" and "iterates (task_managers rm) order"
  shows "offers_ok (slot_offers rm order)" and "length (concat (map slots_of (slot_offers rm order))) = free_total rm"
    and "is_free (slot_offers rm order) (k, i) \<longleftrightarrow> (\<exists>info. task_managers rm k = Some info \<and> unat (tm_slots_in_use info) \<le> i \<and> i < unat (tm_num_slots info))"
proof -
  have ord: "distinct order" "set order = dom (task_managers rm)" using assms(2) by (auto simp: iterates_def)
  have info: "\<exists>info. task_managers rm k = Some info \<and> tm_id info = k \<and> unat (tm_slots_in_use info) \<le> unat (tm_num_slots info)"
    if k: "k \<in> set order" for k
  proof -
    obtain info where i: "task_managers rm k = Some info" using k ord(2) by auto
    from jm_viewD [OF assms(1) i] obtain sm where sm: "tm_id info = k" "slots_exact sm"
      "total_slots sm = unat (tm_num_slots info)" "slots_in_use sm = unat (tm_slots_in_use info)" by blast
    then have "slots_inv sm" by (simp add: slots_exact_def)
    then have "slots_in_use sm \<le> total_slots sm"
      using order_trans [OF slots_in_use_le length_filter_le] by (simp add: total_slots_def)
    with i sm show ?thesis by simp
  qed
  have ids: "map offer_tm (slot_offers rm order) = order"
    using info by (force simp: slot_offers_def offer_of_def comp_def intro: map_idI)
  show "offers_ok (slot_offers rm order)"
    unfolding offers_ok_def ids using ord(1) info by (force simp: slot_offers_def offer_of_def list_all_iff)
  show "length (concat (map slots_of (slot_offers rm order))) = free_total rm"
    using ord by (simp add: length_concat slot_offers_def slots_of_def offer_of_def comp_def free_total_def sum_list_distinct_conv_sum_set)
  show "is_free (slot_offers rm order) (k, i) \<longleftrightarrow> (\<exists>info. task_managers rm k = Some info \<and> unat (tm_slots_in_use info) \<le> i \<and> i < unat (tm_num_slots info))"
    using info ord(2) by (force simp: is_free_def slot_offers_def offer_of_def list_ex_iff)
qed

lemma assignments_fit:
  assumes "jm_view rm c" and "iterates (task_managers rm) order"
    and "distinct (map (\<lambda>a. (asg_task_manager a, asg_slot a)) asgs)"
    and "\<forall>a\<in>set asgs. is_free (slot_offers rm order) (asg_task_manager a, asg_slot a)"
  shows "card (dom (cluster_jobs c addr)) + length (filter (\<lambda>a. address_of rm a = addr) asgs) \<le> cluster_capacity c addr \<or>
    filter (\<lambda>a. address_of rm a = addr) asgs = []"
proof (cases "filter (\<lambda>a. address_of rm a = addr) asgs")
  case (Cons b bs)
  let ?as = "filter (\<lambda>a. address_of rm a = addr) asgs"
  have free: "\<exists>info. task_managers rm (asg_task_manager a) = Some info \<and> unat (tm_slots_in_use info) \<le> asg_slot a \<and> asg_slot a < unat (tm_num_slots info)"
    if "a \<in> set asgs" for a using assms(4) that offers_of_view(3) [OF assms(1,2)] by blast
  have b: "b \<in> set asgs" "address_of rm b = addr" using Cons filter_eq_ConsD [OF Cons] by auto
  obtain info where info: "task_managers rm (asg_task_manager b) = Some info" using free [OF b(1)] by blast
  have same: "asg_task_manager a = asg_task_manager b" if "a \<in> set ?as" for a
  proof (rule inj_onD)
    show "inj_on (\<lambda>k. tm_address (the (task_managers rm k))) (dom (task_managers rm))" using assms(1) by (simp add: jm_view_def)
  qed (use that free [of a] info b in \<open>auto simp: address_of_def\<close>)
  then have slots: "asg_slot ` set ?as \<subseteq> {unat (tm_slots_in_use info)..<unat (tm_num_slots info)}"
    using free info by fastforce
  have "inj_on asg_slot (set ?as)"
  proof (rule inj_onI)
    fix x y assume xy: "x \<in> set ?as" "y \<in> set ?as" "asg_slot x = asg_slot y"
    have "inj_on (\<lambda>a. (asg_task_manager a, asg_slot a)) (set asgs)" using assms(3) by (simp add: distinct_map)
    then show "x = y" by (rule inj_onD) (use xy same [OF xy(1)] same [OF xy(2)] in auto)
  qed
  then have "length ?as = card (asg_slot ` set ?as)"
    using assms(3) distinct_card [of ?as] by (simp add: card_image distinct_map)
  also have "\<dots> \<le> unat (tm_num_slots info) - unat (tm_slots_in_use info)" using card_mono [OF _ slots] by simp
  finally have le: "length ?as \<le> unat (tm_num_slots info) - unat (tm_slots_in_use info)" .
  have pos: "unat (tm_slots_in_use info) < unat (tm_num_slots info)" using free [OF b(1)] info by auto
  have "addr = tm_address info" using b(2) info by (simp add: address_of_def)
  then obtain sm where "c addr = Some sm" "total_slots sm = unat (tm_num_slots info)" "slots_in_use sm = unat (tm_slots_in_use info)"
    using assms(1) info unfolding jm_view_def by blast
  then have "card (dom (cluster_jobs c addr)) = unat (tm_slots_in_use info)" "cluster_capacity c addr = unat (tm_num_slots info)"
    by (simp_all add: cluster_jobs_def cluster_capacity_def slots_in_use_def)
  then show ?thesis using le pos by linarith
qed simp

lemma schedule_job:
  assumes "jm_view rm c" and "iterates (task_managers rm) order" and "0 < p" and "p \<le> free_total rm"
  shows "\<exists>asgs. schedule (build_job_graph job p) (slot_offers rm order) Spread = Ok \<lparr>ph_assignments = asgs, ph_edges = []\<rparr> \<and>
    map (\<lambda>a. subtask_name (asg_subtask a)) asgs = map (job_subtask job) [0..<p] \<and>
    distinct (map (\<lambda>a. (asg_task_manager a, asg_slot a)) asgs) \<and>
    (\<forall>a\<in>set asgs. is_free (slot_offers rm order) (asg_task_manager a, asg_slot a))"
proof -
  let ?g = "build_job_graph job p" and ?q = "build_slot_queue (slot_offers rm order) Spread"
  note offers = offers_of_view [OF assms(1,2)]
  have "schedulable ?g (slot_offers rm order)" "acyclic (edge_relation ?g)"
    "total_subtasks ?g \<le> length (concat (map slots_of (slot_offers rm order)))"
    using offers(1,2) assms(3,4) by (simp_all add: schedulable_def edges_in_range_def edge_relation_def job_graph acyclic_def)
  from schedule_result [OF this, of Spread] obtain order' asgs where
    r: "distinct order'" "set order' = {..<length (nodes ?g)}" "map asg_subtask asgs = concat (map (subtasks_of ?g) order')"
      "map (\<lambda>a. (asg_task_manager a, asg_slot a)) asgs = take (total_subtasks ?g) (rev ?q)"
      "schedule ?g (slot_offers rm order) Spread = Ok \<lparr>ph_assignments = asgs, ph_edges = concat (map (expected_edges ?g) (edges ?g))\<rparr>"
    by blast
  have "set order' = {0}" using r(2) by (auto simp: job_graph)
  with r(1) have "order' = [0]" by (cases order'; cases "tl order'") auto
  with r(3) have "map asg_subtask asgs = map (subtask_new 0 (job @ ''-source'')) [0..<p]"
    by (simp add: subtasks_of_def job_graph)
  then have "map subtask_name (map asg_subtask asgs) = map subtask_name (map (subtask_new 0 (job @ ''-source'')) [0..<p])" by simp
  then have names: "map (\<lambda>a. subtask_name (asg_subtask a)) asgs = map (job_subtask job) [0..<p]"
    by (simp add: comp_def subtask_name_def subtask_new_def job_subtask_def)
  have "distinct (map (\<lambda>a. (asg_task_manager a, asg_slot a)) asgs)"
    unfolding r(4) using slot_queue_free(1) [OF offers(1), of Spread] by (simp add: distinct_take)
  moreover have "is_free (slot_offers rm order) (asg_task_manager a, asg_slot a)" if "a \<in> set asgs" for a
  proof -
    have "(asg_task_manager a, asg_slot a) \<in> set (map (\<lambda>a. (asg_task_manager a, asg_slot a)) asgs)" using that by auto
    then show ?thesis unfolding r(4) using slot_queue_free(2) [OF offers(1), of Spread] by (auto dest: in_set_takeD)
  qed
  ultimately show ?thesis using r(5) names by (auto simp: job_graph)
qed

text \<open>The subtasks grouped by address: \<open>asgs ! k\<close> is subtask \<open>k\<close> and goes to its address.\<close>

lemma job_groups:
  assumes names: "map (\<lambda>a. subtask_name (asg_subtask a)) asgs = map (job_subtask job) [0..<p]"
    and known: "\<forall>a\<in>set asgs. task_managers rm (asg_task_manager a) \<noteq> None"
    and m: "m = group_by_address rm asgs Map.empty" and order: "\<forall>m. finite (dom m) \<longrightarrow> iterates m (addr_order m)"
  shows "distinct (addr_order m)" and "set (addr_order m) = (\<lambda>k. address_of rm (asgs ! k)) ` {..<p}"
    and "sum_list (map (\<lambda>a. length (the (m a))) (addr_order m)) = p" and "length asgs = p"
    and "a \<in> set (addr_order m) \<Longrightarrow> distinct (the (m a)) \<and> length (the (m a)) = length (filter (\<lambda>x. address_of rm x = a) asgs) \<and>
      filter (\<lambda>x. address_of rm x = a) asgs \<noteq> [] \<and> set (the (m a)) = {job_subtask job k | k. k < p \<and> address_of rm (asgs ! k) = a}"
proof -
  define group where "group a = map (\<lambda>x. subtask_name (asg_subtask x)) (filter (\<lambda>x. address_of rm x = a) asgs)" for a
  have m_group: "m a = (if group a = [] then None else Some (group a))" for a
    using group_by_address_exact [OF known, of Map.empty a] by (simp add: m group_def Let_def)
  have len: "length asgs = p" using arg_cong [OF names, of length] by simp
  have nth: "subtask_name (asg_subtask (asgs ! k)) = job_subtask job k" if "k < p" for k
    using arg_cong [OF names, of "\<lambda>xs. xs ! k"] that len by simp
  have all: "set asgs = (\<lambda>k. asgs ! k) ` {..<p}" using len by (auto simp: in_set_conv_nth)
  have dom: "dom m = (\<lambda>k. address_of rm (asgs ! k)) ` {..<p}"
    by (auto simp: m_group group_def filter_empty_conv all split: if_splits)
  then have fin: "finite (dom m)" by simp
  show ord: "distinct (addr_order m)" "set (addr_order m) = (\<lambda>k. address_of rm (asgs ! k)) ` {..<p}"
    using order [rule_format, OF fin] dom by (auto simp: iterates_def)
  have length_group: "length (the (m a)) = length (filter (\<lambda>x. address_of rm x = a) asgs)" if "a \<in> dom m" for a
    using that by (auto simp: m_group group_def split: if_splits)
  have sums: "map (\<lambda>a. length (the (m a))) (addr_order m) = map (\<lambda>a. length (filter (\<lambda>x. address_of rm x = a) asgs)) (addr_order m)"
    using ord(2) length_group unfolding dom by (intro map_cong refl) blast
  show "sum_list (map (\<lambda>a. length (the (m a))) (addr_order m)) = p"
    unfolding sums using sum_groups [OF ord(1), of asgs "address_of rm"] ord(2) all len by auto
  show "length asgs = p" by (rule len)
  show "distinct (the (m a)) \<and> length (the (m a)) = length (filter (\<lambda>x. address_of rm x = a) asgs) \<and>
      filter (\<lambda>x. address_of rm x = a) asgs \<noteq> [] \<and> set (the (m a)) = {job_subtask job k | k. k < p \<and> address_of rm (asgs ! k) = a}"
    if a: "a \<in> set (addr_order m)"
  proof -
    have dm: "a \<in> dom m" using a ord(2) dom by simp
    then have some: "the (m a) = group a" "group a \<noteq> []" by (auto simp: m_group split: if_splits)
    have "distinct (map (\<lambda>a. subtask_name (asg_subtask a)) asgs)" unfolding names by (simp add: distinct_map inj_on_def)
    then have "distinct (group a)" unfolding group_def by (rule distinct_map_filter)
    moreover have "set (group a) = {job_subtask job k | k. k < p \<and> address_of rm (asgs ! k) = a}"
      unfolding group_def by (auto simp: all image_iff nth) (use nth in fastforce)
    ultimately show ?thesis using some length_group [OF dm] by (simp add: group_def)
  qed
qed

text \<open>C13. Deploying a job is correct when the job manager's books are (its view of every task manager's slots is
  current) and no task manager holds a subtask of that name. It succeeds exactly when the job fits into the free slots;
  then every one of the p subtasks is accepted by exactly one task manager, whatever the iteration orders, the number reported is p, every
  subtask that was running stays, and every slot manager's books stay exact. Otherwise nothing is deployed. There is never a panic.\<close>

theorem deploy_job_places_all:
  assumes "jm_view rm c" and "iterates (task_managers rm) order" and "\<And>m. finite (dom m) \<Longrightarrow> iterates m (addr_order m)"
    and "0 < p" and "\<And>addr k. cluster_jobs c addr (job_subtask job k) = None"
    and "deploy_job reachable cluster_rpc (Some rm) order addr_order job_id job p c = (c', r)"
  shows "if p \<le> free_total rm
    then r = Ok p \<and> cluster_ok c' \<and> (\<exists>place. (\<forall>k<p. \<exists>tm info. task_managers rm tm = Some info \<and> tm_address info = place k) \<and>
      cluster_jobs c' = (\<lambda>a s. if \<exists>k<p. a = place k \<and> s = job_subtask job k then Some job_id else cluster_jobs c a s))
    else c' = c \<and> (\<exists>msg. r = Err (ExecutionError msg))"
proof (cases "p \<le> free_total rm")
  case False
  have "total_available (slot_offers rm order) = Ok (free_total rm)"
    using total_available_exact offers_of_view(1,2) [OF assms(1,2)] by (auto simp: offers_ok_def)
  with False assms(6) show ?thesis by (auto simp: deploy_job_def Let_def split: if_splits)
next
  case True
  let ?offers = "slot_offers rm order"
  have avail: "total_available ?offers = Ok (free_total rm)"
    using total_available_exact offers_of_view(1,2) [OF assms(1,2)] by (auto simp: offers_ok_def)
  have some: "?offers \<noteq> []" using offers_of_view(2) [OF assms(1,2)] True assms(4) by auto
  obtain asgs where sch: "schedule (build_job_graph job p) ?offers Spread = Ok \<lparr>ph_assignments = asgs, ph_edges = []\<rparr>"
    and names: "map (\<lambda>a. subtask_name (asg_subtask a)) asgs = map (job_subtask job) [0..<p]"
    and dist: "distinct (map (\<lambda>a. (asg_task_manager a, asg_slot a)) asgs)"
    and free: "\<forall>a\<in>set asgs. is_free ?offers (asg_task_manager a, asg_slot a)"
    using schedule_job [OF assms(1,2,4) True] by blast
  have known: "\<forall>a\<in>set asgs. \<exists>info. task_managers rm (asg_task_manager a) = Some info"
    using free offers_of_view(3) [OF assms(1,2)] by blast
  define m where "m = group_by_address rm asgs Map.empty"
  have known': "\<forall>a\<in>set asgs. task_managers rm (asg_task_manager a) \<noteq> None" using known by auto
  have orders: "\<forall>m. finite (dom m) \<longrightarrow> iterates m (addr_order m)" using assms(3) by blast
  note groups = job_groups [OF names known' m_def orders]
  let ?addrs = "addr_order m"
  let ?place = "\<lambda>k. address_of rm (asgs ! k)"
  have place: "\<exists>tm info. task_managers rm tm = Some info \<and> tm_address info = ?place k" if "k < p" for k
    using known nth_mem [of k asgs] that groups(4) by (metis address_of_def option.sel)
  have reach: "\<forall>a\<in>set ?addrs. reachable c a"
    using groups(2) place jm_viewD [OF assms(1)] by (fastforce simp: reachable_def)
  have ok: "cluster_ok c" using assms(1) by (simp add: jm_view_def)
  have "distinct (the (m a)) \<and> (\<forall>s\<in>set (the (m a)). cluster_jobs c a s = None) \<and>
      card (dom (cluster_jobs c a)) + length (the (m a)) \<le> cluster_capacity c a" if "a \<in> set ?addrs" for a
    using groups(5) [OF that] assignments_fit [OF assms(1,2) dist free, of a] assms(5) by auto
  then obtain c2 where c2: "deploy_addresses reachable cluster_rpc job_id m ?addrs c 0 = (c2, 0 + p)" "cluster_ok c2"
    "cluster_jobs c2 = (\<lambda>a s. if a \<in> set ?addrs \<and> s \<in> set (the (m a)) then Some job_id else cluster_jobs c a s)"
    using cluster.deploy_addresses_all [OF ok groups(1) reach, of m job_id 0] groups(3) by auto
  have "a \<in> set ?addrs \<and> s \<in> set (the (m a)) \<longleftrightarrow> (\<exists>k<p. a = ?place k \<and> s = job_subtask job k)" for a s
    using groups(2) groups(5) [of a] by auto
  then have jobs: "cluster_jobs c2 = (\<lambda>a s. if \<exists>k<p. a = ?place k \<and> s = job_subtask job k then Some job_id else cluster_jobs c a s)"
    unfolding c2(3) by (intro ext) simp
  have "(c', r) = (c2, Ok p)"
    using assms(6) True some avail sch c2(1) unfolding deploy_job_def m_def by (simp add: Let_def)
  then show ?thesis using True c2(2) by simp (intro exI [of _ ?place] conjI jobs, use place in blast)
qed

subsection \<open>Witness and examples\<close>

definition one_tm :: "u32 \<Rightarrow> u32 \<Rightarrow> resource_manager" where
  "one_tm slots in_use = fst (heartbeat 5 ''t'' in_use (fst (register 0 ''t'' ''a'' slots [] (resource_manager_new 30))))"

definition one_node :: "nat \<Rightarrow> string \<rightharpoonup> slot_manager" where "one_node slots = [''a'' \<mapsto> slot_manager_new slots]"

lemma one_tm_simp: "one_tm slots in_use = \<lparr>task_managers = [''t'' \<mapsto> \<lparr>tm_id = ''t'', tm_address = ''a'', tm_num_slots = slots,
    tm_slots_in_use = in_use, tm_registered_jobs = [], tm_last_heartbeat = 5\<rparr>], heartbeat_timeout = 30\<rparr>"
  by (simp add: one_tm_def heartbeat_def register_def resource_manager_new_def)

lemma one_tm_view: "jm_view (one_tm 2 0) (one_node 2)"
proof -
  have "slots_in_use (slot_manager_new 2) = 0" by (simp add: slots_in_use_def slot_manager_new_def)
  then show ?thesis by (auto simp: jm_view_def one_tm_simp one_node_def cluster_ok_def slots_new)
qed

theorem deploy_job_places_all_witness:
  "\<exists>c' place. deploy_job reachable cluster_rpc (Some (one_tm 2 0)) [''t''] name_order ''1'' ''wc'' 1 (one_node 2) = (c', Ok 1) \<and>
     cluster_jobs c' ''a'' (job_subtask ''wc'' 0) = Some ''1''"
proof -
  obtain c' r where d: "deploy_job reachable cluster_rpc (Some (one_tm 2 0)) [''t''] name_order ''1'' ''wc'' 1 (one_node 2) = (c', r)"
    by fastforce
  have order: "iterates (task_managers (one_tm 2 0)) [''t'']" by (simp add: one_tm_simp iterates_def)
  have fresh: "cluster_jobs (one_node 2) addr (job_subtask ''wc'' k) = None" for addr k
    by (simp add: cluster_jobs_def one_node_def slots_new)
  have "1 \<le> free_total (one_tm 2 0)" by (simp add: free_total_def one_tm_simp)
  with deploy_job_places_all [OF one_tm_view order name_order_iterates _ fresh d] obtain place
    where r: "r = Ok 1" and tm: "\<exists>tm info. task_managers (one_tm 2 0) tm = Some info \<and> tm_address info = place 0"
      and jobs: "cluster_jobs c' = (\<lambda>a s. if \<exists>k<1. a = place k \<and> s = job_subtask ''wc'' k then Some ''1'' else cluster_jobs (one_node 2) a s)"
    by auto
  from tm have "place 0 = ''a''" by (auto simp: one_tm_simp split: if_splits)
  with jobs d r show ?thesis by auto
qed

text \<open>Subtask ids carry the name of the job, not its id: when a job of the same name is submitted a second time, the task manager
  accepts it under the same subtask id, forgets where the first one runs, and its slot stays occupied for good.\<close>

lemma resubmitted_job_loses_slot:
  "let (c1, r1) = deploy_job reachable cluster_rpc (Some (one_tm 3 0)) [''t''] (\<lambda>_. [''a'']) ''1'' ''wc'' 1 (one_node 3);
       (c2, r2) = deploy_job reachable cluster_rpc (Some (one_tm 3 1)) [''t''] (\<lambda>_. [''a'']) ''2'' ''wc'' 1 c1
   in r1 = Ok 1 \<and> r2 = Ok 1 \<and>
      map_option slot_states (c2 ''a'') = Some [Occupied ''1'' ''wc-source-0'', Occupied ''2'' ''wc-source-0'', Free] \<and>
      map_option (\<lambda>sm. subtask_to_slot sm ''wc-source-0'') (c2 ''a'') = Some (Some 1)"
  by code_simp

text \<open>The view of the job manager is only refreshed by heartbeats: with a stale one, subtasks are sent to a full
  task manager, and the deployment is reported as successful although nothing was deployed.\<close>

lemma stale_view_deploys_nothing:
  "let (c1, r1) = deploy_job reachable cluster_rpc (Some (one_tm 1 0)) [''t''] (\<lambda>_. [''a'']) ''1'' ''wc'' 1 (one_node 1);
       (c2, r2) = deploy_job reachable cluster_rpc (Some (one_tm 1 0)) [''t''] (\<lambda>_. [''a'']) ''2'' ''other'' 1 c1
   in r1 = Ok 1 \<and> r2 = Ok 0"
  by code_simp

end
