(* ===== verification/Job_Server.thy ===== *)
theory Job_Server
  imports Configuration
begin

text \<open>
  The REST server of \<open>flume-server/src\<close>: the registry of job factories (\<open>registry.rs\<close>), a job and its status (\<open>job.rs\<close>),
  the handlers and the reaper (\<open>api/handlers.rs\<close>, \<open>api/state.rs\<close>, \<open>api/error.rs\<close>). A factory maps a configuration to a future of type
  \<open>'f\<close>; the future runs on its own, and what it has returned so far is part of the handle. A job id is a fresh number.
\<close>

subsection \<open>Registry and jobs\<close>

type_synonym 'f factory = "pipeline_config \<Rightarrow> 'f"
type_synonym 'f registry = "string \<rightharpoonup> 'f factory"

definition registry_new :: "'f registry" where "registry_new = Map.empty"

definition registry_register :: "string \<Rightarrow> 'f factory \<Rightarrow> 'f registry \<Rightarrow> 'f registry" where
  "registry_register name f reg = reg(name \<mapsto> f)"

definition registry_get :: "'f registry \<Rightarrow> string \<Rightarrow> 'f factory option" where "registry_get reg name = reg name"

definition list_names :: "'f registry \<Rightarrow> string list \<Rightarrow> string list" where "list_names reg order = sort order"

definition registry_len :: "'f registry \<Rightarrow> nat" where "registry_len reg = card (dom reg)"

datatype job_status = Running | Cancelling | Cancelled | Completed | Failed string

fun display_status :: "job_status \<Rightarrow> string" where
  "display_status Running = ''running''"
| "display_status Cancelling = ''cancelling''"
| "display_status Cancelled = ''cancelled''"
| "display_status Completed = ''completed''"
| "display_status (Failed msg) = ''failed: '' @ msg"

text \<open>\<open>job_outcome\<close> is what the spawned task has returned, \<open>None\<close> while it runs.\<close>

record 'f job_handle =
  job_ident :: nat
  job_title :: string
  job_state :: job_status
  job_started :: nat
  job_cancelled :: bool
  job_future :: 'f
  job_outcome :: "unit res option"

definition job_handle_new :: "nat \<Rightarrow> nat \<Rightarrow> string \<Rightarrow> 'f \<Rightarrow> 'f job_handle" where
  "job_handle_new ident now name future = \<lparr>job_ident = ident, job_title = name, job_state = Running, job_started = now,
     job_cancelled = False, job_future = future, job_outcome = None\<rparr>"

fun is_terminal :: "job_status \<Rightarrow> bool" where
  "is_terminal Running = False"
| "is_terminal Cancelling = False"
| "is_terminal Cancelled = True"
| "is_terminal Completed = True"
| "is_terminal (Failed _) = True"

subsection \<open>The handlers\<close>

record 'f server =
  srv_registry :: "'f registry"
  srv_jobs :: "nat \<rightharpoonup> 'f job_handle"
  srv_config :: pipeline_config

definition server_new :: "'f registry \<Rightarrow> pipeline_config \<Rightarrow> 'f server" where
  "server_new reg config = \<lparr>srv_registry = reg, srv_jobs = Map.empty, srv_config = config\<rparr>"

record api_error =
  api_status :: nat
  api_message :: string

definition not_found :: "string \<Rightarrow> api_error" where "not_found msg = \<lparr>api_status = 404, api_message = msg\<rparr>"
definition bad_request :: "string \<Rightarrow> api_error" where "bad_request msg = \<lparr>api_status = 400, api_message = msg\<rparr>"
definition conflict :: "string \<Rightarrow> api_error" where "conflict msg = \<lparr>api_status = 409, api_message = msg\<rparr>"

record submit_request =
  req_name :: string
  req_parallelism :: "nat option"
  req_buffer_size :: "nat option"

definition job_config :: "pipeline_config \<Rightarrow> submit_request \<Rightarrow> pipeline_config" where
  "job_config config req =
     (let c1 = config\<lparr>job_name := req_name req\<rparr>;
          c2 = (case req_parallelism req of None \<Rightarrow> c1 | Some p \<Rightarrow> c1\<lparr>parallelism := p\<rparr>)
      in case req_buffer_size req of None \<Rightarrow> c2 | Some b \<Rightarrow> c2\<lparr>channel_buffer_size := b\<rparr>)"

text \<open>\<open>ident\<close> is what \<open>Uuid::new_v4\<close> returns; the response is the id, the name and the status of the new job.\<close>

definition submit_job :: "nat \<Rightarrow> nat \<Rightarrow> submit_request \<Rightarrow> 'f server \<Rightarrow> 'f server \<times> (nat \<times> string \<times> job_status + api_error)" where
  "submit_job ident now req s =
     (case registry_get (srv_registry s) (req_name req) of
        None \<Rightarrow> (s, Inr (not_found (''unknown job: '' @ req_name req)))
      | Some factory \<Rightarrow>
          let handle = job_handle_new ident now (req_name req) (factory (job_config (srv_config s) req))
          in (s\<lparr>srv_jobs := (srv_jobs s)(ident \<mapsto> handle)\<rparr>, Inl (ident, req_name req, job_state handle)))"

definition list_jobs :: "'f server \<Rightarrow> nat list \<Rightarrow> (nat \<times> string \<times> job_status) list" where
  "list_jobs s order = map (\<lambda>k. let h = the (srv_jobs s k) in (job_ident h, job_title h, job_state h)) order"

definition get_job :: "nat \<Rightarrow> nat \<Rightarrow> 'f server \<Rightarrow> (nat \<times> string \<times> job_status \<times> nat option) + api_error" where
  "get_job now ident s =
     (case srv_jobs s ident of
        None \<Rightarrow> Inr (not_found (''job not found: '' @ nat_to_string ident))
      | Some h \<Rightarrow> Inl (job_ident h, job_title h, job_state h,
          if is_terminal (job_state h) then None else Some (now - job_started h)))"

definition cancel_server_job :: "nat \<Rightarrow> 'f server \<Rightarrow> 'f server \<times> (nat \<times> job_status + api_error)" where
  "cancel_server_job ident s =
     (case srv_jobs s ident of
        None \<Rightarrow> (s, Inr (not_found (''job not found: '' @ nat_to_string ident)))
      | Some h \<Rightarrow>
          if is_terminal (job_state h)
          then (s, Inr (conflict (''job '' @ nat_to_string ident @ '' already in terminal state: '' @ display_status (job_state h))))
          else (s\<lparr>srv_jobs := (srv_jobs s)(ident \<mapsto> h\<lparr>job_cancelled := True, job_state := Cancelling\<rparr>)\<rparr>, Inl (ident, Cancelling)))"

definition readiness :: "'f server \<Rightarrow> nat list \<Rightarrow> nat \<times> nat" where
  "readiness s order =
     (registry_len (srv_registry s), length (filter (\<lambda>k. \<not> is_terminal (job_state (the (srv_jobs s k)))) order))"

text \<open>The reaper: the ids of finished jobs that are not terminal are collected, then each gets its final status; \<open>show_join\<close> is
  the text of a join error.\<close>

definition final_status :: "(string \<Rightarrow> string) \<Rightarrow> bool \<Rightarrow> unit res \<Rightarrow> job_status" where
  "final_status show_join cancelled r =
     (case r of
        Ok _ \<Rightarrow> if cancelled then Cancelled else Completed
      | Err e \<Rightarrow> Failed (display_error e)
      | Panic p \<Rightarrow> Failed (''panic: '' @ show_join p))"

definition finished_ids :: "'f server \<Rightarrow> nat list \<Rightarrow> nat list" where
  "finished_ids s order =
     filter (\<lambda>k. case srv_jobs s k of None \<Rightarrow> False | Some h \<Rightarrow> job_outcome h \<noteq> None \<and> \<not> is_terminal (job_state h)) order"

fun reap_each :: "(string \<Rightarrow> string) \<Rightarrow> nat list \<Rightarrow> 'f server \<Rightarrow> 'f server" where
  "reap_each show_join [] s = s"
| "reap_each show_join (k # ks) s =
     reap_each show_join ks
       (case srv_jobs s k of
          None \<Rightarrow> s
        | Some h \<Rightarrow>
            (case job_outcome h of
               None \<Rightarrow> s
             | Some r \<Rightarrow> s\<lparr>srv_jobs := (srv_jobs s)(k \<mapsto> h\<lparr>job_state := final_status show_join (job_cancelled h) r\<rparr>)\<rparr>))"

definition reap_finished_jobs :: "(string \<Rightarrow> string) \<Rightarrow> nat list \<Rightarrow> 'f server \<Rightarrow> 'f server" where
  "reap_finished_jobs show_join order s = reap_each show_join (finished_ids s order) s"

text \<open>The older \<open>job_reaper\<close>, which does not look at what the task returned.\<close>

definition reaper_status :: "'f job_handle \<Rightarrow> job_status" where
  "reaper_status h =
     (if job_outcome h \<noteq> None \<and> \<not> is_terminal (job_state h)
      then if job_state h = Cancelling then Cancelled
           else if job_cancelled h then Cancelled else Completed
      else job_state h)"

definition job_reaper_pass :: "'f server \<Rightarrow> 'f server" where
  "job_reaper_pass s = s\<lparr>srv_jobs := (\<lambda>k. map_option (\<lambda>h. h\<lparr>job_state := reaper_status h\<rparr>) (srv_jobs s k))\<rparr>"

subsection \<open>What can happen to a server\<close>

text \<open>The handlers, a pass of the reaper in any iteration order, and a running task that returns.\<close>

inductive server_step :: "(string \<Rightarrow> string) \<Rightarrow> 'f server \<Rightarrow> 'f server \<Rightarrow> bool" for show_join where
  submit: "srv_jobs s ident = None \<Longrightarrow> server_step show_join s (fst (submit_job ident now req s))"
| cancel: "server_step show_join s (fst (cancel_server_job ident s))"
| finish: "srv_jobs s ident = Some h \<Longrightarrow> job_outcome h = None \<Longrightarrow>
    server_step show_join s (s\<lparr>srv_jobs := (srv_jobs s)(ident \<mapsto> h\<lparr>job_outcome := Some r\<rparr>)\<rparr>)"
| reap: "iterates (srv_jobs s) order \<Longrightarrow> server_step show_join s (reap_finished_jobs show_join order s)"

inductive_cases server_stepE: "server_step show_join s s'"

text \<open>What the status of a job says, and how a job may change.\<close>

definition status_faithful :: "(string \<Rightarrow> string) \<Rightarrow> 'f job_handle \<Rightarrow> bool" where
  "status_faithful show_join h \<longleftrightarrow>
     (case job_state h of
        Running \<Rightarrow> \<not> job_cancelled h
      | Cancelling \<Rightarrow> job_cancelled h
      | Cancelled \<Rightarrow> job_cancelled h \<and> job_outcome h = Some (Ok ())
      | Completed \<Rightarrow> \<not> job_cancelled h \<and> job_outcome h = Some (Ok ())
      | Failed msg \<Rightarrow> (\<exists>e. job_outcome h = Some (Err e) \<and> msg = display_error e) \<or>
                      (\<exists>p. job_outcome h = Some (Panic p) \<and> msg = ''panic: '' @ show_join p))"

definition progressed :: "'f job_handle \<Rightarrow> 'f job_handle \<Rightarrow> bool" where
  "progressed h h' \<longleftrightarrow> job_ident h' = job_ident h \<and> job_title h' = job_title h \<and> job_future h' = job_future h \<and>
     (is_terminal (job_state h) \<longrightarrow> h' = h) \<and> (job_cancelled h \<longrightarrow> job_cancelled h') \<and> (job_state h = Cancelling \<longrightarrow> job_state h' \<noteq> Running) \<and>
     (job_outcome h \<noteq> None \<longrightarrow> job_outcome h' = job_outcome h)"

lemma progressed_refl [simp]: "progressed h h"
  by (simp add: progressed_def)

lemma progressed_trans: "status_faithful show_join h' \<Longrightarrow> progressed h h' \<Longrightarrow> progressed h' h'' \<Longrightarrow> progressed h h''"
  by (cases "job_state h'") (auto simp: progressed_def status_faithful_def)

text \<open>A server is well formed when every job is stored under its own id and its status is faithful.\<close>

definition server_ok :: "(string \<Rightarrow> string) \<Rightarrow> 'f server \<Rightarrow> bool" where
  "server_ok show_join s \<longleftrightarrow> (\<forall>k h. srv_jobs s k = Some h \<longrightarrow> job_ident h = k \<and> status_faithful show_join h)"

lemma final_status_terminal [simp]: "is_terminal (final_status show_join c r)"
  by (cases r) (auto simp: final_status_def)

lemma final_status_faithful: "job_outcome h = Some r \<Longrightarrow> status_faithful show_join (h\<lparr>job_state := final_status show_join (job_cancelled h) r\<rparr>)"
  by (cases r) (auto simp: final_status_def status_faithful_def)

lemma outcome_faithful:
  "status_faithful show_join h \<Longrightarrow> job_outcome h = None \<Longrightarrow>
   \<not> is_terminal (job_state h) \<and> status_faithful show_join (h\<lparr>job_outcome := Some r\<rparr>)"
  by (cases "job_state h") (auto simp: status_faithful_def)

lemma reap_each_exact:
  "distinct ks \<Longrightarrow> srv_jobs (reap_each show_join ks s) k =
     (case srv_jobs s k of
        None \<Rightarrow> None
      | Some h \<Rightarrow> (case job_outcome h of
          Some r \<Rightarrow> Some (if k \<in> set ks then h\<lparr>job_state := final_status show_join (job_cancelled h) r\<rparr> else h)
        | None \<Rightarrow> Some h))"
  by (induction ks arbitrary: s) (auto split: option.splits)

lemma reap_exact:
  assumes "iterates (srv_jobs s) order"
  shows "srv_jobs (reap_finished_jobs show_join order s) k =
     (case srv_jobs s k of
        None \<Rightarrow> None
      | Some h \<Rightarrow> (case job_outcome h of
          Some r \<Rightarrow> Some (if is_terminal (job_state h) then h else h\<lparr>job_state := final_status show_join (job_cancelled h) r\<rparr>)
        | None \<Rightarrow> Some h))"
proof -
  have "distinct (finished_ids s order)" and member: "k \<in> set (finished_ids s order) \<longleftrightarrow>
      (\<exists>h. srv_jobs s k = Some h \<and> job_outcome h \<noteq> None \<and> \<not> is_terminal (job_state h))"
    using assms by (auto simp: finished_ids_def iterates_def split: option.splits)
  then show ?thesis
    unfolding reap_finished_jobs_def by (subst reap_each_exact) (auto split: option.splits)
qed

lemma server_step_job:
  assumes "server_step show_join s s'" and "server_ok show_join s"
  shows "server_ok show_join s'" and "srv_jobs s k = Some h \<Longrightarrow> \<exists>h'. srv_jobs s' k = Some h' \<and> progressed h h'"
proof -
  have "server_ok show_join s' \<and> (\<forall>k h. srv_jobs s k = Some h \<longrightarrow> (\<exists>h'. srv_jobs s' k = Some h' \<and> progressed h h'))"
    using assms(1)
  proof (cases rule: server_step.cases)
    case (submit ident now req)
    then show ?thesis using assms(2)
      by (auto simp: submit_job_def job_handle_new_def Let_def server_ok_def status_faithful_def split: option.splits if_splits)
  next
    case (cancel ident)
    then show ?thesis using assms(2)
      by (auto simp: cancel_server_job_def server_ok_def status_faithful_def progressed_def split: option.splits if_splits)
  next
    case (finish ident h r)
    have "status_faithful show_join (h\<lparr>job_outcome := Some r\<rparr>)" "\<not> is_terminal (job_state h)"
      using outcome_faithful [of show_join h r] assms(2) finish by (auto simp: server_ok_def)
    then show ?thesis using assms(2) finish by (auto simp: server_ok_def progressed_def)
  next
    case (reap order)
    have "status_faithful show_join (h\<lparr>job_state := final_status show_join (job_cancelled h) r\<rparr>) \<and>
        (\<not> is_terminal (job_state h) \<longrightarrow> progressed h (h\<lparr>job_state := final_status show_join (job_cancelled h) r\<rparr>))"
      if "srv_jobs s k = Some h" "job_outcome h = Some r" for k h r
      using final_status_faithful [OF that(2)] final_status_terminal [of show_join "job_cancelled h" r]
      by (auto simp: progressed_def simp del: final_status_terminal)
    then show ?thesis using assms(2) unfolding reap(1) server_ok_def reap_exact [OF reap(2)] by (auto split: option.splits if_splits)
  qed
  then show "server_ok show_join s'" "srv_jobs s k = Some h \<Longrightarrow> \<exists>h'. srv_jobs s' k = Some h' \<and> progressed h h'" by blast+
qed

lemma server_steps_ok:
  assumes "(server_step show_join)\<^sup>*\<^sup>* s s'" and "server_ok show_join s"
  shows "server_ok show_join s' \<and> (\<forall>k h. srv_jobs s k = Some h \<longrightarrow> (\<exists>h'. srv_jobs s' k = Some h' \<and> progressed h h'))"
  using assms(1)
proof (induction rule: rtranclp_induct)
  case (step s1 s2)
  have "\<exists>h2. srv_jobs s2 k = Some h2 \<and> progressed h h2" if "srv_jobs s k = Some h" for k h
  proof -
    from step.IH that obtain h1 where h1: "srv_jobs s1 k = Some h1" "progressed h h1" by blast
    with server_step_job(2) [OF step.hyps(2)] step.IH obtain h2 where "srv_jobs s2 k = Some h2" "progressed h1 h2" by blast
    moreover have "status_faithful show_join h1" using step.IH h1(1) by (simp add: server_ok_def)
    ultimately show ?thesis using progressed_trans h1(2) by blast
  qed
  with server_step_job(1) [OF step.hyps(2)] step.IH show ?case by blast
qed (use assms(2) in auto)

subsection \<open>Properties\<close>

text \<open>C15. The life cycle of a job. In every reachable state of the server a job is stored under its own id and its status
  tells what happened: running means not cancelled, cancelled and completed mean that its task returned without an error
  with and without a cancellation, failed carries the text of its error or panic. However the server goes on, a job never
  disappears, a terminal status never changes and a cancellation is never withdrawn; and the next pass of the reaper makes the status of every
  finished job terminal.\<close>

theorem job_lifecycle:
  assumes "(server_step show_join)\<^sup>*\<^sup>* (server_new reg config) s" and "(server_step show_join)\<^sup>*\<^sup>* s s'" and "srv_jobs s k = Some h"
  shows "job_ident h = k \<and> status_faithful show_join h \<and> (\<exists>h'. srv_jobs s' k = Some h' \<and> progressed h h') \<and>
    (iterates (srv_jobs s) order \<and> job_outcome h \<noteq> None \<longrightarrow>
      (\<exists>h'. srv_jobs (reap_finished_jobs show_join order s) k = Some h' \<and> is_terminal (job_state h')))"
proof -
  have "server_ok show_join (server_new reg config)" by (simp add: server_ok_def server_new_def)
  from server_steps_ok [OF assms(1) this] have ok: "server_ok show_join s" by simp
  with assms(3) have "job_ident h = k" "status_faithful show_join h" by (simp_all add: server_ok_def)
  moreover from server_steps_ok [OF assms(2) ok] assms(3) have "\<exists>h'. srv_jobs s' k = Some h' \<and> progressed h h'" by blast
  moreover have "\<exists>h'. srv_jobs (reap_finished_jobs show_join order s) k = Some h' \<and> is_terminal (job_state h')"
    if "iterates (srv_jobs s) order" "job_outcome h \<noteq> None"
    using reap_exact [OF that(1), of show_join k] that(2) assms(3) by auto
  ultimately show ?thesis by blast
qed

subsection \<open>Witness and examples\<close>

definition one_job :: "nat server" where
  "one_job = fst (submit_job 7 0 \<lparr>req_name = ''wc'', req_parallelism = Some 2, req_buffer_size = None\<rparr>
     (server_new (registry_register ''wc'' parallelism registry_new) default_config))"

lemma one_job_state: "srv_jobs one_job = [7 \<mapsto> job_handle_new 7 0 ''wc'' 2]"
  by (simp add: one_job_def submit_job_def registry_get_def registry_register_def server_new_def job_config_def Let_def
      job_handle_new_def default_config_def)

theorem job_lifecycle_witness:
  "\<exists>h'. srv_jobs (fst (cancel_server_job 7 one_job)) 7 = Some h' \<and> progressed (job_handle_new 7 0 ''wc'' 2) h'"
proof -
  have "server_step id (server_new (registry_register ''wc'' parallelism registry_new) default_config) one_job"
    unfolding one_job_def by (rule server_step.submit) (simp add: server_new_def)
  moreover have "server_step id one_job (fst (cancel_server_job 7 one_job))" by (rule server_step.cancel)
  moreover have "srv_jobs one_job 7 = Some (job_handle_new 7 0 ''wc'' 2)" by (simp add: one_job_state)
  ultimately show ?thesis using job_lifecycle by blast
qed

text \<open>The configuration a job gets is the server's with its own name and the overrides of the request.\<close>

lemma job_config_exact:
  "job_name (job_config config req) = req_name req"
  "parallelism (job_config config req) = (case req_parallelism req of None \<Rightarrow> parallelism config | Some p \<Rightarrow> p)"
  "channel_buffer_size (job_config config req) = (case req_buffer_size req of None \<Rightarrow> channel_buffer_size config | Some b \<Rightarrow> b)"
  by (simp_all add: job_config_def Let_def split: option.splits)

text \<open>The older reaper reports a job whose task failed as completed.\<close>

lemma job_reaper_hides_failure:
  "reaper_status (h\<lparr>job_state := Running, job_cancelled := False, job_outcome := Some (Err e)\<rparr>) = Completed"
  by (simp add: reaper_status_def)

end
