(* ===== verification/Routing.thy ===== *)
theory Routing
  imports Stream_Types "HOL-Library.Multiset"
begin

text \<open>
  \<open>flume-runtime/src/watermark.rs\<close> and \<open>partition.rs\<close>: the watermark of an operator with several
  inputs, and the choice of the subtasks a record goes to. The hash of a key is computed by the
  \<open>ahash\<close> crate; it is the parameter \<open>hash_one\<close>.
\<close>

subsection \<open>The watermark tracker\<close>

record watermark_tracker =
  input_watermarks :: "event_timestamp list"
  current_watermark :: event_timestamp

definition tracker_new :: "nat \<Rightarrow> watermark_tracker" where
  "tracker_new num_inputs = \<lparr>input_watermarks = replicate num_inputs ts_MIN, current_watermark = ts_MIN\<rparr>"

definition tracker_update :: "watermark_tracker \<Rightarrow> nat \<Rightarrow> watermark \<Rightarrow> (watermark_tracker \<times> watermark option) res" where
  "tracker_update t input_index wm =
     (if input_index < length (input_watermarks t) then
        (let wms = (input_watermarks t)[input_index := wm_timestamp wm];
             new_min = (if wms = [] then ts_MIN else Min (set wms))
         in if current_watermark t < new_min
            then Ok (t\<lparr>input_watermarks := wms, current_watermark := new_min\<rparr>, Some (Watermark new_min))
            else Ok (t\<lparr>input_watermarks := wms\<rparr>, None))
      else Panic ''index out of bounds'')"

text \<open>The watermarks an operator emits while it updates its tracker.\<close>

fun tracker_run :: "watermark_tracker \<Rightarrow> (nat \<times> watermark) list \<Rightarrow> (watermark_tracker \<times> event_timestamp list) res" where
  "tracker_run t [] = Ok (t, [])"
| "tracker_run t ((i, w) # us) =
     bind_res (tracker_update t i w) (\<lambda>(t', out).
     bind_res (tracker_run t' us) (\<lambda>(t'', outs).
       Ok (t'', (case out of None \<Rightarrow> outs | Some w' \<Rightarrow> wm_timestamp w' # outs))))"

text \<open>The watermarks input \<open>i\<close> sent, and the latest of them.\<close>

definition sent_by :: "nat \<Rightarrow> (nat \<times> watermark) list \<Rightarrow> event_timestamp list" where
  "sent_by i us = map (wm_timestamp \<circ> snd) (filter (\<lambda>(j, w). j = i) us)"

definition latest :: "nat \<Rightarrow> (nat \<times> watermark) list \<Rightarrow> event_timestamp" where
  "latest i us = last (ts_MIN # sent_by i us)"

lemma sent_by_snoc: "sent_by i (us @ [(j, w)]) = (if i = j then sent_by i us @ [wm_timestamp w] else sent_by i us)"
  by (simp add: sent_by_def)

lemma latest_snoc: "latest i (us @ [(j, w)]) = (if i = j then wm_timestamp w else latest i us)"
  by (simp add: latest_def sent_by_snoc)

lemma tracker_run_snoc:
  "tracker_run t (us @ [(i, w)]) =
     bind_res (tracker_run t us) (\<lambda>(t', outs).
     bind_res (tracker_update t' i w) (\<lambda>(t'', out).
       Ok (t'', outs @ (case out of None \<Rightarrow> [] | Some w' \<Rightarrow> [wm_timestamp w']))))"
proof (induction us arbitrary: t)
  case Nil
  then show ?case by (cases "tracker_update t i w") (auto split: option.split)
next
  case (Cons u us)
  then show ?case
    by (cases u; cases "tracker_update t (fst u) (snd u)")
      (auto simp: bind_res_assoc split_def split: option.split intro!: arg_cong [where f = "bind_res _"] ext)
qed

text \<open>What holds after every prefix of the updates. \<open>monotone_inputs\<close>: no input ever lowers its watermark.\<close>

definition monotone_inputs :: "(nat \<times> watermark) list \<Rightarrow> bool" where
  "monotone_inputs us \<longleftrightarrow> (\<forall>i. sorted (sent_by i us))"

definition least_latest :: "nat \<Rightarrow> (nat \<times> watermark) list \<Rightarrow> event_timestamp" where
  "least_latest n us = Min (set (map (\<lambda>i. latest i us) [0..<n]))"

lemma latest_take:
  assumes "monotone_inputs us"
  shows "latest i (take k us) \<le> latest i us"
proof -
  have "sent_by i us = sent_by i (take k us) @ sent_by i (drop k us)"
    by (simp add: sent_by_def flip: map_append filter_append)
  moreover have "sorted (sent_by i us)" using assms by (simp add: monotone_inputs_def)
  ultimately show ?thesis
    by (cases "sent_by i (take k us) = []"; cases "sent_by i (drop k us) = []") (auto simp: latest_def sorted_append)
qed

text \<open>The least of the latest watermarks at every moment so far, the first before any update.\<close>

definition least_history :: "nat \<Rightarrow> (nat \<times> watermark) list \<Rightarrow> event_timestamp list" where
  "least_history n us = map (\<lambda>k. least_latest n (take k us)) [0..<Suc (length us)]"

lemma least_history_snoc: "least_history n (us @ [u]) = least_history n us @ [least_latest n (us @ [u])]"
  by (simp add: least_history_def)

lemma least_history_monotone:
  assumes "0 < n" and "monotone_inputs us"
  shows "Max (set (least_history n us)) = least_latest n us"
proof (rule Max_eqI)
  fix x assume "x \<in> set (least_history n us)"
  then obtain k where x: "x = least_latest n (take k us)" unfolding least_history_def by (metis (lifting) imageE list.set_map)
  show "x \<le> least_latest n us"
    unfolding x least_latest_def
  proof (rule Min.boundedI)
    fix y assume "y \<in> set (map (\<lambda>i. latest i us) [0..<n])"
    then obtain i where "i < n" "y = latest i us" by auto
    moreover from this have "Min (set (map (\<lambda>i. latest i (take k us)) [0..<n])) \<le> latest i (take k us)" by (intro Min_le) auto
    ultimately show "Min (set (map (\<lambda>i. latest i (take k us)) [0..<n])) \<le> y"
      using latest_take [OF assms(2), of i k] by (metis order_trans)
  qed (use assms(1) in auto)
next
  show "least_latest n us \<in> set (least_history n us)" unfolding least_history_def by (auto intro!: image_eqI [of _ _ "length us"])
qed (simp add: least_history_def)

lemma tracker_run_exact:
  assumes "0 < n" and "list_all (\<lambda>(i, w). i < n) us"
  shows "\<exists>t outs. tracker_run (tracker_new n) us = Ok (t, outs) \<and>
    input_watermarks t = map (\<lambda>i. latest i us) [0..<n] \<and> current_watermark t = Max (set (least_history n us)) \<and>
    sorted_wrt (<) (ts_MIN # outs) \<and> last (ts_MIN # outs) = current_watermark t \<and> set outs \<subseteq> set (least_history n us)"
  using assms(2)
proof (induction us rule: rev_induct)
  case Nil
  have "map (\<lambda>i. latest i []) [0..<n] = replicate n ts_MIN"
    by (auto simp: latest_def sent_by_def intro: nth_equalityI)
  with assms(1) show ?case by (simp add: tracker_new_def least_latest_def least_history_def)
next
  case (snoc u us)
  obtain i w where u: "u = (i, w)" by (cases u) auto
  from snoc.prems u have i: "i < n" and us: "list_all (\<lambda>(i, w). i < n) us" by auto
  from snoc.IH [OF us] obtain t outs where
    run: "tracker_run (tracker_new n) us = Ok (t, outs)" and
    ins: "input_watermarks t = map (\<lambda>i. latest i us) [0..<n]" and
    cur: "current_watermark t = Max (set (least_history n us))" and
    outs: "sorted_wrt (<) (ts_MIN # outs)" "last (ts_MIN # outs) = current_watermark t" "set outs \<subseteq> set (least_history n us)"
    by blast
  let ?wms = "map (\<lambda>j. latest j (us @ [(i, w)])) [0..<n]" and ?new = "least_latest n (us @ [(i, w)])"
  have wms: "(input_watermarks t)[i := wm_timestamp w] = ?wms"
    using i ins by (auto simp: latest_snoc list_eq_iff_nth_eq nth_list_update)
  have ne: "?wms \<noteq> []" using assms(1) by simp
  have step: "tracker_update t i w =
     (if current_watermark t < ?new
      then Ok (t\<lparr>input_watermarks := ?wms, current_watermark := ?new\<rparr>, Some (Watermark ?new))
      else Ok (t\<lparr>input_watermarks := ?wms\<rparr>, None))"
    using i ins wms ne by (simp add: tracker_update_def Let_def least_latest_def)
  have "set (least_history n us) \<noteq> {}" by (simp add: least_history_def)
  then have max: "Max (set (least_history n (us @ [u]))) = max (current_watermark t) ?new"
    by (simp add: least_history_snoc cur u max.commute)
  have below: "x \<le> current_watermark t" if "x \<in> set (ts_MIN # outs)" for x
    using outs that by (metis last_ConsL last_snoc list.distinct(1) nle_le append_butlast_last_id
        in_set_conv_decomp order.strict_implies_order sorted_wrt_append set_append Un_iff list.set_intros(1) set_ConsD empty_iff empty_set)
  show ?case
  proof (cases "current_watermark t < ?new")
    case True
    then have "\<forall>x\<in>set (ts_MIN # outs). x < ?new"
      using below by (meson le_less_trans)
    with True step run outs max show ?thesis
      by (auto simp: u tracker_run_snoc sorted_wrt_append least_history_snoc)
  next
    case False
    with step run outs max show ?thesis by (auto simp: u tracker_run_snoc least_history_snoc)
  qed
qed

subsection \<open>Partitioning\<close>

datatype partitioner = Forward | Hash | Broadcast | Rebalance u64

definition hash_partition :: "(bytes \<Rightarrow> u64) \<Rightarrow> bytes \<Rightarrow> nat \<Rightarrow> nat res" where
  "hash_partition hash_one key num_partitions =
     (if num_partitions = 0 then Panic ''attempt to calculate the remainder with a divisor of zero''
      else Ok (unat (hash_one key) mod num_partitions))"

definition select :: "(bytes \<Rightarrow> u64) \<Rightarrow> partitioner \<Rightarrow> bytes option \<Rightarrow> nat \<Rightarrow> nat \<Rightarrow> (partitioner \<times> nat list) res" where
  "select hash_one p key source_index num_targets =
     (case p of
        Forward \<Rightarrow>
          (if num_targets = 0 then Panic ''attempt to calculate the remainder with a divisor of zero''
           else Ok (p, [source_index mod num_targets]))
      | Hash \<Rightarrow>
          bind_res (hash_partition hash_one (case key of None \<Rightarrow> [] | Some k \<Rightarrow> k) num_targets) (\<lambda>t. Ok (p, [t]))
      | Broadcast \<Rightarrow> Ok (p, [0..<num_targets])
      | Rebalance next_target \<Rightarrow>
          (if num_targets = 0 then Panic ''attempt to calculate the remainder with a divisor of zero''
           else Ok (Rebalance (next_target + 1), [unat next_target mod num_targets])))"

text \<open>The targets of a sequence of records, each with its key and the subtask that sends it.\<close>

fun select_run :: "(bytes \<Rightarrow> u64) \<Rightarrow> partitioner \<Rightarrow> (bytes option \<times> nat) list \<Rightarrow> nat \<Rightarrow> (partitioner \<times> nat list list) res" where
  "select_run hash_one p [] n = Ok (p, [])"
| "select_run hash_one p ((key, src) # rs) n =
     bind_res (select hash_one p key src n) (\<lambda>(p', ts).
     bind_res (select_run hash_one p' rs n) (\<lambda>(p'', tss). Ok (p'', ts # tss)))"

lemma select_in_range:
  assumes "0 < n"
  shows "\<exists>p' ts. select hash_one p key src n = Ok (p', ts) \<and> ts \<noteq> [] \<and> (\<forall>t\<in>set ts. t < n)"
  using assms by (cases p) (auto simp: select_def hash_partition_def)

lemma select_no_targets: "p \<noteq> Broadcast \<Longrightarrow> \<exists>m. select hash_one p key src 0 = Panic m"
  by (cases p) (auto simp: select_def hash_partition_def)

lemma rebalance_run:
  assumes "0 < n" and "unat k + length rs \<le> 2 ^ 64"
  shows "\<exists>p'. select_run hash_one (Rebalance k) rs n = Ok (p', map (\<lambda>i. [(unat k + i) mod n]) [0..<length rs])"
  using assms(2)
proof (induction rs arbitrary: k)
  case (Cons r rs)
  have rest: "\<exists>p'. select_run hash_one (Rebalance (k + 1)) rs n =
      Ok (p', map (\<lambda>i. [(unat k + Suc i) mod n]) [0..<length rs])"
  proof (cases "rs = []")
    case False
    then have "unat k + 1 < 2 ^ 64" using Cons.prems by (cases rs) auto
    then have "unat (k + 1) = unat k + 1" by (simp add: unat_add_no_overflow)
    with Cons.IH [of "k + 1"] Cons.prems show ?thesis by simp
  qed simp
  have "map (\<lambda>i. [(unat k + i) mod n]) [0..<length (r # rs)] =
      [unat k mod n] # map (\<lambda>i. [(unat k + Suc i) mod n]) [0..<length rs]"
    by (simp add: upt_rec [of 0 "Suc (length rs)"] map_Suc_upt [symmetric] comp_def del: upt_Suc)
  with rest assms(1) show ?case by (cases r) (auto simp: select_def)
qed simp

lemma one_in_each_block:
  assumes "0 < n"
  shows "mset (map (\<lambda>x. x mod n) [a..<a + n]) = mset [0..<n]"
proof (induction a)
  case 0
  have "map (\<lambda>x. x mod n) [0..<n] = [0..<n]" by (rule map_idI) simp
  then show ?case by simp
next
  case (Suc a)
  have "[a..<a + n] = a # [Suc a..<a + n]" using assms by (simp add: upt_conv_Cons)
  moreover have "[Suc a..<Suc a + n] = [Suc a..<a + n] @ [a + n]" using assms by simp
  ultimately show ?case using Suc by simp
qed

lemma blocks_even:
  assumes "0 < n"
  shows "mset (map (\<lambda>i. (k + i) mod n) [0..<m * n]) = repeat_mset m (mset [0..<n])"
proof (induction m)
  case (Suc m)
  have "[0..<Suc m * n] = [0..<m * n] @ map ((+) (m * n)) [0..<n]"
    by (rule nth_equalityI) (simp_all add: nth_append del: upt_Suc)
  moreover have "map (\<lambda>i. (k + i) mod n) (map ((+) (m * n)) [0..<n]) = map (\<lambda>x. x mod n) [k..<k + n]"
  proof (rule nth_equalityI)
    fix i assume "i < length (map (\<lambda>i. (k + i) mod n) (map ((+) (m * n)) [0..<n]))"
    moreover have "(k + (m * n + i)) mod n = (k + i) mod n"
      by (metis add.left_commute mod_mult_self3)
    ultimately show "map (\<lambda>i. (k + i) mod n) (map ((+) (m * n)) [0..<n]) ! i = map (\<lambda>x. x mod n) [k..<k + n] ! i"
      by simp
  qed simp
  ultimately show ?case using Suc one_in_each_block [OF assms, of k]
    by (simp del: map_map mset_map upt_Suc)
qed simp

subsection \<open>Properties\<close>

text \<open>C35. The tracked watermark never goes back. After any sequence of updates of n > 0 existing inputs, whatever watermarks they
  carry, the tracker has not panicked; the watermarks it emitted strictly increase up to its current one, and that is the
  greatest value which the least of the latest watermarks of the inputs has had so far. When no input lowers its watermark,
  it is the least of the latest watermarks itself.\<close>

theorem tracker_exact:
  assumes "0 < n" and "list_all (\<lambda>(i, w). i < n) us"
  shows "\<exists>t outs. tracker_run (tracker_new n) us = Ok (t, outs) \<and>
    sorted_wrt (<) (ts_MIN # outs) \<and> last (ts_MIN # outs) = current_watermark t \<and>
    current_watermark t = Max {Min {latest i (take k us) | i. i < n} | k. k \<le> length us} \<and>
    (monotone_inputs us \<longrightarrow> current_watermark t = Min {latest i us | i. i < n})"
proof -
  have least: "least_latest n vs = Min {latest i vs | i. i < n}" for vs
    unfolding least_latest_def by (rule arg_cong [of _ _ Min]) auto
  have "set (least_history n us) = {Min {latest i (take k us) | i. i < n} | k. k \<le> length us}"
    by (auto simp: least_history_def least simp del: upt_Suc intro: le_imp_less_Suc)
  then show ?thesis
    using tracker_run_exact [OF assms] least_history_monotone [OF assms(1), of us] least [of us] by metis
qed

theorem tracker_exact_witness:
  "\<exists>t outs. tracker_run (tracker_new 1) [(0, Watermark (EventTimestamp 5)), (0, Watermark (EventTimestamp 3))] =
     Ok (t, outs) \<and> last (ts_MIN # outs) = current_watermark t \<and> current_watermark t = EventTimestamp 5"
proof -
  let ?us = "[(0, Watermark (EventTimestamp 5)), (0, Watermark (EventTimestamp 3))]"
  have "tracker_run (tracker_new 1) ?us = Ok (\<lparr>input_watermarks = [EventTimestamp 3], current_watermark = EventTimestamp 5\<rparr>, [EventTimestamp 5])"
    by (simp add: tracker_new_def tracker_update_def ts_simps Let_def)
  then show ?thesis using tracker_exact [of 1 ?us] by simp
qed

text \<open>Rebalancing is fair: until the 64-bit counter wraps, m rounds of n records each send exactly m
  records to every one of the n targets, wherever the counter starts.\<close>

lemma rebalance_fair:
  assumes "0 < n" and "length rs = m * n" and "unat k + m * n \<le> 2 ^ 64"
  shows "\<exists>p' tss. select_run hash_one (Rebalance k) rs n = Ok (p', tss) \<and>
    (\<forall>t. count_list (concat tss) t = (if t < n then m else 0))"
proof -
  obtain p' where run: "select_run hash_one (Rebalance k) rs n =
      Ok (p', map (\<lambda>i. [(unat k + i) mod n]) [0..<m * n])"
    using rebalance_run [OF assms(1), of k rs hash_one] assms(2,3) by auto
  have "count_list (concat (map (\<lambda>i. [(unat k + i) mod n]) [0..<m * n])) t = (if t < n then m else 0)" for t
  proof -
    have flat: "concat (map (\<lambda>i. [(unat k + i) mod n]) [0..<m * n]) = map (\<lambda>i. (unat k + i) mod n) [0..<m * n]"
      by (induction "m * n") simp_all
    have one: "count (mset [0..<n]) t = (if t < n then 1 else 0)" by (simp add: count_mset_0_iff distinct_count_atmost_1)
    have "count_list (concat (map (\<lambda>i. [(unat k + i) mod n]) [0..<m * n])) t =
        count (mset (map (\<lambda>i. (unat k + i) mod n) [0..<m * n])) t"
      unfolding flat by (simp only: count_mset)
    also have "\<dots> = (if t < n then m else 0)"
      by (simp only: blocks_even [OF assms(1)] count_repeat_mset one) simp
    finally show ?thesis .
  qed
  with run show ?thesis by blast
qed

lemma rebalance_fair_example:
  "\<exists>p' tss. select_run (\<lambda>_. 0) (Rebalance 5) (replicate 6 (None, 0)) 3 = Ok (p', tss) \<and>
    (\<forall>t. count_list (concat tss) t = (if t < 3 then 2 else 0))"
  using rebalance_fair [of 3 "replicate 6 (None, 0)" 2 5 "\<lambda>_. 0"] by simp

end
