(* ===== verification/State_Backend.thy ===== *)
theory State_Backend
  imports Flume_Prelude
begin

text \<open>
  \<open>flume-state/src/memory.rs\<close> and \<open>keyed.rs\<close>: keyed state and its snapshots. A state handle and the
  backend share an \<open>Arc<Mutex<..>>\<close>: the model keeps the shared cells in a heap, and a handle is an address.
  A mutex is poisoned when a thread panicked while it held it; then every access is an error. The
  serialiser (\<open>bitcode\<close>) is the parameter \<open>state_codec\<close>, with \<open>codec_laws\<close> as its documented
  behaviour: what was serialised at a type deserialises at that type to the same value.
\<close>

subsection \<open>Cells\<close>

datatype ('k, 'v) cell_content = ValueCell "'v option" | ListCell "'v list" | MapCell "'k \<rightharpoonup> 'v"

record ('k, 'v) cell =
  content :: "('k, 'v) cell_content"
  poisoned :: bool

type_synonym ('k, 'v) heap = "('k, 'v) cell list"
type_synonym handle = nat

text \<open>\<open>lock().map_err(..)\<close>, then a look at or an update of the content. The types of the handles rule the
  mismatching cases out.\<close>

definition locked :: "('k, 'v) heap \<Rightarrow> handle \<Rightarrow> ('k, 'v) cell_content res" where
  "locked h a =
     (if a < length h then
        (if poisoned (h ! a) then Err (StateError ''poisoned lock'') else Ok (content (h ! a)))
      else Panic ''dangling handle'')"

definition store_content :: "('k, 'v) heap \<Rightarrow> handle \<Rightarrow> ('k, 'v) cell_content \<Rightarrow> ('k, 'v) heap" where
  "store_content h a c = h[a := (h ! a)\<lparr>content := c\<rparr>]"

definition mismatch :: "'a res" where "mismatch = Panic ''handle of another type''"

definition value_get :: "('k, 'v) heap \<Rightarrow> handle \<Rightarrow> 'v option res" where
  "value_get h a = bind_res (locked h a) (\<lambda>c. case c of ValueCell v \<Rightarrow> Ok v | _ \<Rightarrow> mismatch)"

definition value_set :: "('k, 'v) heap \<Rightarrow> handle \<Rightarrow> 'v \<Rightarrow> ('k, 'v) heap res" where
  "value_set h a x = bind_res (locked h a) (\<lambda>c. case c of ValueCell v \<Rightarrow> Ok (store_content h a (ValueCell (Some x))) | _ \<Rightarrow> mismatch)"

definition value_clear :: "('k, 'v) heap \<Rightarrow> handle \<Rightarrow> ('k, 'v) heap res" where
  "value_clear h a = bind_res (locked h a) (\<lambda>c. case c of ValueCell v \<Rightarrow> Ok (store_content h a (ValueCell None)) | _ \<Rightarrow> mismatch)"

definition list_get :: "('k, 'v) heap \<Rightarrow> handle \<Rightarrow> 'v list res" where
  "list_get h a = bind_res (locked h a) (\<lambda>c. case c of ListCell xs \<Rightarrow> Ok xs | _ \<Rightarrow> mismatch)"

definition list_add :: "('k, 'v) heap \<Rightarrow> handle \<Rightarrow> 'v \<Rightarrow> ('k, 'v) heap res" where
  "list_add h a x = bind_res (locked h a) (\<lambda>c. case c of ListCell xs \<Rightarrow> Ok (store_content h a (ListCell (xs @ [x]))) | _ \<Rightarrow> mismatch)"

definition list_clear :: "('k, 'v) heap \<Rightarrow> handle \<Rightarrow> ('k, 'v) heap res" where
  "list_clear h a = bind_res (locked h a) (\<lambda>c. case c of ListCell xs \<Rightarrow> Ok (store_content h a (ListCell [])) | _ \<Rightarrow> mismatch)"

definition map_get :: "('k, 'v) heap \<Rightarrow> handle \<Rightarrow> 'k \<Rightarrow> 'v option res" where
  "map_get h a k = bind_res (locked h a) (\<lambda>c. case c of MapCell m \<Rightarrow> Ok (m k) | _ \<Rightarrow> mismatch)"

definition map_put :: "('k, 'v) heap \<Rightarrow> handle \<Rightarrow> 'k \<Rightarrow> 'v \<Rightarrow> ('k, 'v) heap res" where
  "map_put h a k x = bind_res (locked h a) (\<lambda>c. case c of MapCell m \<Rightarrow> Ok (store_content h a (MapCell (m(k \<mapsto> x)))) | _ \<Rightarrow> mismatch)"

definition map_remove :: "('k, 'v) heap \<Rightarrow> handle \<Rightarrow> 'k \<Rightarrow> ('k, 'v) heap res" where
  "map_remove h a k = bind_res (locked h a) (\<lambda>c. case c of MapCell m \<Rightarrow> Ok (store_content h a (MapCell (m(k := None)))) | _ \<Rightarrow> mismatch)"

definition map_entries :: "('k, 'v) heap \<Rightarrow> handle \<Rightarrow> ('k \<rightharpoonup> 'v) res" where
  "map_entries h a = bind_res (locked h a) (\<lambda>c. case c of MapCell m \<Rightarrow> Ok m | _ \<Rightarrow> mismatch)"

definition map_clear :: "('k, 'v) heap \<Rightarrow> handle \<Rightarrow> ('k, 'v) heap res" where
  "map_clear h a = bind_res (locked h a) (\<lambda>c. case c of MapCell m \<Rightarrow> Ok (store_content h a (MapCell Map.empty)) | _ \<Rightarrow> mismatch)"

subsection \<open>Snapshots of one cell\<close>

text \<open>Serialising may fail (\<open>None\<close>), and so may deserialising. \<open>dec_cell\<close> gets the cell it restores, for
  its type: \<open>Option<V>\<close>, \<open>Vec<V>\<close> or \<open>HashMap<K, V>\<close>.\<close>

record ('k, 'v) state_codec =
  enc_cell :: "('k, 'v) cell_content \<Rightarrow> bytes option"
  dec_cell :: "('k, 'v) cell_content \<Rightarrow> bytes \<Rightarrow> ('k, 'v) cell_content option"
  enc_states :: "(string \<rightharpoonup> bytes) \<Rightarrow> bytes option"
  dec_states :: "bytes \<Rightarrow> (string \<rightharpoonup> bytes) option"
  enc_keys :: "(bytes \<rightharpoonup> bytes) \<Rightarrow> bytes option"
  dec_keys :: "bytes \<Rightarrow> (bytes \<rightharpoonup> bytes) option"

fun same_type :: "('k, 'v) cell_content \<Rightarrow> ('k, 'v) cell_content \<Rightarrow> bool" where
  "same_type (ValueCell _) (ValueCell _) = True"
| "same_type (ListCell _) (ListCell _) = True"
| "same_type (MapCell _) (MapCell _) = True"
| "same_type _ _ = False"

definition codec_laws :: "('k, 'v) state_codec \<Rightarrow> bool" where
  "codec_laws cd \<longleftrightarrow>
     (\<forall>c c' bs. enc_cell cd c = Some bs \<longrightarrow> same_type c c' \<longrightarrow> dec_cell cd c' bs = Some c) \<and>
     (\<forall>m bs. finite (dom m) \<longrightarrow> enc_states cd m = Some bs \<longrightarrow> dec_states cd bs = Some m) \<and>
     (\<forall>m bs. finite (dom m) \<longrightarrow> enc_keys cd m = Some bs \<longrightarrow> dec_keys cd bs = Some m)"

definition serialized :: "bytes option \<Rightarrow> bytes res" where
  "serialized r = (case r of Some bs \<Rightarrow> Ok bs | None \<Rightarrow> Err (SerializationError ''serialize''))"

definition snapshot_bytes :: "('k, 'v) state_codec \<Rightarrow> ('k, 'v) heap \<Rightarrow> handle \<Rightarrow> bytes res" where
  "snapshot_bytes cd h a = bind_res (locked h a) (\<lambda>c. serialized (enc_cell cd c))"

text \<open>\<open>restore_bytes\<close> deserialises before it takes the lock.\<close>

definition restore_bytes :: "('k, 'v) state_codec \<Rightarrow> ('k, 'v) heap \<Rightarrow> handle \<Rightarrow> bytes \<Rightarrow> ('k, 'v) heap res" where
  "restore_bytes cd h a data =
     (if a < length h then
        (case dec_cell cd (content (h ! a)) data of
           None \<Rightarrow> Err (SerializationError ''deserialize'')
         | Some c \<Rightarrow> bind_res (locked h a) (\<lambda>_. Ok (store_content h a c)))
      else Panic ''dangling handle'')"

subsection \<open>The backend of one key\<close>

type_synonym backend = "string \<rightharpoonup> handle"

definition backend_new :: backend where "backend_new = Map.empty"

definition check_duplicate :: "backend \<Rightarrow> string \<Rightarrow> unit res" where
  "check_duplicate b name = (if b name \<noteq> None then Err (StateError ''already registered'') else Ok ())"

definition create_state :: "('k, 'v) cell_content \<Rightarrow> ('k, 'v) heap \<Rightarrow> backend \<Rightarrow> string \<Rightarrow>
    (('k, 'v) heap \<times> backend \<times> handle) res" where
  "create_state c h b name =
     bind_res (check_duplicate b name) (\<lambda>_. Ok (h @ [\<lparr>content = c, poisoned = False\<rparr>], b(name \<mapsto> length h), length h))"

definition create_value_state :: "('k, 'v) heap \<Rightarrow> backend \<Rightarrow> string \<Rightarrow> (('k, 'v) heap \<times> backend \<times> handle) res" where
  "create_value_state = create_state (ValueCell None)"

definition create_list_state :: "('k, 'v) heap \<Rightarrow> backend \<Rightarrow> string \<Rightarrow> (('k, 'v) heap \<times> backend \<times> handle) res" where
  "create_list_state = create_state (ListCell [])"

definition create_map_state :: "('k, 'v) heap \<Rightarrow> backend \<Rightarrow> string \<Rightarrow> (('k, 'v) heap \<times> backend \<times> handle) res" where
  "create_map_state = create_state (MapCell Map.empty)"

text \<open>\<open>names\<close> is the order in which the hash map is iterated.\<close>

fun snapshot_states :: "('k, 'v) state_codec \<Rightarrow> ('k, 'v) heap \<Rightarrow> backend \<Rightarrow> string list \<Rightarrow> (string \<rightharpoonup> bytes) \<Rightarrow> (string \<rightharpoonup> bytes) res" where
  "snapshot_states cd h b [] m = Ok m"
| "snapshot_states cd h b (n # ns) m =
     bind_res (snapshot_bytes cd h (the (b n))) (\<lambda>bs. snapshot_states cd h b ns (m(n \<mapsto> bs)))"

definition backend_snapshot :: "('k, 'v) state_codec \<Rightarrow> ('k, 'v) heap \<Rightarrow> backend \<Rightarrow> string list \<Rightarrow> bytes res" where
  "backend_snapshot cd h b names =
     bind_res (snapshot_states cd h b names Map.empty) (\<lambda>m. serialized (enc_states cd m))"

fun restore_states :: "('k, 'v) state_codec \<Rightarrow> backend \<Rightarrow> (string \<rightharpoonup> bytes) \<Rightarrow> string list \<Rightarrow> ('k, 'v) heap \<Rightarrow>
    ('k, 'v) heap \<times> unit res" where
  "restore_states cd b m [] h = (h, Ok ())"
| "restore_states cd b m (n # ns) h =
     (case b n of
        None \<Rightarrow> restore_states cd b m ns h
      | Some a \<Rightarrow>
          (case restore_bytes cd h a (the (m n)) of
             Ok h' \<Rightarrow> restore_states cd b m ns h'
           | Err e \<Rightarrow> (h, Err e)
           | Panic p \<Rightarrow> (h, Panic p)))"

text \<open>\<open>order\<close> gives an iteration order of the deserialised map.\<close>

definition backend_restore :: "('k, 'v) state_codec \<Rightarrow> ((string \<rightharpoonup> bytes) \<Rightarrow> string list) \<Rightarrow> backend \<Rightarrow> bytes \<Rightarrow> ('k, 'v) heap \<Rightarrow>
    ('k, 'v) heap \<times> unit res" where
  "backend_restore cd order b data h =
     (case dec_states cd data of
        None \<Rightarrow> (h, Err (SerializationError ''deserialize''))
      | Some m \<Rightarrow> restore_states cd b m (order m) h)"

subsection \<open>The keyed backend\<close>

record keyed_backend =
  backends :: "bytes \<rightharpoonup> backend"
  kb_current_key :: "bytes option"

definition keyed_new :: keyed_backend where
  "keyed_new = \<lparr>backends = Map.empty, kb_current_key = None\<rparr>"

text \<open>\<open>set_current_key\<close>: \<open>ser\<close> is what serialising the key gives.\<close>

definition set_current_state_key :: "keyed_backend \<Rightarrow> bytes option \<Rightarrow> keyed_backend \<times> unit res" where
  "set_current_state_key kb ser =
     (case ser of
        None \<Rightarrow> (kb, Err (SerializationError ''serialize''))
      | Some bs \<Rightarrow> (kb\<lparr>kb_current_key := Some bs\<rparr>, Ok ()))"

definition clear_current_key :: "keyed_backend \<Rightarrow> keyed_backend" where
  "clear_current_key kb = kb\<lparr>kb_current_key := None\<rparr>"

definition current_backend :: "keyed_backend \<Rightarrow> (bytes \<times> backend) res" where
  "current_backend kb =
     (case kb_current_key kb of
        None \<Rightarrow> Err (StateError ''no current key set'')
      | Some k \<Rightarrow> Ok (k, case backends kb k of Some b \<Rightarrow> b | None \<Rightarrow> backend_new))"

text \<open>\<open>entry(key).or_default()\<close> leaves the backend of the key behind even when creating the state fails.\<close>

definition keyed_create :: "(('k, 'v) heap \<Rightarrow> backend \<Rightarrow> string \<Rightarrow> (('k, 'v) heap \<times> backend \<times> handle) res) \<Rightarrow>
    ('k, 'v) heap \<Rightarrow> keyed_backend \<Rightarrow> string \<Rightarrow> ('k, 'v) heap \<times> keyed_backend \<times> handle res" where
  "keyed_create create h kb name =
     (case current_backend kb of
        Ok (k, b) \<Rightarrow>
          (case create h b name of
             Ok (h', b', a) \<Rightarrow> (h', kb\<lparr>backends := (backends kb)(k \<mapsto> b')\<rparr>, Ok a)
           | Err e \<Rightarrow> (h, kb\<lparr>backends := (backends kb)(k \<mapsto> b)\<rparr>, Err e)
           | Panic p \<Rightarrow> (h, kb\<lparr>backends := (backends kb)(k \<mapsto> b)\<rparr>, Panic p))
      | Err e \<Rightarrow> (h, kb, Err e)
      | Panic p \<Rightarrow> (h, kb, Panic p))"

fun snapshot_keys :: "('k, 'v) state_codec \<Rightarrow> (bytes \<Rightarrow> string list) \<Rightarrow> ('k, 'v) heap \<Rightarrow> keyed_backend \<Rightarrow> bytes list \<Rightarrow>
    (bytes \<rightharpoonup> bytes) \<Rightarrow> (bytes \<rightharpoonup> bytes) res" where
  "snapshot_keys cd names h kb [] m = Ok m"
| "snapshot_keys cd names h kb (k # ks) m =
     bind_res (backend_snapshot cd h (the (backends kb k)) (names k)) (\<lambda>bs. snapshot_keys cd names h kb ks (m(k \<mapsto> bs)))"

definition keyed_snapshot :: "('k, 'v) state_codec \<Rightarrow> (bytes \<Rightarrow> string list) \<Rightarrow> bytes list \<Rightarrow> ('k, 'v) heap \<Rightarrow> keyed_backend \<Rightarrow> bytes res" where
  "keyed_snapshot cd names keys h kb =
     bind_res (snapshot_keys cd names h kb keys Map.empty) (\<lambda>m. serialized (enc_keys cd m))"

fun restore_keys :: "('k, 'v) state_codec \<Rightarrow> ((string \<rightharpoonup> bytes) \<Rightarrow> string list) \<Rightarrow> keyed_backend \<Rightarrow> (bytes \<rightharpoonup> bytes) \<Rightarrow>
    bytes list \<Rightarrow> ('k, 'v) heap \<Rightarrow> ('k, 'v) heap \<times> unit res" where
  "restore_keys cd order kb m [] h = (h, Ok ())"
| "restore_keys cd order kb m (k # ks) h =
     (case backends kb k of
        None \<Rightarrow> restore_keys cd order kb m ks h
      | Some b \<Rightarrow>
          (case backend_restore cd order b (the (m k)) h of
             (h', Ok _) \<Rightarrow> restore_keys cd order kb m ks h'
           | (h', Err e) \<Rightarrow> (h', Err e)
           | (h', Panic p) \<Rightarrow> (h', Panic p)))"

definition keyed_restore :: "('k, 'v) state_codec \<Rightarrow> ((string \<rightharpoonup> bytes) \<Rightarrow> string list) \<Rightarrow> ((bytes \<rightharpoonup> bytes) \<Rightarrow> bytes list) \<Rightarrow>
    keyed_backend \<Rightarrow> bytes \<Rightarrow> ('k, 'v) heap \<Rightarrow> ('k, 'v) heap \<times> unit res" where
  "keyed_restore cd order key_order kb data h =
     (case dec_keys cd data of
        None \<Rightarrow> (h, Err (SerializationError ''deserialize''))
      | Some m \<Rightarrow> restore_keys cd order kb m (key_order m) h)"

subsection \<open>Aliasing\<close>

definition state_of :: "keyed_backend \<Rightarrow> bytes \<Rightarrow> string \<Rightarrow> handle option" where
  "state_of kb k n = (case backends kb k of None \<Rightarrow> None | Some b \<Rightarrow> b n)"

text \<open>Every registered handle is allocated, and no two states share one.\<close>

definition keyed_wf :: "('k, 'v) heap \<Rightarrow> keyed_backend \<Rightarrow> bool" where
  "keyed_wf h kb \<longleftrightarrow>
     (\<forall>k n a. state_of kb k n = Some a \<longrightarrow> a < length h) \<and>
     (\<forall>k n k' n' a. state_of kb k n = Some a \<longrightarrow> state_of kb k' n' = Some a \<longrightarrow> k = k' \<and> n = n')"

lemma keyed_wf_bound: "keyed_wf h kb \<Longrightarrow> state_of kb k n = Some a \<Longrightarrow> a < length h"
  by (auto simp: keyed_wf_def)

lemma keyed_wf_inj: "keyed_wf h kb \<Longrightarrow> state_of kb k n = Some a \<Longrightarrow> state_of kb k' n' = Some a \<Longrightarrow> k = k' \<and> n = n'"
  by (auto simp: keyed_wf_def)

subsection \<open>Restoring\<close>

lemma same_type_refl [simp]: "same_type c c"
  by (cases c) auto

lemma same_type_trans: "same_type a b \<Longrightarrow> same_type b c \<Longrightarrow> same_type a c"
  by (cases a; cases b; cases c) auto

lemma same_type_sym: "same_type a b \<Longrightarrow> same_type b a"
  by (cases a; cases b) auto

text \<open>\<open>restores h b ns tgt h'\<close>: the states of \<open>b\<close> named in \<open>ns\<close> hold \<open>tgt\<close>, everything else is as it was.\<close>

definition restores :: "('k, 'v) heap \<Rightarrow> (handle \<Rightarrow> ('k, 'v) cell_content option) \<Rightarrow> ('k, 'v) heap \<Rightarrow> bool" where
  "restores h tgt h' \<longleftrightarrow> length h' = length h \<and>
     (\<forall>a<length h. poisoned (h' ! a) = poisoned (h ! a) \<and>
        content (h' ! a) = (case tgt a of Some c \<Rightarrow> c | None \<Rightarrow> content (h ! a)))"

definition restorable :: "('k, 'v) state_codec \<Rightarrow> ('k, 'v) heap \<Rightarrow> handle \<Rightarrow> bytes \<Rightarrow> ('k, 'v) cell_content \<Rightarrow> bool" where
  "restorable cd h a bs c \<longleftrightarrow> a < length h \<and> \<not> poisoned (h ! a) \<and> same_type c (content (h ! a)) \<and>
     (\<forall>c'. same_type c c' \<longrightarrow> dec_cell cd c' bs = Some c)"

lemma restore_bytes_ok:
  "restorable cd h a bs c \<Longrightarrow> restore_bytes cd h a bs = Ok (store_content h a c)"
  by (auto simp: restorable_def restore_bytes_def locked_def)

lemma restores_refl [simp]: "restores h (\<lambda>_. None) h"
  by (simp add: restores_def)

lemma restores_store: "a < length h \<Longrightarrow> restores h (\<lambda>x. if x = a then Some c else None) (store_content h a c)"
  by (auto simp: restores_def store_content_def nth_list_update)

lemma restores_trans:
  assumes "restores h t1 h1" and "restores h1 t2 h2"
  shows "restores h (\<lambda>a. case t2 a of Some c \<Rightarrow> Some c | None \<Rightarrow> t1 a) h2"
  using assms by (auto simp: restores_def split: option.splits)

lemma restores_cong: "restores h t h' \<Longrightarrow> (\<And>a. a < length h \<Longrightarrow> t a = t' a) \<Longrightarrow> restores h t' h'"
  by (auto simp: restores_def)

lemma restorable_store:
  "restorable cd h a bs c \<Longrightarrow> same_type d (content (h ! x)) \<Longrightarrow> x < length h \<Longrightarrow> restorable cd (store_content h x d) a bs c"
  by (auto simp: restorable_def store_content_def nth_list_update intro: same_type_trans same_type_sym)

lemma restore_states_exact:
  assumes "\<And>n a. n \<in> set ns \<Longrightarrow> b n = Some a \<Longrightarrow> restorable cd h a (the (m n)) (tgt n)"
    and "\<And>n n' a. b n = Some a \<Longrightarrow> b n' = Some a \<Longrightarrow> n = n'"
  shows "\<exists>h' t. restore_states cd b m ns h = (h', Ok ()) \<and> restores h t h' \<and>
    (\<forall>n a. b n = Some a \<longrightarrow> t a = (if n \<in> set ns then Some (tgt n) else None)) \<and>
    (\<forall>a. (\<forall>n\<in>set ns. b n \<noteq> Some a) \<longrightarrow> t a = None)"
  using assms(1)
proof (induction ns arbitrary: h)
  case Nil
  then show ?case by (intro exI [of _ h] exI [of _ "\<lambda>_. None"]) simp
next
  case (Cons n ns)
  show ?case
  proof (cases "b n")
    case None
    from Cons.IH [of h] Cons.prems obtain h' t where
      "restore_states cd b m ns h = (h', Ok ())" "restores h t h'"
      "\<forall>n a. b n = Some a \<longrightarrow> t a = (if n \<in> set ns then Some (tgt n) else None)"
      "\<forall>a. (\<forall>n\<in>set ns. b n \<noteq> Some a) \<longrightarrow> t a = None"
      by auto
    with None show ?thesis by (intro exI [of _ h'] exI [of _ t]) auto
  next
    case (Some a)
    have r: "restorable cd h a (the (m n)) (tgt n)" using Cons.prems Some by simp
    let ?h = "store_content h a (tgt n)"
    have "restorable cd ?h x (the (m k)) (tgt k)" if "k \<in> set ns" "b k = Some x" for k x
    proof (rule restorable_store)
      show "restorable cd h x (the (m k)) (tgt k)" using Cons.prems that by simp
      show "same_type (tgt n) (content (h ! a))" "a < length h" using r by (simp_all add: restorable_def)
    qed
    from Cons.IH [OF this] obtain h' t where IH: "restore_states cd b m ns ?h = (h', Ok ())" "restores ?h t h'"
      "\<forall>n a. b n = Some a \<longrightarrow> t a = (if n \<in> set ns then Some (tgt n) else None)"
      "\<forall>a. (\<forall>n\<in>set ns. b n \<noteq> Some a) \<longrightarrow> t a = None"
      by blast
    have a: "a < length h" using r by (simp add: restorable_def)
    let ?t = "\<lambda>x. case t x of Some c \<Rightarrow> Some c | None \<Rightarrow> if x = a then Some (tgt n) else None"
    have "restores h ?t h'" using restores_trans [OF restores_store [OF a] IH(2)] .
    moreover have "?t x = (if k \<in> set (n # ns) then Some (tgt k) else None)" if "b k = Some x" for k x
      using IH(3) that Some assms(2) [of k x n] by (auto split: option.split)
    moreover have "?t x = None" if "\<forall>k\<in>set (n # ns). b k \<noteq> Some x" for x
      using IH(4) that Some by auto
    ultimately show ?thesis using IH(1) Some restore_bytes_ok [OF r]
      by (intro exI [of _ h'] exI [of _ ?t]) simp
  qed
qed

text \<open>What a snapshot holds.\<close>

lemma serialized_Ok [simp]: "serialized r = Ok bs \<longleftrightarrow> r = Some bs"
  by (cases r) (auto simp: serialized_def)

lemma snapshot_states_exact:
  "snapshot_states cd h b ns m = Ok m' \<Longrightarrow>
   dom m' = dom m \<union> set ns \<and> (\<forall>n. n \<notin> set ns \<longrightarrow> m' n = m n) \<and>
   (\<forall>n\<in>set ns. m' n = enc_cell cd (content (h ! the (b n))) \<and> m' n \<noteq> None)"
proof (induction ns arbitrary: m)
  case (Cons n ns)
  from Cons.prems obtain bs where bs: "snapshot_bytes cd h (the (b n)) = Ok bs" "snapshot_states cd h b ns (m(n \<mapsto> bs)) = Ok m'"
    by (auto simp: res_simps)
  have enc: "enc_cell cd (content (h ! the (b n))) = Some bs"
    using bs(1) by (auto simp: snapshot_bytes_def locked_def split: if_splits)
  have IH: "dom m' = dom (m(n \<mapsto> bs)) \<union> set ns" "\<forall>k. k \<notin> set ns \<longrightarrow> m' k = (m(n \<mapsto> bs)) k"
    "\<forall>k\<in>set ns. m' k = enc_cell cd (content (h ! the (b k))) \<and> m' k \<noteq> None"
    using Cons.IH [OF bs(2)] by blast+
  show ?case
  proof (intro conjI ballI allI impI)
    show "dom m' = dom m \<union> set (n # ns)" using IH(1) by auto
    show "m' k = m k" if "k \<notin> set (n # ns)" for k using IH(2) that by auto
    fix k assume that: "k \<in> set (n # ns)"
    have "m' k = enc_cell cd (content (h ! the (b k))) \<and> m' k \<noteq> None"
    proof (cases "k \<in> set ns")
      case False
      with that have "k = n" "m' k = Some bs" using IH(2) by simp_all
      then show ?thesis using enc by simp
    qed (use IH(3) in blast)
    then show "m' k = enc_cell cd (content (h ! the (b k)))" "m' k \<noteq> None" by blast+
  qed
qed simp

lemma backend_roundtrip:
  assumes laws: "codec_laws cd" and order: "\<And>m. finite (dom m) \<Longrightarrow> iterates m (order m)"
    and names: "iterates b names" and snap: "backend_snapshot cd h b names = Ok data"
    and live: "\<And>n a a'. b n = Some a \<Longrightarrow> b' n = Some a' \<Longrightarrow>
      a' < length h' \<and> \<not> poisoned (h' ! a') \<and> same_type (content (h ! a)) (content (h' ! a'))"
    and inj: "\<And>n n' a. b' n = Some a \<Longrightarrow> b' n' = Some a \<Longrightarrow> n = n'"
  shows "\<exists>h'' t. backend_restore cd order b' data h' = (h'', Ok ()) \<and> restores h' t h'' \<and>
    (\<forall>n a'. b' n = Some a' \<longrightarrow> t a' = (case b n of Some a \<Rightarrow> Some (content (h ! a)) | None \<Rightarrow> None)) \<and>
    (\<forall>a'. (\<forall>n. b n = None \<or> b' n \<noteq> Some a') \<longrightarrow> t a' = None)"
proof -
  obtain m where m: "snapshot_states cd h b names Map.empty = Ok m" "enc_states cd m = Some data"
    using snap by (auto simp: backend_snapshot_def res_simps)
  note exact = snapshot_states_exact [OF m(1)]
  have dom: "dom m = dom b" using exact names by (simp add: iterates_def)
  have enc: "\<exists>bs. m n = Some bs \<and> enc_cell cd (content (h ! a)) = Some bs" if a: "b n = Some a" for n a
  proof -
    have "n \<in> set names" using names a by (auto simp: iterates_def)
    with exact have "m n = enc_cell cd (content (h ! the (b n)))" "m n \<noteq> None" by blast+
    then show ?thesis using a by (cases "m n") simp_all
  qed
  have fin: "finite (dom m)" using names dom by (metis iterates_def finite_set)
  then have dec: "dec_states cd data = Some m" using laws m(2) by (simp add: codec_laws_def)
  have ord: "set (order m) = dom b" using order [OF fin] dom by (simp add: iterates_def)
  let ?tgt = "\<lambda>n. content (h ! the (b n))"
  have rest: "restorable cd h' a' (the (m n)) (?tgt n)" if n: "n \<in> set (order m)" and a': "b' n = Some a'" for n a'
  proof -
    from n ord obtain a where a: "b n = Some a" by auto
    from enc [OF a] obtain bs where bs: "m n = Some bs" "enc_cell cd (content (h ! a)) = Some bs" by blast
    from live [OF a a'] bs laws a show ?thesis by (auto simp: restorable_def codec_laws_def)
  qed
  have "\<exists>h'' t. restore_states cd b' m (order m) h' = (h'', Ok ()) \<and> restores h' t h'' \<and>
      (\<forall>n a. b' n = Some a \<longrightarrow> t a = (if n \<in> set (order m) then Some (?tgt n) else None)) \<and>
      (\<forall>a. (\<forall>n\<in>set (order m). b' n \<noteq> Some a) \<longrightarrow> t a = None)"
    by (rule restore_states_exact) (use rest inj in blast)+
  then obtain h'' t where
    r: "restore_states cd b' m (order m) h' = (h'', Ok ())" "restores h' t h''"
      "\<forall>n a. b' n = Some a \<longrightarrow> t a = (if n \<in> set (order m) then Some (?tgt n) else None)"
      "\<forall>a. (\<forall>n\<in>set (order m). b' n \<noteq> Some a) \<longrightarrow> t a = None"
    by blast
  show ?thesis
  proof (intro exI conjI allI impI)
    show "backend_restore cd order b' data h' = (h'', Ok ())" using r(1) dec by (simp add: backend_restore_def)
    show "restores h' t h''" by (rule r(2))
    show "t a' = (case b n of Some a \<Rightarrow> Some (content (h ! a)) | None \<Rightarrow> None)" if "b' n = Some a'" for n a'
      using r(3) that ord by (auto simp: domIff split: option.split)
    show "t a' = None" if "\<forall>n. b n = None \<or> b' n \<noteq> Some a'" for a'
      using r(4) that ord by (auto simp: domIff)
  qed
qed

lemma snapshot_keys_exact:
  "snapshot_keys cd names h kb ks m = Ok m' \<Longrightarrow>
   dom m' = dom m \<union> set ks \<and> (\<forall>k. k \<notin> set ks \<longrightarrow> m' k = m k) \<and>
   (\<forall>k\<in>set ks. \<exists>bs. m' k = Some bs \<and> backend_snapshot cd h (the (backends kb k)) (names k) = Ok bs)"
proof (induction ks arbitrary: m)
  case (Cons k ks)
  from Cons.prems obtain bs where bs: "backend_snapshot cd h (the (backends kb k)) (names k) = Ok bs"
    "snapshot_keys cd names h kb ks (m(k \<mapsto> bs)) = Ok m'"
    by (auto simp: res_simps)
  have IH: "dom m' = dom (m(k \<mapsto> bs)) \<union> set ks" "\<forall>x. x \<notin> set ks \<longrightarrow> m' x = (m(k \<mapsto> bs)) x"
    "\<forall>x\<in>set ks. \<exists>bs. m' x = Some bs \<and> backend_snapshot cd h (the (backends kb x)) (names x) = Ok bs"
    using Cons.IH [OF bs(2)] by blast+
  show ?case
  proof (intro conjI ballI allI impI)
    show "dom m' = dom m \<union> set (k # ks)" using IH(1) by auto
    show "m' x = m x" if "x \<notin> set (k # ks)" for x using IH(2) that by auto
    fix x assume that: "x \<in> set (k # ks)"
    show "\<exists>bs. m' x = Some bs \<and> backend_snapshot cd h (the (backends kb x)) (names x) = Ok bs"
    proof (cases "x \<in> set ks")
      case False
      with that have "x = k" "m' x = Some bs" using IH(2) by simp_all
      then show ?thesis using bs(1) by simp
    qed (use IH(3) in blast)
  qed
qed simp

text \<open>The states of a snapshot that the restoring backend also has, cell by cell.\<close>

definition compatible :: "('k, 'v) heap \<Rightarrow> keyed_backend \<Rightarrow> ('k, 'v) heap \<Rightarrow> keyed_backend \<Rightarrow> bool" where
  "compatible h kb h' kb' \<longleftrightarrow>
     (\<forall>k n a a'. state_of kb k n = Some a \<longrightarrow> state_of kb' k n = Some a' \<longrightarrow>
        \<not> poisoned (h' ! a') \<and> same_type (content (h ! a)) (content (h' ! a')))"

definition snapshot_order where
  "snapshot_order kb names keys \<longleftrightarrow> iterates (backends kb) keys \<and> (\<forall>k b. backends kb k = Some b \<longrightarrow> iterates b (names k))"

lemma restores_same_type:
  assumes "restores h t h'" and "a < length h" and "\<forall>c. t a = Some c \<longrightarrow> same_type c (content (h ! a))"
    and "same_type d (content (h ! a))"
  shows "same_type d (content (h' ! a))"
proof (cases "t a")
  case None
  with assms show ?thesis by (simp add: restores_def)
next
  case (Some c)
  with assms(1,2) have "content (h' ! a) = c" by (simp add: restores_def)
  with same_type_trans [OF assms(4) same_type_sym] assms(3) Some show ?thesis by simp
qed

lemma restore_keys_exact:
  assumes laws: "codec_laws cd" and order: "\<And>m. finite (dom m) \<Longrightarrow> iterates m (order m)"
    and names: "\<And>k b. backends kb k = Some b \<Longrightarrow> iterates b (names k)"
    and snap: "\<And>k. k \<in> set ks \<Longrightarrow> \<exists>b bs. backends kb k = Some b \<and> m k = Some bs \<and> backend_snapshot cd h b (names k) = Ok bs"
  shows "distinct ks \<Longrightarrow> keyed_wf h' kb' \<Longrightarrow> compatible h kb h' kb' \<Longrightarrow>
    \<exists>h'' t. restore_keys cd order kb' m ks h' = (h'', Ok ()) \<and> restores h' t h'' \<and>
      (\<forall>k n a'. state_of kb' k n = Some a' \<longrightarrow> t a' = (if k \<in> set ks then map_option (\<lambda>a. content (h ! a)) (state_of kb k n) else None)) \<and>
      (\<forall>a'. (\<forall>k n. state_of kb k n = None \<or> state_of kb' k n \<noteq> Some a') \<longrightarrow> t a' = None)"
  using snap
proof (induction ks arbitrary: h')
  case Nil
  then show ?case by (intro exI [of _ h'] exI [of _ "\<lambda>_. None"]) simp
next
  case (Cons k ks)
  have snap': "\<And>x. x \<in> set ks \<Longrightarrow> \<exists>b bs. backends kb x = Some b \<and> m x = Some bs \<and> backend_snapshot cd h b (names x) = Ok bs"
    using Cons.prems(4) by simp
  show ?case
  proof (cases "backends kb' k")
    case None
    from Cons.IH [OF _ Cons.prems(2,3) snap'] Cons.prems(1) obtain h'' t where
      "restore_keys cd order kb' m ks h' = (h'', Ok ())" "restores h' t h''"
      "\<forall>k n a'. state_of kb' k n = Some a' \<longrightarrow> t a' = (if k \<in> set ks then map_option (\<lambda>a. content (h ! a)) (state_of kb k n) else None)"
      "\<forall>a'. (\<forall>k n. state_of kb k n = None \<or> state_of kb' k n \<noteq> Some a') \<longrightarrow> t a' = None"
      by auto
    with None show ?thesis by (intro exI [of _ h''] exI [of _ t]) (auto simp: state_of_def)
  next
    case (Some b')
    from Cons.prems(4) [of k] obtain b bs where b: "backends kb k = Some b" "m k = Some bs"
      "backend_snapshot cd h b (names k) = Ok bs" by auto
    have live: "a' < length h' \<and> \<not> poisoned (h' ! a') \<and> same_type (content (h ! a)) (content (h' ! a'))"
      if "b n = Some a" "b' n = Some a'" for n a a'
    proof -
      have st: "state_of kb k n = Some a" "state_of kb' k n = Some a'" using that b Some by (simp_all add: state_of_def)
      from keyed_wf_bound [OF Cons.prems(2) st(2)] st Cons.prems(3) show ?thesis by (auto simp: compatible_def)
    qed
    have inj: "n = n'" if "b' n = Some a" "b' n' = Some a" for n n' a
      using keyed_wf_inj [OF Cons.prems(2), of k n a k n'] that Some by (simp add: state_of_def)
    have "\<exists>h1 t1. backend_restore cd order b' bs h' = (h1, Ok ()) \<and> restores h' t1 h1 \<and>
      (\<forall>n a'. b' n = Some a' \<longrightarrow> t1 a' = (case b n of Some a \<Rightarrow> Some (content (h ! a)) | None \<Rightarrow> None)) \<and>
      (\<forall>a'. (\<forall>n. b n = None \<or> b' n \<noteq> Some a') \<longrightarrow> t1 a' = None)"
      by (rule backend_roundtrip [OF laws _ names [OF b(1)] b(3)]) (use order live inj in blast)+
    then obtain h1 t1 where r1: "backend_restore cd order b' bs h' = (h1, Ok ())" "restores h' t1 h1"
      "\<forall>n a'. b' n = Some a' \<longrightarrow> t1 a' = (case b n of Some a \<Rightarrow> Some (content (h ! a)) | None \<Rightarrow> None)"
      "\<forall>a'. (\<forall>n. b n = None \<or> b' n \<noteq> Some a') \<longrightarrow> t1 a' = None"
      by blast
    have len: "length h1 = length h'" using r1(2) by (simp add: restores_def)
    have wf1: "keyed_wf h1 kb'" using Cons.prems(2) len by (simp add: keyed_wf_def)
    have "compatible h kb h1 kb'" unfolding compatible_def
    proof (intro allI impI)
      fix x n a a' assume st: "state_of kb x n = Some a" "state_of kb' x n = Some a'"
      have bound: "a' < length h'" by (rule keyed_wf_bound [OF Cons.prems(2) st(2)])
      have same: "same_type (content (h ! a)) (content (h' ! a'))" "\<not> poisoned (h' ! a')"
        using Cons.prems(3) st by (auto simp: compatible_def)
      have "\<forall>c. t1 a' = Some c \<longrightarrow> same_type c (content (h' ! a'))"
      proof (intro allI impI)
        fix c assume c: "t1 a' = Some c"
        with r1(4) obtain n' y where n': "b n' = Some y" "b' n' = Some a'" by (metis option.distinct(1) option.exhaust)
        with r1(3) c live [OF n'] show "same_type c (content (h' ! a'))" by auto
      qed
      with restores_same_type [OF r1(2) bound _ same(1)] same(2) r1(2) bound
      show "\<not> poisoned (h1 ! a') \<and> same_type (content (h ! a)) (content (h1 ! a'))" by (simp add: restores_def)
    qed
    from Cons.IH [OF _ wf1 this snap'] Cons.prems(1) obtain h'' t2 where r2:
      "restore_keys cd order kb' m ks h1 = (h'', Ok ())" "restores h1 t2 h''"
      "\<forall>k n a'. state_of kb' k n = Some a' \<longrightarrow> t2 a' = (if k \<in> set ks then map_option (\<lambda>a. content (h ! a)) (state_of kb k n) else None)"
      "\<forall>a'. (\<forall>k n. state_of kb k n = None \<or> state_of kb' k n \<noteq> Some a') \<longrightarrow> t2 a' = None"
      by auto
    let ?t = "\<lambda>a. case t2 a of Some c \<Rightarrow> Some c | None \<Rightarrow> t1 a"
    have t: "?t a' = (if x \<in> set (k # ks) then map_option (\<lambda>a. content (h ! a)) (state_of kb x n) else None)"
      if st: "state_of kb' x n = Some a'" for x n a'
    proof (cases "x = k")
      case True
      then have "t2 a' = None" using r2(3) st Cons.prems(1) by simp
      moreover have "t1 a' = (case b n of Some a \<Rightarrow> Some (content (h ! a)) | None \<Rightarrow> None)"
        using r1(3) st True Some by (simp add: state_of_def)
      ultimately show ?thesis using True b(1) by (simp add: state_of_def split: option.split)
    next
      case False
      have "t1 a' = None"
      proof -
        have "b' n' \<noteq> Some a'" for n'
          using keyed_wf_inj [OF Cons.prems(2) st, of k n'] False Some by (auto simp: state_of_def)
        with r1(4) show ?thesis by blast
      qed
      with r2(3) st False show ?thesis by (auto split: option.split)
    qed
    have t': "?t a' = None" if none: "\<forall>x n. state_of kb x n = None \<or> state_of kb' x n \<noteq> Some a'" for a'
    proof -
      have "\<forall>n. b n = None \<or> b' n \<noteq> Some a'" using none [rule_format, of k] b(1) Some by (simp add: state_of_def)
      with r1(4) r2(4) none show ?thesis by simp
    qed
    have "restore_keys cd order kb' m (k # ks) h' = (h'', Ok ())" using Some b(2) r1(1) r2(1) by simp
    with restores_trans [OF r1(2) r2(2)] t t' show ?thesis by blast
  qed
qed

lemma create_fresh:
  assumes "keyed_wf h kb" and "keyed_create (create_state c) h kb name = (h', kb', r)"
  shows "keyed_wf h' kb'" and "state_of kb k n = Some a \<Longrightarrow> state_of kb' k n = Some a \<and> h' ! a = h ! a"
    and "r = Ok a \<Longrightarrow> a = length h \<and> state_of kb (the (kb_current_key kb)) name = None \<and>
      state_of kb' (the (kb_current_key kb)) name = Some a \<and> content (h' ! a) = c"
proof -
  have "keyed_wf h' kb' \<and> (state_of kb k n = Some a \<longrightarrow> state_of kb' k n = Some a \<and> h' ! a = h ! a) \<and>
    (r = Ok a \<longrightarrow> a = length h \<and> state_of kb (the (kb_current_key kb)) name = None \<and>
      state_of kb' (the (kb_current_key kb)) name = Some a \<and> content (h' ! a) = c)" for a
  proof (cases "kb_current_key kb")
    case None
    with assms show ?thesis by (auto simp: keyed_create_def current_backend_def)
  next
    case (Some key)
    let ?b = "case backends kb key of Some b \<Rightarrow> b | None \<Rightarrow> backend_new"
    have b: "?b n' = state_of kb key n'" for n' by (simp add: state_of_def backend_new_def split: option.split)
    show ?thesis
    proof (cases "?b name")
      case None
      have eq: "h' = h @ [\<lparr>content = c, poisoned = False\<rparr>]" "kb' = kb\<lparr>backends := (backends kb)(key \<mapsto> ?b(name \<mapsto> length h))\<rparr>" "r = Ok (length h)"
        using assms(2) Some None by (auto simp: keyed_create_def current_backend_def create_state_def check_duplicate_def)
      have st: "state_of kb' x y = (if x = key \<and> y = name then Some (length h) else state_of kb x y)" for x y
        unfolding eq(2) by (simp add: state_of_def [of "kb\<lparr>backends := _\<rparr>"] b) (simp add: state_of_def)
      have lt: "state_of kb x y = Some z \<Longrightarrow> z < length h" for x y z using assms(1) by (simp add: keyed_wf_def)
      have wf: "keyed_wf h' kb'"
        unfolding keyed_wf_def st eq(1)
      proof (intro conjI allI impI)
        fix x y z assume "(if x = key \<and> y = name then Some (length h) else state_of kb x y) = Some z"
        then show "z < length (h @ [\<lparr>content = c, poisoned = False\<rparr>])" using lt [of x y z] by (auto split: if_splits)
      next
        fix x y x' y' z
        assume "(if x = key \<and> y = name then Some (length h) else state_of kb x y) = Some z"
          "(if x' = key \<and> y' = name then Some (length h) else state_of kb x' y') = Some z"
        then show "x = x'" "y = y'" using lt [of x y z] lt [of x' y' z] keyed_wf_inj [OF assms(1), of x y z x' y']
          by (auto split: if_splits)
      qed
      have "state_of kb' k n = Some a \<and> h' ! a = h ! a" if "state_of kb k n = Some a"
        using that lt [OF that] None b by (auto simp: st eq(1) nth_append)
      with wf st eq None b Some show ?thesis by auto
    next
      case (Some old)
      have eq: "h' = h" "kb' = kb\<lparr>backends := (backends kb)(key \<mapsto> ?b)\<rparr>" "r \<noteq> Ok a"
        using assms(2) \<open>kb_current_key kb = Some key\<close> Some
        by (auto simp: keyed_create_def current_backend_def create_state_def check_duplicate_def)
      have st: "state_of kb' x y = state_of kb x y" for x y
        unfolding eq(2) by (simp add: state_of_def [of "kb\<lparr>backends := _\<rparr>"] b) (simp add: state_of_def)
      with assms(1) eq show ?thesis by (simp add: keyed_wf_def)
    qed
  qed
  then show "keyed_wf h' kb'" "state_of kb k n = Some a \<Longrightarrow> state_of kb' k n = Some a \<and> h' ! a = h ! a"
    "r = Ok a \<Longrightarrow> a = length h \<and> state_of kb (the (kb_current_key kb)) name = None \<and>
      state_of kb' (the (kb_current_key kb)) name = Some a \<and> content (h' ! a) = c"
    by blast+
qed

subsection \<open>Properties\<close>

text \<open>C8. Snapshot and restore round trip. A snapshot taken of a keyed backend, restored later into a backend
  whose states of the same key and name have the same type and are not poisoned, succeeds; every
  state both backends have then holds the content it had at the snapshot, and no other cell changes.
  For every order in which the hash maps are iterated.\<close>

theorem keyed_snapshot_roundtrip:
  assumes "codec_laws cd" and "\<And>m. finite (dom m) \<Longrightarrow> iterates m (order m)" and "\<And>m. finite (dom m) \<Longrightarrow> iterates m (key_order m)"
    and "snapshot_order kb names keys" and "keyed_snapshot cd names keys h kb = Ok data"
    and "keyed_wf h' kb'" and "compatible h kb h' kb'"
  shows "\<exists>h''. keyed_restore cd order key_order kb' data h' = (h'', Ok ()) \<and> length h'' = length h' \<and>
    (\<forall>k n a a'. state_of kb k n = Some a \<longrightarrow> state_of kb' k n = Some a' \<longrightarrow> content (h'' ! a') = content (h ! a)) \<and>
    (\<forall>a'<length h'. (\<forall>k n. state_of kb k n = None \<or> state_of kb' k n \<noteq> Some a') \<longrightarrow> content (h'' ! a') = content (h' ! a'))"
proof -
  obtain m where m: "snapshot_keys cd names h kb keys Map.empty = Ok m" "enc_keys cd m = Some data"
    using assms(5) by (auto simp: keyed_snapshot_def res_simps)
  have keys: "set keys = dom (backends kb)" and names: "\<And>k b. backends kb k = Some b \<Longrightarrow> iterates b (names k)"
    using assms(4) by (auto simp: snapshot_order_def iterates_def)
  note exact = snapshot_keys_exact [OF m(1)]
  have dom: "dom m = dom (backends kb)" using exact keys by simp
  have fin: "finite (dom m)" using dom keys by (metis finite_set)
  have dec: "dec_keys cd data = Some m" using assms(1) m(2) fin by (simp add: codec_laws_def)
  have order: "distinct (key_order m)" "set (key_order m) = dom (backends kb)"
    using assms(3) [OF fin] dom by (simp_all add: iterates_def)
  have snap: "\<exists>b bs. backends kb k = Some b \<and> m k = Some bs \<and> backend_snapshot cd h b (names k) = Ok bs"
    if k: "k \<in> set (key_order m)" for k
  proof -
    from k order obtain b where b: "backends kb k = Some b" by auto
    then have "k \<in> set keys" using keys by auto
    with exact b show ?thesis by fastforce
  qed
  from restore_keys_exact [OF assms(1,2) names snap order(1) assms(6,7)] obtain h'' t where
    r: "restore_keys cd order kb' m (key_order m) h' = (h'', Ok ())" "restores h' t h''"
      "\<forall>k n a'. state_of kb' k n = Some a' \<longrightarrow>
        t a' = (if k \<in> set (key_order m) then map_option (\<lambda>a. content (h ! a)) (state_of kb k n) else None)"
      "\<forall>a'. (\<forall>k n. state_of kb k n = None \<or> state_of kb' k n \<noteq> Some a') \<longrightarrow> t a' = None"
    by blast
  show ?thesis
  proof (intro exI conjI allI impI)
    show "keyed_restore cd order key_order kb' data h' = (h'', Ok ())" using r(1) dec by (simp add: keyed_restore_def)
    show "length h'' = length h'" using r(2) by (simp add: restores_def)
    show "content (h'' ! a') = content (h ! a)" if "state_of kb k n = Some a" "state_of kb' k n = Some a'" for k n a a'
    proof -
      have "k \<in> set (key_order m)" using that(1) order(2) by (auto simp: state_of_def split: option.splits)
      with r(3) that have "t a' = Some (content (h ! a))" by simp
      with r(2) keyed_wf_bound [OF assms(6) that(2)] show ?thesis by (simp add: restores_def)
    qed
    show "content (h'' ! a') = content (h' ! a')"
      if "a' < length h'" "\<forall>k n. state_of kb k n = None \<or> state_of kb' k n \<noteq> Some a'" for a'
      using r(2,4) that by (simp add: restores_def)
  qed
qed

text \<open>State is isolated. Creating a state under the current key allocates a handle no other state uses, keeps
  the handle and the content of every existing state of every key, and fails without an effect on any state when
  the name is taken; setting the new state afterwards changes no other state of any key.\<close>

lemma keyed_state_isolated:
  assumes "keyed_wf h kb" and "keyed_create create_value_state h kb name = (h', kb', r)" and "state_of kb k n = Some a"
  shows "keyed_wf h' kb' \<and> state_of kb' k n = Some a \<and> h' ! a = h ! a \<and>
    (\<forall>new. r = Ok new \<longrightarrow> new \<noteq> a \<and> (\<exists>h''. value_set h' new v = Ok h'' \<and> value_get h'' new = Ok (Some v) \<and> h'' ! a = h ! a))"
proof -
  note create = assms(2) [unfolded create_value_state_def]
  note fresh = create_fresh [OF assms(1) create]
  have "new \<noteq> a \<and> (\<exists>h''. value_set h' new v = Ok h'' \<and> value_get h'' new = Ok (Some v) \<and> h'' ! a = h ! a)"
    if r: "r = Ok new" for new
  proof -
    from create_fresh(3) [OF assms(1) create r]
    have new: "new = length h" "content (h' ! new) = ValueCell None" by auto
    have a: "a < length h" by (rule keyed_wf_bound [OF assms(1,3)])
    from create r obtain key where "kb_current_key kb = Some key"
      by (cases "kb_current_key kb") (auto simp: keyed_create_def current_backend_def)
    with create r have h': "h' = h @ [\<lparr>content = ValueCell None, poisoned = False\<rparr>]"
      by (auto simp: keyed_create_def current_backend_def create_state_def check_duplicate_def split: if_splits option.splits)
    with new a show ?thesis
      by (auto simp: value_set_def value_get_def locked_def store_content_def nth_append)
  qed
  with fresh(1) fresh(2) [OF assms(3)] show ?thesis by blast
qed

text \<open>A backend that starts empty restores nothing: the snapshot is read, every key is skipped, and the
  result is Ok.\<close>

lemma restore_into_empty: "restore_keys cd order keyed_new m ks h = (h, Ok ())"
  by (induction ks) (simp_all add: keyed_new_def)

lemma restore_forgets:
  "dec_keys cd data = Some m \<Longrightarrow> keyed_restore cd order key_order keyed_new data h = (h, Ok ())"
  by (simp add: keyed_restore_def restore_into_empty)

text \<open>A codec for one value state \<open>x\<close> of one key; it refuses everything else.\<close>

definition byte_codec :: "(unit, u8) state_codec" where
  "byte_codec = \<lparr>
     enc_cell = (\<lambda>c. case c of ValueCell (Some v) \<Rightarrow> Some [v] | _ \<Rightarrow> None),
     dec_cell = (\<lambda>c bs. case bs of [v] \<Rightarrow> Some (ValueCell (Some v)) | _ \<Rightarrow> None),
     enc_states = (\<lambda>m. case m ''x'' of Some bs \<Rightarrow> if m = [''x'' \<mapsto> bs] then Some bs else None | None \<Rightarrow> None),
     dec_states = (\<lambda>bs. Some [''x'' \<mapsto> bs]),
     enc_keys = (\<lambda>m. case m [1] of Some bs \<Rightarrow> if m = [[1] \<mapsto> bs] then Some bs else None | None \<Rightarrow> None),
     dec_keys = (\<lambda>bs. Some [[1] \<mapsto> bs])\<rparr>"

lemma byte_codec_laws: "codec_laws byte_codec"
  by (auto simp: codec_laws_def byte_codec_def split: cell_content.splits option.splits if_splits)

definition one_state :: keyed_backend where
  "one_state = \<lparr>backends = [[1] \<mapsto> [''x'' \<mapsto> 0]], kb_current_key = Some [1]\<rparr>"

definition one_cell :: "u8 \<Rightarrow> (unit, u8) heap" where
  "one_cell v = [\<lparr>content = ValueCell (Some v), poisoned = False\<rparr>]"

lemma one_state_of: "state_of one_state k n = (if k = [1] \<and> n = ''x'' then Some 0 else None)"
  by (simp add: state_of_def one_state_def)

lemma one_state_wf: "keyed_wf (one_cell v) one_state"
  by (auto simp: keyed_wf_def one_state_of one_cell_def split: if_splits)

theorem keyed_snapshot_roundtrip_witness:
  "\<exists>order key_order h''. keyed_snapshot byte_codec (\<lambda>_. [''x'']) [[1]] (one_cell 7) one_state = Ok [7] \<and>
     keyed_restore byte_codec order key_order one_state [7] (one_cell 9) = (h'', Ok ()) \<and>
     content (h'' ! 0) = ValueCell (Some 7)"
proof -
  obtain order :: "(string \<rightharpoonup> bytes) \<Rightarrow> string list" where order: "\<And>m. finite (dom m) \<Longrightarrow> iterates m (order m)" using ex_iterates by metis
  obtain key_order :: "(bytes \<rightharpoonup> bytes) \<Rightarrow> bytes list" where key_order: "\<And>m. finite (dom m) \<Longrightarrow> iterates m (key_order m)" using ex_iterates by metis
  have so: "snapshot_order one_state (\<lambda>_. [''x'']) [[1]]"
    by (auto simp: snapshot_order_def iterates_def one_state_def split: if_splits)
  have snap: "keyed_snapshot byte_codec (\<lambda>_. [''x'']) [[1]] (one_cell 7) one_state = Ok [7]"
    by (simp add: keyed_snapshot_def backend_snapshot_def snapshot_bytes_def locked_def one_cell_def one_state_def byte_codec_def
        serialized_def)
  have "compatible (one_cell 7) one_state (one_cell 9) one_state"
    by (auto simp: compatible_def one_state_of one_cell_def split: if_splits)
  from keyed_snapshot_roundtrip [OF byte_codec_laws order key_order so snap one_state_wf this]
  obtain h'' where "keyed_restore byte_codec order key_order one_state [7] (one_cell 9) = (h'', Ok ())"
    "\<forall>k n a a'. state_of one_state k n = Some a \<longrightarrow> state_of one_state k n = Some a' \<longrightarrow> content (h'' ! a') = content (one_cell 7 ! a)"
    by blast
  moreover from this(2) have "content (h'' ! 0) = ValueCell (Some 7)" by (auto simp: one_state_of one_cell_def)
  ultimately show ?thesis using snap by blast
qed

lemma keyed_state_isolated_example:
  "keyed_wf (one_cell 7) one_state \<and> (\<exists>h' kb'. keyed_create create_value_state (one_cell 7) one_state ''y'' = (h', kb', Ok 1) \<and> h' ! 0 = one_cell 7 ! 0)"
proof -
  obtain h' kb' where c: "keyed_create create_value_state (one_cell 7) one_state ''y'' = (h', kb', Ok 1)"
    by (simp add: keyed_create_def current_backend_def one_state_def create_value_state_def create_state_def check_duplicate_def one_cell_def)
  from keyed_state_isolated [OF one_state_wf c, of "[1]" "''x''" 0] c one_state_wf show ?thesis by (auto simp: one_state_of)
qed

end
