(* ===== verification/Spec2Isabelle.thy ===== *)
theory Spec2Isabelle
  imports Aligner Basic_Operators Collectors Configuration Connector_Theorems Connectors Coordinator Dataflow Dataflow_Invariant Dataflow_Steps Decimals Flume_Prelude Interval_Join Job_Manager Job_Server Logical_Graph Merge Network Operator_Contract Physical_Graph Pipeline Pipeline_Correct Pipeline_Theorems Process_Operator Ring_Buffer Routing Slot_Manager Snapshot_Store State_Backend Stream_Types Task_Executor Timers Window_Join Window_Operator Windowed Windows
begin

text \<open>
  A verification library for flume-rs, a stream processing engine in Rust. Paths are relative to
  \<open>src/crates\<close>.

  \<^bold>\<open>The program.\<close> A pipeline is a chain of operators. Each operator is synchronous: it is handed one stream
  element at a time (a record, a watermark that promises no earlier records, or a checkpoint barrier) and
  emits into a collector. A task drives it from its input channel; two streams are joined by a merger, several inputs by
  a barrier aligner. Checkpoints are triggered by a coordinator that injects barriers and stores the acknowledged
  states. The builder API spawns these tasks, connects them with channels and drains the last one into a sink. In a cluster, a job manager schedules the parallel instances onto the slots of task managers, which exchange elements over the
  network. A server starts, cancels and reaps jobs.

  \<^bold>\<open>The theories\<close>, with the files they model:

  \<^item> \<open>Flume_Prelude\<close>: machine integers with Rust's overflow checks, results with panics (\<open>flume-core/src/error.rs\<close>), hash maps
    with an arbitrary iteration order, ordered maps and sets; \<open>Decimals\<close>: printing and parsing numbers.
  \<^item> \<open>Stream_Types\<close>: \<open>time.rs\<close>, \<open>record.rs\<close>, \<open>either.rs\<close>, \<open>config.rs\<close> of \<open>flume-core/src\<close>.
  \<^item> \<open>Collectors\<close>: the collector interface and its laws (locale \<open>collector_laws\<close>), the collectors over channels
    (\<open>flume-runtime/src/channel.rs\<close>) and of the test harness.
  \<^item> \<open>Basic_Operators\<close>: the operator interface, map, filter, flat map, key by, and \<open>test_harness.rs\<close>.
  \<^item> \<open>Timers\<close>: \<open>flume-core/src/timer.rs\<close>. \<open>Windows\<close>: \<open>window.rs\<close> (assigners, triggers). \<open>Windowed\<close>: what the windowed operators share.
  \<^item> \<open>Window_Operator\<close>, \<open>Window_Join\<close>, \<open>Interval_Join\<close>, \<open>Process_Operator\<close>: \<open>flume-core/src/operator/*.rs\<close>, \<open>join.rs\<close>, \<open>process.rs\<close>.
  \<^item> \<open>Ring_Buffer\<close>, \<open>Merge\<close>, \<open>Routing\<close>, \<open>Aligner\<close>, \<open>Task_Executor\<close>: \<open>ring_buffer.rs\<close>, \<open>merge.rs\<close>, \<open>watermark.rs\<close> and \<open>partition.rs\<close>,
    \<open>checkpoint/aligner.rs\<close>, \<open>channel.rs\<close>, \<open>task.rs\<close>, \<open>scheduler.rs\<close> and \<open>side_output.rs\<close> of \<open>flume-runtime/src\<close>.
  \<^item> \<open>Logical_Graph\<close>, \<open>Physical_Graph\<close>: \<open>dag.rs\<close> and \<open>physical.rs\<close> of \<open>flume-runtime/src\<close>.
  \<^item> \<open>State_Backend\<close>: \<open>memory.rs\<close> and \<open>keyed.rs\<close> of \<open>flume-state/src\<close>. \<open>Snapshot_Store\<close>, \<open>Coordinator\<close>: \<open>store.rs\<close> and \<open>coordinator.rs\<close> of
    \<open>flume-runtime/src/checkpoint\<close>.
  \<^item> \<open>Slot_Manager\<close>: \<open>flume-network/src/slot_manager.rs\<close> and the event loop of \<open>flume-server/src/tm.rs\<close>. \<open>Job_Manager\<close>:
    \<open>resource_manager.rs\<close> and \<open>deploy_job\<close> of \<open>flume-server/src/jm.rs\<close>. \<open>Network\<close>: \<open>network_collector.rs\<close>, \<open>network_input.rs\<close>, \<open>exchange.rs\<close>.
  \<^item> \<open>Configuration\<close>, \<open>Job_Server\<close>: \<open>flume-api/src/config.rs\<close>; \<open>config.rs\<close>, \<open>registry.rs\<close>, \<open>job.rs\<close> and \<open>api/\<close> of \<open>flume-server/src\<close>.

  \<^item> \<open>Dataflow\<close>, \<open>Dataflow_Steps\<close>, \<open>Dataflow_Invariant\<close>: the spawned futures of a pipeline (\<open>task.rs\<close>, \<open>scheduler.rs\<close>, the closures of
    \<open>flume-api/src/datastream.rs\<close> and \<open>connected.rs\<close>) as a network of tasks that are polled in any order, and its invariant.
    \<open>Operator_Contract\<close>: every operator of the library is a transducer, whatever collector it is given.
  \<^item> \<open>Pipeline\<close>, \<open>Pipeline_Correct\<close>, \<open>Pipeline_Theorems\<close>: the builders, sources and sinks of \<open>flume-api/src\<close> and what the pipelines they build do.
  \<^item> \<open>Connectors\<close>, \<open>Connector_Theorems\<close>: \<open>flume-connectors\<close>, the sources and sinks over files, TCP and Kafka.

  \<^bold>\<open>How code becomes definitions.\<close> A struct is a record, an enum a datatype, a method a function of the code's name that returns
  the changed state. \<open>Result\<close> is \<open>res\<close>, whose third constructor is a panic; an error does not roll back what was
  changed before it. A \<open>u64\<close> or \<open>u32\<close> is a word. Shared handles (\<open>Arc<Mutex<..>>\<close>) are addresses of an explicit heap. A closure is a
  function that returns the state it captured; a process function is a tree of calls on its context. Asynchronous code is
  modelled by its schedule: the choice of \<open>select!\<close>, the readiness of inputs, the moments of ticks, acknowledgements and deadlines
  are an argument over which the theorems quantify. The hashers, the bitcode codec, the TOML parser, the gRPC transport, tokio's
  channels, notifications and buffered writer and the Kafka client are not part of the repository: they are arguments, with the laws that are used stated in a locale or a hypothesis.

  \<^bold>\<open>What the lemmas show\<close>, by group (the properties themselves carry their numbers in their theories):

  \<^item> Event time: timers fire once, in order and under their key; windows are assigned, fired and purged so that every record counts exactly once in
    every window it belongs to; joins produce exactly the matching pairs, the interval join on streams on time (otherwise, those
    that meet in the order of arrival).
  \<^item> Transport: the ring buffer is a FIFO queue in every interleaving, the merger and the aligner deliver consistent cuts, a task runs
    its operator on everything its channel accepted, the network neither loses nor reorders the records and barriers it accepted (an incomplete last batch stays in its buffer, and
    watermarks are sent in a form that is not read back).
  \<^item> Pipelines: what the builders make is well formed, and every run that ends well, in any interleaving of the tasks and over any
    kind of channel, feeds the sink a stream that the sequential operators prescribe; no channel ever holds more than its size, which a ring buffer rounds up to a power of two.
  \<^item> Connectors: sources replay from their snapshots, sinks are durable up to a barrier, and a file pipeline writes what it should.
  \<^item> Recovery: snapshot and restore of keyed state are inverse, a committed checkpoint is complete (the coordinator
    counts operator names and does not compare them) and is found again, cleaning up keeps the newest.
  \<^item> Cluster: the topological order is correct and complete, scheduling uses every slot at most once, slot managers refine a
    bounded map (with a slot leaked for every id that is deployed twice), deploying a job places every subtask once, the status of a job tells what happened to it.
  \<^item> A counterexample behind a recorded finding, where one is stated, is a closed lemma of the theory it concerns.

  \<^bold>\<open>Interfaces.\<close> The locales are \<open>collector_laws\<close> and \<open>sender_laws\<close> (what operators and collectors rely on), \<open>elementwise_operator\<close> and its
  extensions, the contracts of the windowed operators, \<open>operator_input\<close> and \<open>element_input\<close> (what a task relies on, provided by both kinds of channel),
  \<open>batch_sender\<close> (network channel), \<open>notify_laws\<close>, \<open>buffered_writer\<close> (what a line sink relies on) and \<open>deployment\<close> (what the job manager relies on, provided by the slot managers of a cluster).

  \<^bold>\<open>Bounds.\<close> Loops of the code are total functions with a measure. Where a loop waits for its environment the schedule is finite
  and running out of it means that the loop is still waiting; termination is then stated for schedules of a sufficient length
  (\<open>aligner_ends\<close>, \<open>closed_task_ends\<close>, \<open>ring_close_delivers\<close>).

  \<^bold>\<open>Not modelled.\<close> The command line and the binaries, HTTP routing, JSON and serde derives, gRPC clients and
  services, thread pinning, metrics and logging are input and output or glue around what is modelled. Memory is
  sequentially consistent, files are written atomically, and time is a number.
  Counters of type \<open>usize\<close>, checkpoint ids and the sequence numbers of the ring buffer are natural numbers; a theorem in which the
  width matters bounds them by 2^64. An operator's name is taken as a plain file name (\<open>Path::join\<close> would follow separators), a
  Kafka source reads one topic, and a job's own use of the cancellation token that its factory got is not modelled.
  That a pipeline always ends is not shown: a run is a finite list of polls, and the theorems speak of those after which \<open>add_sink\<close> has returned.
\<close>

end
